(* ===== verification/Ihk_Prelude.thy ===== *)
theory Ihk_Prelude
  imports Main "HOL-Library.Word"
begin

text \<open>
  Vocabulary shared by the component theories of the IHK development: the
  machine types of the C sources, the Linux error numbers, the fact
  collections the components add to, and the generic lemmas on words, lists
  and address intervals that more than one component uses.
\<close>

unbundle bit_operations_syntax

section \<open>Machine types\<close>

type_synonym byte = "8 word"
type_synonym u16 = "16 word"
type_synonym u32 = "32 word"
type_synonym u64 = "64 word"

text \<open>Byte-addressed memory objects: the byte at each offset from the start.\<close>

type_synonym bytes = "nat \<Rightarrow> byte"

text \<open>\<open>int\<close> results of C functions are HOL integers; a kernel pointer that may
  be NULL is an option.\<close>

section \<open>Error numbers\<close>

datatype errno =
    EPERM | ENOENT | EINTR | EIO | E2BIG | EAGAIN | ENOMEM | EFAULT | EBUSY
  | EINVAL | ENOSPC | ENOSYS | ECONNABORTED | ECONNREFUSED | ERESTARTSYS

fun errno_code :: "errno \<Rightarrow> int" where
  "errno_code EPERM = 1"
| "errno_code ENOENT = 2"
| "errno_code EINTR = 4"
| "errno_code EIO = 5"
| "errno_code E2BIG = 7"
| "errno_code EAGAIN = 11"
| "errno_code ENOMEM = 12"
| "errno_code EFAULT = 14"
| "errno_code EBUSY = 16"
| "errno_code EINVAL = 22"
| "errno_code ENOSPC = 28"
| "errno_code ENOSYS = 38"
| "errno_code ECONNABORTED = 103"
| "errno_code ECONNREFUSED = 111"
| "errno_code ERESTARTSYS = 512"

text \<open>What \<open>return -EINVAL;\<close> returns.\<close>

definition err :: "errno \<Rightarrow> int" where
  "err e = - errno_code e"

lemma errno_code_pos [simp]: "0 < errno_code e"
  by (cases e) simp_all

lemma err_neg [simp]: "err e < 0"
  by (simp add: err_def)

lemma err_neq_0 [simp]: "err e \<noteq> 0" "0 \<noteq> err e"
  using errno_code_pos [of e] by (simp_all add: err_def del: errno_code_pos)

lemma err_le_0 [simp]: "err e \<le> 0" "\<not> 0 \<le> err e" "\<not> 0 < err e"
  using errno_code_pos [of e] by (simp_all add: err_def del: errno_code_pos)

lemma errno_code_inject [simp]: "errno_code e = errno_code f \<longleftrightarrow> e = f"
  by (cases e; cases f) simp_all

lemma err_inject [simp]: "err e = err f \<longleftrightarrow> e = f"
  by (simp add: err_def)

section \<open>Fact collections\<close>

named_theorems queue_defs \<open>definitions of the IKC queue operations\<close>
named_theorems chan_defs \<open>definitions of the IKC channel operations\<close>
named_theorems master_defs \<open>definitions of the IKC master-channel operations\<close>
named_theorems palloc_defs \<open>definitions of the page allocator\<close>
named_theorems kmsg_defs \<open>definitions of the kernel-message buffers\<close>
named_theorems cpu_defs \<open>definitions of the SMP processor operations\<close>
named_theorems mem_defs \<open>definitions of the SMP memory operations\<close>
named_theorems os_defs \<open>definitions of the kernel-instance operations\<close>

section \<open>Words\<close>

lemma unat_plus_1_no_wrap:
  fixes w :: "'a::len word"
  assumes "w \<noteq> - 1"
  shows "unat (w + 1) = Suc (unat w)"
  using assms
  by (metis add.commute add_eq_0_iff unatSuc)

lemma unat_max_word: "unat (- 1 :: 'a::len word) = 2 ^ LENGTH('a) - 1"
  by (simp add: unsigned_minus_1_eq_mask mask_eq_exp_minus_1)

lemma unat_succ_u64: "Suc (unat (w :: 64 word)) < 2 ^ 64 \<Longrightarrow> unat (w + 1) = Suc (unat w)"
  by (cases "w = - 1") (simp_all add: unat_plus_1_no_wrap unat_max_word)

lemma unat_diff_of_le:
  fixes a b :: "'a::len word"
  assumes "unat b \<le> unat a"
  shows "unat (a - b) = unat a - unat b"
  using assms by (simp add: unat_sub word_le_nat_alt)

lemma unat_bound: "unat (w :: 'a::len word) < 2 ^ LENGTH('a)"
  by (rule unsigned_less)

lemma unat_ucast_up:
  fixes x :: "'a::len word"
  assumes "LENGTH('a) \<le> LENGTH('b::len)"
  shows "unat (ucast x :: 'b word) = unat x"
proof -
  have "unat x < 2 ^ LENGTH('b)"
    using unat_bound [of x] assms
    by (meson order.strict_trans2 one_le_numeral power_increasing)
  then show ?thesis
    by (simp add: unsigned_ucast_eq take_bit_nat_eq_self_iff)
qed

lemma unat_u16_u32 [simp]: "unat (ucast (x :: u16) :: u32) = unat x"
  by (rule unat_ucast_up) simp

lemma unat_u32_u64 [simp]: "unat (ucast (x :: u32) :: u64) = unat x"
  by (rule unat_ucast_up) simp

lemma unat_u16_u64 [simp]: "unat (ucast (x :: u16) :: u64) = unat x"
  by (rule unat_ucast_up) simp

lemma unat_ucast_down:
  fixes x :: "'a::len word"
  assumes "unat x < 2 ^ LENGTH('b::len)"
  shows "unat (ucast x :: 'b word) = unat x"
  using assms by (simp add: unsigned_ucast_eq take_bit_nat_eq_self_iff)

text \<open>A nonnegative C \<open>int\<close> keeps its value when it is widened with its sign.\<close>

lemma sint_nonneg:
  fixes w :: "32 word"
  assumes "unat w < 2 ^ 31"
  shows "sint w = int (unat w)"
proof -
  have lt: "int n < 2147483648" if "n < 2 ^ 31" for n using that by simp
  have ge: "- (2 ^ 31) \<le> int n" for n by (rule order_trans [of _ 0]) simp_all
  have u: "uint w = int (unat w)" by simp
  have "signed_take_bit 31 (int (unat w)) = int (unat w)"
    by (rule signed_take_bit_int_eq_self [OF ge]) (use lt [OF assms] in simp)
  moreover have "sint w = signed_take_bit 31 (uint w)"
    by (simp add: sint_uint)
  ultimately show ?thesis
    unfolding u by simp
qed

lemma unat_scast_nonneg:
  fixes w :: "32 word"
  assumes "unat w < 2 ^ 31"
  shows "unat (scast w :: 64 word) = unat w"
proof -
  have "(scast w :: 64 word) = of_nat (unat w)"
    by (metis sint_nonneg [OF assms] scast_eq of_int_of_nat_eq)
  then show ?thesis
    by simp
qed

section \<open>The highest set bit\<close>

text \<open>\<open>fls\<close> is one more than the index of the highest set bit, and 0 for 0.\<close>

fun fls :: "nat \<Rightarrow> nat" where
  "fls n = (if n = 0 then 0 else Suc (fls (n div 2)))"

declare fls.simps [simp del]

lemma fls_0 [simp]: "fls 0 = 0"
  by (simp add: fls.simps)

lemma fls_bounds: "0 < n \<Longrightarrow> 0 < fls n \<and> 2 ^ (fls n - 1) \<le> n \<and> n < 2 ^ fls n"
proof (induction n rule: fls.induct)
  case (1 n)
  show ?case
  proof (cases "n div 2 = 0")
    case True
    with 1(2) have "n = 1" by linarith
    then show ?thesis by (simp add: fls.simps)
  next
    case False
    with 1 have IH: "0 < fls (n div 2)" "2 ^ (fls (n div 2) - 1) \<le> n div 2" "n div 2 < 2 ^ fls (n div 2)"
      by auto
    have "(2::nat) ^ fls (n div 2) = 2 * 2 ^ (fls (n div 2) - 1)"
      using IH(1) by (cases "fls (n div 2)") auto
    with IH 1(2) show ?thesis
      by (subst fls.simps, subst (2) fls.simps, subst (2) fls.simps) (auto; linarith)
  qed
qed

lemma fls_unique:
  assumes "2 ^ k \<le> n" and "n < 2 ^ Suc k"
  shows "fls n = Suc k"
proof -
  have n: "0 < n"
    by (rule less_le_trans [OF _ assms(1)]) simp
  from fls_bounds [OF this] have b: "0 < fls n" "2 ^ (fls n - 1) \<le> n" "n < 2 ^ fls n" by auto
  have "2 ^ (fls n - 1) < (2::nat) ^ Suc k" and "2 ^ k < (2::nat) ^ fls n"
    using b assms by linarith+
  then have "fls n - 1 < Suc k" and "k < fls n"
    by (auto intro: power_less_imp_less_exp [of "2 :: nat"] simp del: power_Suc)
  with b(1) show ?thesis by linarith
qed


section \<open>Sorted insertion\<close>

text \<open>
  Several lists of the SMP driver are kept in ascending address order by
  scanning for the first larger element and inserting in front of it.
\<close>

fun insert_before :: "('a \<Rightarrow> nat) \<Rightarrow> 'a \<Rightarrow> 'a list \<Rightarrow> 'a list" where
  "insert_before k x [] = [x]"
| "insert_before k x (y # ys) = (if k x < k y then x # y # ys else y # insert_before k x ys)"

lemma set_insert_before [simp]: "set (insert_before k x ys) = insert x (set ys)"
  by (induction ys) auto

lemma length_insert_before [simp]: "length (insert_before k x ys) = Suc (length ys)"
  by (induction ys) auto

lemma sorted_insert_before:
  "sorted (map k ys) \<Longrightarrow> sorted (map k (insert_before k x ys))"
  by (induction ys) (auto simp: less_imp_le)

lemma sum_list_insert_before [simp]:
  "sum_list (map f (insert_before k x ys)) = f x + sum_list (map f (ys :: 'a list))"
  for f :: "'a \<Rightarrow> 'b::comm_monoid_add"
  by (induction ys) (auto simp: ac_simps)

lemma filter_insert_before_not:
  "\<not> P x \<Longrightarrow> filter P (insert_before k x ys) = filter P ys"
  by (induction ys) auto

section \<open>Arrays in user space\<close>

text \<open>
  A user array is the list of its accessible elements: a copy of more elements than it
  has faults. A kernel call that faults copies nothing the driver goes on to use.
\<close>

definition copy_from_user :: "'a list \<Rightarrow> nat \<Rightarrow> 'a list option" where
  "copy_from_user arr n = (if n \<le> length arr then Some (take n arr) else None)"

definition copy_to_user :: "'a list \<Rightarrow> 'a list \<Rightarrow> 'a list option" where
  "copy_to_user arr xs = (if length xs \<le> length arr then Some (xs @ drop (length xs) arr) else None)"

section \<open>Loops over a table\<close>

text \<open>A loop that updates each entry of a table by itself.\<close>

lemma fold_table:
  assumes "distinct is"
  shows "fold (\<lambda>i m. if P i (m i) then m(i := f i (m i)) else m) is m j =
    (if j \<in> set is \<and> P j (m j) then f j (m j) else m j)"
  using assms by (induction "is" arbitrary: m) auto

end
