(* ===== verification/Ikc_Queue.thy ===== *)
theory Ikc_Queue
  imports Ihk_Prelude
begin

text \<open>
  The inter-kernel packet queue of \<^verbatim>\<open>ikc/queue.c\<close>: a header followed, in the same
  shared pages, by \<open>pktcount\<close> slots of \<open>pktsize\<close> bytes. This theory holds the
  queue functions as one caller executes them when no other processor touches
  the queue between its steps; \<open>Ikc_Queue_Conc\<close> holds the same functions as
  interleaved steps. The bounded-FIFO contract that the channel layer relies on
  is the locale \<open>bounded_fifo\<close>, interpreted here on the queue functions.

  A result of \<open>None\<close> means that the C function does not return: it divides by a
  zero \<open>pktcount\<close> or spins forever on a \<open>cmpxchg\<close>.
\<close>

section \<open>The queue header and its slots\<close>

record ihk_ikc_queue_head =
  q_id :: u32
  q_type :: u16
  pktsize :: u16
  pktcount :: u32
  q_flag :: u32
  read_off :: u64
  max_read_off :: u64
  write_off :: u64
  queue_size :: u64
  q_channel_id :: u32
  read_cpu :: u32
  write_cpu :: u32
  dummy2 :: u32

record ikc_queue = ihk_ikc_queue_head +
  qdata :: bytes

definition sizeof_queue_head :: u64 where
  "sizeof_queue_head = 64"

definition IHK_IKC_WRITE_QUEUE_RETRY :: nat where
  "IHK_IKC_WRITE_QUEUE_RETRY = 128"

text \<open>\<open>memset(q, 0, sizeof( *q))\<close>: the header is cleared, the slots are not.\<close>

definition zero_head :: "ikc_queue \<Rightarrow> ikc_queue" where
  "zero_head q = \<lparr>q_id = 0, q_type = 0, pktsize = 0, pktcount = 0, q_flag = 0,
     read_off = 0, max_read_off = 0, write_off = 0, queue_size = 0,
     q_channel_id = 0, read_cpu = 0, write_cpu = 0, dummy2 = 0, qdata = qdata q\<rparr>"

section \<open>Copying by long\<close>

definition copy_long :: "bytes \<Rightarrow> nat \<Rightarrow> bytes \<Rightarrow> nat \<Rightarrow> bytes" where
  "copy_long dst d src s = (\<lambda>i. if d \<le> i \<and> i < d + 8 then src (s + (i - d)) else dst i)"

fun memcpyl_loop :: "nat \<Rightarrow> bytes \<Rightarrow> nat \<Rightarrow> bytes \<Rightarrow> nat \<Rightarrow> bytes" where
  "memcpyl_loop 0 dst d src s = dst"
| "memcpyl_loop (Suc n) dst d src s = memcpyl_loop n (copy_long dst d src s) (d + 8) src (s + 8)"

definition memcpyl :: "bytes \<Rightarrow> nat \<Rightarrow> bytes \<Rightarrow> nat \<Rightarrow> nat \<Rightarrow> bytes" where
  "memcpyl dst d src s n = memcpyl_loop (n div 8) dst d src s"

section \<open>Queue functions\<close>

text \<open>
  C integer conversions are explicit: \<open>size\<close> and \<open>packetsize\<close> are ints that are
  converted to \<open>unsigned long\<close> by the subtraction of a \<open>sizeof\<close>, the quotient is
  truncated to the 32-bit \<open>pktcount\<close>, and \<open>pktsize * pktcount\<close> is a 32-bit product.
\<close>

definition ihk_ikc_init_queue ::
  "ikc_queue option \<Rightarrow> u32 \<Rightarrow> u32 \<Rightarrow> u32 \<Rightarrow> u32 \<Rightarrow> (int \<times> ikc_queue option) option" where
  "ihk_ikc_init_queue qp ident type sz packetsize =
     (case qp of
        None \<Rightarrow> Some (err EINVAL, None)
      | Some q \<Rightarrow>
          if packetsize = 0 then None
          else
            let psz = ucast packetsize :: u16;
                cnt = ucast ((scast sz - sizeof_queue_head) div scast packetsize) :: u32
            in Some (0, Some ((zero_head q)
                 \<lparr>q_id := ident, q_type := ucast type, pktsize := psz, pktcount := cnt,
                  read_off := 0, max_read_off := 0, write_off := 0,
                  read_cpu := 0, write_cpu := 0,
                  queue_size := ucast ((ucast psz :: u32) * cnt)\<rparr>)))"

definition ihk_ikc_queue_is_empty :: "ikc_queue option \<Rightarrow> int" where
  "ihk_ikc_queue_is_empty qp =
     (case qp of None \<Rightarrow> err EINVAL
      | Some q \<Rightarrow> (if read_off q = max_read_off q then 1 else 0))"

text \<open>The test \<open>(w - r) == (q->pktcount - 1)\<close>: the right side is computed in 32 bits.\<close>

definition full_test :: "ikc_queue \<Rightarrow> u64 \<Rightarrow> u64 \<Rightarrow> bool" where
  "full_test q r w \<longleftrightarrow> w - r = ucast (pktcount q - 1)"

definition ihk_ikc_queue_is_full :: "ikc_queue option \<Rightarrow> int" where
  "ihk_ikc_queue_is_full qp =
     (case qp of None \<Rightarrow> err EINVAL
      | Some q \<Rightarrow> (if full_test q (read_off q) (write_off q) then 1 else 0))"

text \<open>\<open>(r % q->pktcount) * q->pktsize\<close>, the byte offset of a slot behind the header.\<close>

definition slot_off :: "ikc_queue \<Rightarrow> u64 \<Rightarrow> nat" where
  "slot_off q r = unat ((r mod ucast (pktcount q)) * ucast (pktsize q))"

definition ihk_ikc_read_queue ::
  "ikc_queue option \<Rightarrow> bytes option \<Rightarrow> (int \<times> ikc_queue option \<times> bytes option) option" where
  "ihk_ikc_read_queue qp packet =
     (case (qp, packet) of
        (Some q, Some p) \<Rightarrow>
          let r = read_off q; m = max_read_off q in
          if r = m then Some (-1, Some q, Some p)
          else if pktcount q = 0 then None
          else Some (0, Some (q\<lparr>read_off := r + 1\<rparr>),
                     Some (memcpyl p 0 (qdata q) (slot_off q r) (unat (pktsize q))))
      | _ \<Rightarrow> Some (err EINVAL, qp, packet))"

text \<open>The handler \<open>h\<close> gets a pointer into the queue: it sees the slot's bytes in place.\<close>

definition ihk_ikc_read_queue_handler ::
  "ikc_queue \<Rightarrow> (bytes \<Rightarrow> 's \<Rightarrow> 's) \<Rightarrow> 's \<Rightarrow> (int \<times> ikc_queue \<times> 's) option" where
  "ihk_ikc_read_queue_handler q h st =
     (let r = read_off q; m = max_read_off q in
      if r = m then Some (-1, q, st)
      else if pktcount q = 0 then None
      else Some (0, q\<lparr>read_off := r + 1\<rparr>, h (\<lambda>i. qdata q (slot_off q r + i)) st))"

function write_queue_loop :: "nat \<Rightarrow> ikc_queue \<Rightarrow> bytes \<Rightarrow> (int \<times> ikc_queue) option" where
  "write_queue_loop attempt q p =
     (let r = read_off q; w = write_off q in
      if full_test q r w then
        (if attempt + 1 > IHK_IKC_WRITE_QUEUE_RETRY then Some (err EBUSY, q)
         else write_queue_loop (attempt + 1) q p)
      else if pktcount q = 0 then None
      else
        let q1 = q\<lparr>write_off := w + 1\<rparr>;
            q2 = q1\<lparr>qdata := memcpyl (qdata q1) (slot_off q1 w) p 0 (unat (pktsize q1))\<rparr>
        in if max_read_off q2 = w then Some (0, q2\<lparr>max_read_off := w + 1\<rparr>) else None)"
  by pat_completeness auto
termination
  by (relation "measure (\<lambda>(attempt, q, p). IHK_IKC_WRITE_QUEUE_RETRY - attempt)") auto

declare write_queue_loop.simps [simp del]

definition ihk_ikc_write_queue ::
  "ikc_queue option \<Rightarrow> bytes option \<Rightarrow> (int \<times> ikc_queue option) option" where
  "ihk_ikc_write_queue qp packet =
     (case (qp, packet) of
        (Some q, Some p) \<Rightarrow>
          (case write_queue_loop 0 q p of None \<Rightarrow> None
           | Some (ret, q') \<Rightarrow> Some (ret, Some q'))
      | _ \<Rightarrow> Some (err EINVAL, qp))"

lemmas [queue_defs] = ihk_ikc_init_queue_def ihk_ikc_queue_is_empty_def
  ihk_ikc_queue_is_full_def ihk_ikc_read_queue_def ihk_ikc_read_queue_handler_def
  ihk_ikc_write_queue_def full_test_def

section \<open>What the copies do\<close>

lemma memcpyl_loop_apply:
  "memcpyl_loop n dst d src s i =
     (if d \<le> i \<and> i < d + 8 * n then src (s + (i - d)) else dst i)"
proof (induction n arbitrary: dst d s)
  case 0
  then show ?case by auto
next
  case (Suc n)
  show ?case
    by (cases "d \<le> i"; cases "i < d + 8")
      (auto simp: Suc.IH copy_long_def intro!: arg_cong [where f = src])
qed

lemma memcpyl_apply:
  "memcpyl dst d src s n i =
     (if d \<le> i \<and> i < d + 8 * (n div 8) then src (s + (i - d)) else dst i)"
  by (simp add: memcpyl_def memcpyl_loop_apply)

section \<open>Slots\<close>

text \<open>Slot \<open>k\<close> of the packet sequence, for an unbounded packet number \<open>k\<close>.\<close>

definition slot_base :: "ikc_queue \<Rightarrow> nat \<Rightarrow> nat" where
  "slot_base q k = (k mod unat (pktcount q)) * unat (pktsize q)"

text \<open>The bytes of a packet that the copies carry: whole longs only.\<close>

definition pkt_len :: "ikc_queue \<Rightarrow> nat" where
  "pkt_len q = 8 * (unat (pktsize q) div 8)"

definition slot_bytes :: "ikc_queue \<Rightarrow> nat \<Rightarrow> byte list" where
  "slot_bytes q k = map (\<lambda>i. qdata q (slot_base q k + i)) [0..<pkt_len q]"

definition pkt_bytes :: "ikc_queue \<Rightarrow> bytes \<Rightarrow> byte list" where
  "pkt_bytes q p = map p [0..<pkt_len q]"

lemma pkt_len_le: "pkt_len q \<le> unat (pktsize q)"
  by (simp add: pkt_len_def)

lemma slot_off_eq:
  assumes "pktcount q \<noteq> 0"
  shows "slot_off q r = slot_base q (unat r)"
proof -
  have "unat (pktcount q) > 0"
    using assms by (simp add: unat_gt_0)
  then have "unat r mod unat (pktcount q) < 2 ^ 32"
    by (rule order.strict_trans [OF mod_less_divisor]) (use unat_bound [of "pktcount q"] in simp)
  moreover have "unat (pktsize q) < 2 ^ 16"
    using unat_bound [of "pktsize q"] by simp
  ultimately have "(unat r mod unat (pktcount q)) * unat (pktsize q) < 2 ^ 32 * 2 ^ 16"
    by (intro mult_strict_mono) auto
  then show ?thesis
    by (simp add: slot_off_def slot_base_def unat_word_ariths(2) unat_mod)
qed

text \<open>Two packet numbers less than a full turn apart use different slots.\<close>

lemma mod_window_inj:
  fixes c :: nat
  assumes "j < k" and "k < j + c"
  shows "j mod c \<noteq> k mod c"
proof
  assume "j mod c = k mod c"
  then have "c dvd k - j"
    using assms by (metis less_or_eq_imp_le mod_eq_dvd_iff_nat)
  moreover have "0 < k - j" and "k - j < c"
    using assms by auto
  ultimately show False
    using nat_dvd_not_less by blast
qed

lemma slot_ranges_disjoint:
  fixes s :: nat
  assumes "a \<noteq> b" and "m \<le> s" and "x < m" and "y < m"
  shows "a * s + x \<noteq> b * s + y"
proof -
  have less: "a * s + x < b * s + y" if "a < b" and "x < m" for a b x y
  proof -
    have "a * s + x < a * s + s"
      using that assms(2) by linarith
    also have "\<dots> = Suc a * s" by simp
    also have "\<dots> \<le> b * s"
      using that by (intro mult_le_mono1) simp
    finally show ?thesis by simp
  qed
  show ?thesis
    using less [of a b x y] less [of b a y x] assms by (metis less_irrefl nat_neq_iff)
qed

lemma length_slot_bytes [simp]: "length (slot_bytes q k) = pkt_len q"
  by (simp add: slot_bytes_def)

section \<open>The bounded-FIFO contract\<close>

text \<open>
  What a client of a packet queue relies on: a successful put appends, a get
  takes the head, a full queue refuses with a negative code, an empty one with
  a nonzero code, and refused operations change nothing. \<open>slack\<close> counts the puts
  that must succeed from now on.
\<close>

locale bounded_fifo =
  fixes inv :: "'q \<Rightarrow> bool"
    and items :: "'q \<Rightarrow> 'c list"
    and content :: "'q \<Rightarrow> 'p \<Rightarrow> 'c"
    and slack :: "'q \<Rightarrow> nat"
    and full :: "'q \<Rightarrow> bool"
    and wr :: "'q option \<Rightarrow> 'p option \<Rightarrow> (int \<times> 'q option) option"
    and rd :: "'q option \<Rightarrow> 'p option \<Rightarrow> (int \<times> 'q option \<times> 'p option) option"
  assumes wr_room: "inv q \<Longrightarrow> 0 < slack q \<Longrightarrow>
      \<exists>q'. wr (Some q) (Some p) = Some (0, Some q') \<and> inv q' \<and>
        items q' = items q @ [content q p] \<and> content q' = content q \<and> slack q' = slack q - 1"
    and wr_full: "inv q \<Longrightarrow> full q \<Longrightarrow>
      \<exists>e<0. wr (Some q) (Some p) = Some (e, Some q)"
    and rd_empty: "inv q \<Longrightarrow> items q = [] \<Longrightarrow>
      \<exists>e. e \<noteq> 0 \<and> rd (Some q) (Some p) = Some (e, Some q, Some p)"
    and rd_item: "inv q \<Longrightarrow> items q = x # xs \<Longrightarrow>
      \<exists>q' p'. rd (Some q) (Some p) = Some (0, Some q', Some p') \<and> inv q' \<and>
        items q' = xs \<and> content q p' = x \<and> content q' = content q"
begin

text \<open>Taking up to \<open>n\<close> packets into fresh copies of a buffer, until the queue refuses.\<close>

fun drain :: "nat \<Rightarrow> 'p \<Rightarrow> 'q \<Rightarrow> 'c list \<times> 'q" where
  "drain 0 buf q = ([], q)"
| "drain (Suc n) buf q =
     (case rd (Some q) (Some buf) of
        Some (ret, Some q', Some p') \<Rightarrow>
          (if ret \<noteq> 0 then ([], q')
           else case drain n buf q' of (xs, q'') \<Rightarrow> (content q' p' # xs, q''))
      | _ \<Rightarrow> ([], q))"

lemma drain_items:
  "inv q \<Longrightarrow> length (items q) \<le> n \<Longrightarrow>
     fst (drain n buf q) = items q \<and> inv (snd (drain n buf q)) \<and> items (snd (drain n buf q)) = []"
proof (induction n arbitrary: q)
  case 0
  then show ?case by simp
next
  case (Suc n)
  show ?case
  proof (cases "items q")
    case Nil
    with rd_empty [of q buf] Suc.prems(1) show ?thesis by auto
  next
    case (Cons x xs)
    with rd_item [of q x xs buf] Suc.prems(1) obtain q' p' where
      g: "rd (Some q) (Some buf) = Some (0, Some q', Some p')" "inv q'" "items q' = xs"
        "content q p' = x" "content q' = content q" by blast
    with Suc.IH [of q'] Suc.prems Cons show ?thesis
      by (auto split: prod.splits)
  qed
qed

text \<open>Writing a list of packets one after the other.\<close>

fun fill :: "'q \<Rightarrow> 'p list \<Rightarrow> 'q option" where
  "fill q [] = Some q"
| "fill q (p # ps) =
     (case wr (Some q) (Some p) of
        Some (ret, Some q') \<Rightarrow> (if ret = 0 then fill q' ps else None)
      | _ \<Rightarrow> None)"

lemma fill_items:
  "inv q \<Longrightarrow> length ps \<le> slack q \<Longrightarrow>
     \<exists>q'. fill q ps = Some q' \<and> inv q' \<and> items q' = items q @ map (content q) ps \<and>
       content q' = content q"
proof (induction ps arbitrary: q)
  case Nil
  then show ?case by simp
next
  case (Cons p ps)
  with wr_room [of q p] obtain q1 where
    w: "wr (Some q) (Some p) = Some (0, Some q1)" "inv q1"
      "items q1 = items q @ [content q p]" "content q1 = content q" "slack q1 = slack q - 1"
    by auto
  with Cons.prems have "length ps \<le> slack q1" by simp
  from Cons.IH [OF w(2) this] w show ?case by auto
qed

end

section \<open>Well-formed queues\<close>

text \<open>
  Between operations: the three offsets agree with \<open>read_off <= max_read_off =
  write_off\<close> and at most \<open>pktcount - 1\<close> packets are pending.
\<close>

definition wf_queue :: "ikc_queue \<Rightarrow> bool" where
  "wf_queue q \<longleftrightarrow>
     pktcount q \<noteq> 0 \<and>
     max_read_off q = write_off q \<and>
     unat (read_off q) \<le> unat (write_off q) \<and>
     unat (write_off q) - unat (read_off q) \<le> unat (pktcount q) - 1"

definition queue_items :: "ikc_queue \<Rightarrow> byte list list" where
  "queue_items q = map (slot_bytes q) [unat (read_off q)..<unat (max_read_off q)]"

definition queue_full :: "ikc_queue \<Rightarrow> bool" where
  "queue_full q \<longleftrightarrow> unat (write_off q) - unat (read_off q) = unat (pktcount q) - 1"

text \<open>A put succeeds while a slot is free and the 64-bit write offset does not wrap.\<close>

definition queue_slack :: "ikc_queue \<Rightarrow> nat" where
  "queue_slack q = min (unat (pktcount q) - 1 - (unat (write_off q) - unat (read_off q)))
     (2 ^ 64 - 1 - unat (write_off q))"

lemma length_queue_items:
  "wf_queue q \<Longrightarrow> length (queue_items q) = unat (write_off q) - unat (read_off q)"
  by (simp add: queue_items_def wf_queue_def)

lemma unat_pktcount_pred: "pktcount q \<noteq> 0 \<Longrightarrow> unat (pktcount q - 1) = unat (pktcount q) - 1"
  by (simp add: unat_minus_one)

lemma full_test_wf:
  assumes "wf_queue q"
  shows "full_test q (read_off q) (write_off q) \<longleftrightarrow> queue_full q"
proof -
  from assms have "unat (write_off q - read_off q) = unat (write_off q) - unat (read_off q)"
    by (intro unat_diff_of_le) (simp add: wf_queue_def)
  moreover from assms have "unat (ucast (pktcount q - 1) :: u64) = unat (pktcount q) - 1"
    by (simp add: unat_pktcount_pred wf_queue_def)
  ultimately show ?thesis
    by (simp add: full_test_def queue_full_def word_unat_eq_iff)
qed

lemma write_loop_full:
  assumes "full_test q (read_off q) (write_off q)"
  shows "write_queue_loop attempt q p = Some (err EBUSY, q)"
proof (induction "IHK_IKC_WRITE_QUEUE_RETRY - attempt" arbitrary: attempt)
  case 0
  with assms show ?case
    by (subst write_queue_loop.simps) simp
next
  case (Suc n)
  from Suc.hyps(2) have "n = IHK_IKC_WRITE_QUEUE_RETRY - (attempt + 1)" by simp
  from Suc.hyps(1) [OF this] assms Suc.hyps(2) show ?case
    by (subst write_queue_loop.simps) simp
qed

text \<open>The queue after a completed write.\<close>

definition written :: "ikc_queue \<Rightarrow> bytes \<Rightarrow> ikc_queue" where
  "written q p = q\<lparr>write_off := write_off q + 1,
     qdata := memcpyl (qdata q) (slot_off q (write_off q)) p 0 (unat (pktsize q)),
     max_read_off := write_off q + 1\<rparr>"

lemma write_loop_not_full:
  assumes "\<not> full_test q (read_off q) (write_off q)" and "pktcount q \<noteq> 0"
    and "max_read_off q = write_off q"
  shows "write_queue_loop attempt q p = Some (0, written q p)"
  using assms
  by (subst write_queue_loop.simps) (simp add: written_def slot_off_def Let_def)

lemma written_simps [simp]:
  "pktcount (written q p) = pktcount q" "pktsize (written q p) = pktsize q"
  "read_off (written q p) = read_off q" "write_off (written q p) = write_off q + 1"
  "max_read_off (written q p) = write_off q + 1"
  "pkt_len (written q p) = pkt_len q" "pkt_bytes (written q p) = pkt_bytes q"
  by (simp_all add: written_def pkt_len_def pkt_bytes_def fun_eq_iff)

text \<open>A write leaves the other slots alone and puts the packet into its own.\<close>

lemma slot_bytes_written_other:
  assumes "pktcount q \<noteq> 0" and "k mod unat (pktcount q) \<noteq> unat (write_off q) mod unat (pktcount q)"
  shows "slot_bytes (written q p) k = slot_bytes q k"
proof (rule nth_equalityI)
  fix i assume "i < length (slot_bytes (written q p) k)"
  then have i: "i < pkt_len q" by simp
  have "slot_base q k + i \<noteq> slot_off q (write_off q) + j" if "j < pkt_len q" for j
    using slot_ranges_disjoint [OF assms(2) pkt_len_le i that] assms(1)
    by (simp add: slot_off_eq slot_base_def)
  then have "\<not> (slot_off q (write_off q) \<le> slot_base q k + i \<and>
      slot_base q k + i < slot_off q (write_off q) + pkt_len q)"
    by (metis add_less_cancel_left le_Suc_ex)
  then show "slot_bytes (written q p) k ! i = slot_bytes q k ! i"
    using i by (auto simp: slot_bytes_def written_def slot_base_def pkt_len_def memcpyl_apply)
qed simp

lemma slot_bytes_written_own:
  assumes "pktcount q \<noteq> 0"
  shows "slot_bytes (written q p) (unat (write_off q)) = pkt_bytes q p"
  using assms
  by (simp add: slot_bytes_def pkt_bytes_def written_def slot_off_eq slot_base_def pkt_len_def
      memcpyl_apply)

lemma queue_slack_pos:
  "wf_queue q \<Longrightarrow> 0 < queue_slack q \<Longrightarrow> \<not> queue_full q \<and> write_off q \<noteq> - 1"
  by (auto simp: queue_slack_def queue_full_def wf_queue_def unat_max_word)

lemma written_wf:
  assumes wf: "wf_queue q" and sl: "0 < queue_slack q"
  shows "wf_queue (written q p)"
    and "queue_items (written q p) = queue_items q @ [pkt_bytes q p]"
    and "queue_slack (written q p) = queue_slack q - 1"
proof -
  note nf = queue_slack_pos [OF wf sl]
  have w: "unat (write_off q + 1) = Suc (unat (write_off q))"
    using nf by (simp add: unat_plus_1_no_wrap)
  show "wf_queue (written q p)"
    using wf sl w by (auto simp: wf_queue_def queue_slack_def)
  have "slot_bytes (written q p) k = slot_bytes q k"
    if "k \<in> set [unat (read_off q)..<unat (write_off q)]" for k
  proof (rule slot_bytes_written_other)
    have "k < unat (write_off q)" and "unat (write_off q) < k + unat (pktcount q)"
      using that wf sl by (auto simp: wf_queue_def queue_slack_def)
    then show "k mod unat (pktcount q) \<noteq> unat (write_off q) mod unat (pktcount q)"
      by (rule mod_window_inj)
  qed (use wf in \<open>simp add: wf_queue_def\<close>)
  then show "queue_items (written q p) = queue_items q @ [pkt_bytes q p]"
    using wf w by (auto simp: queue_items_def wf_queue_def slot_bytes_written_own)
  show "queue_slack (written q p) = queue_slack q - 1"
    using wf sl w by (auto simp: queue_slack_def wf_queue_def)
qed

lemma read_item:
  assumes wf: "wf_queue q" and it: "queue_items q = x # xs"
  shows "\<exists>q' p'. ihk_ikc_read_queue (Some q) (Some p) = Some (0, Some q', Some p') \<and>
     wf_queue q' \<and> queue_items q' = xs \<and> pkt_bytes q p' = x \<and> pkt_bytes q' = pkt_bytes q"
proof -
  let ?q = "q\<lparr>read_off := read_off q + 1\<rparr>"
  let ?p = "memcpyl p 0 (qdata q) (slot_off q (read_off q)) (unat (pktsize q))"
  from it have less: "unat (read_off q) < unat (max_read_off q)"
    by (cases "unat (read_off q) < unat (max_read_off q)") (auto simp: queue_items_def)
  then have ne: "read_off q \<noteq> max_read_off q" by auto
  have r: "unat (read_off q + 1) = Suc (unat (read_off q))"
    using less unat_bound [of "max_read_off q"]
    by (intro unat_plus_1_no_wrap) (auto simp: unat_max_word)
  have sb: "slot_bytes ?q = slot_bytes q"
    by (simp add: slot_bytes_def slot_base_def pkt_len_def fun_eq_iff)
  have split: "[unat (read_off q)..<unat (max_read_off q)] =
      unat (read_off q) # [Suc (unat (read_off q))..<unat (max_read_off q)]"
    using less by (rule upt_conv_Cons)
  have "pkt_bytes q ?p = slot_bytes q (unat (read_off q))"
    using wf by (simp add: pkt_bytes_def slot_bytes_def pkt_len_def memcpyl_apply slot_off_eq
        wf_queue_def)
  moreover have "queue_items ?q = xs" and "slot_bytes q (unat (read_off q)) = x"
    using it r sb split by (simp_all add: queue_items_def)
  moreover have "wf_queue ?q"
    using wf r less by (auto simp: wf_queue_def)
  moreover have "pkt_bytes ?q = pkt_bytes q"
    by (simp add: pkt_bytes_def pkt_len_def fun_eq_iff)
  ultimately show ?thesis
    using wf ne by (simp add: ihk_ikc_read_queue_def wf_queue_def Let_def)
qed

lemma read_empty_off:
  assumes "wf_queue q" and "queue_items q = []"
  shows "read_off q = max_read_off q"
proof -
  have "unat (read_off q) = unat (max_read_off q)"
    using assms by (auto simp: queue_items_def wf_queue_def)
  then show ?thesis by (simp add: word_unat_eq_iff)
qed

lemma read_empty:
  assumes "wf_queue q" and "queue_items q = []"
  shows "ihk_ikc_read_queue (Some q) (Some p) = Some (-1, Some q, Some p)"
  using read_empty_off [OF assms] by (simp add: ihk_ikc_read_queue_def)

lemma write_room:
  assumes "wf_queue q" and "0 < queue_slack q"
  shows "ihk_ikc_write_queue (Some q) (Some p) = Some (0, Some (written q p))"
  using assms queue_slack_pos [OF assms] full_test_wf [of q] write_loop_not_full [of q 0 p]
  by (simp add: ihk_ikc_write_queue_def wf_queue_def)

lemma write_full:
  "wf_queue q \<Longrightarrow> queue_full q \<Longrightarrow> ihk_ikc_write_queue (Some q) (Some p) = Some (err EBUSY, Some q)"
  by (simp add: ihk_ikc_write_queue_def full_test_wf write_loop_full)

interpretation ikcq: bounded_fifo wf_queue queue_items pkt_bytes queue_slack queue_full
  ihk_ikc_write_queue ihk_ikc_read_queue
proof
  fix q p
  assume wf: "wf_queue q" and sl: "0 < queue_slack q"
  from written_wf [OF wf sl, of p] write_room [OF wf sl, of p]
  show "\<exists>q'. ihk_ikc_write_queue (Some q) (Some p) = Some (0, Some q') \<and> wf_queue q' \<and>
     queue_items q' = queue_items q @ [pkt_bytes q p] \<and> pkt_bytes q' = pkt_bytes q \<and>
     queue_slack q' = queue_slack q - 1"
    by auto
next
  fix q p
  assume "wf_queue q" and "queue_full q"
  then show "\<exists>e<0. ihk_ikc_write_queue (Some q) (Some p) = Some (e, Some q)"
    by (auto simp: write_full intro!: exI [of _ "err EBUSY"])
next
  fix q p
  assume "wf_queue q" and "queue_items q = []"
  then show "\<exists>e. e \<noteq> 0 \<and> ihk_ikc_read_queue (Some q) (Some p) = Some (e, Some q, Some p)"
    by (auto simp: read_empty intro!: exI [of _ "-1"])
next
  fix q x xs p
  assume "wf_queue q" and "queue_items q = x # xs"
  then show "\<exists>q' p'. ihk_ikc_read_queue (Some q) (Some p) = Some (0, Some q', Some p') \<and>
     wf_queue q' \<and> queue_items q' = xs \<and> pkt_bytes q p' = x \<and> pkt_bytes q' = pkt_bytes q"
    by (rule read_item)
qed

section \<open>Properties\<close>

lemma init_queue_ok:
  fixes sz packetsize :: u32
  assumes "0 < unat packetsize" and "unat packetsize < 2 ^ 16"
    and "64 + unat packetsize \<le> unat sz" and "unat sz < 2 ^ 31"
  shows "\<exists>q'. ihk_ikc_init_queue (Some q) ident type sz packetsize = Some (0, Some q') \<and>
    unat (pktsize q') = unat packetsize \<and>
    unat (pktcount q') = (unat sz - 64) div unat packetsize \<and>
    unat (queue_size q') = unat (pktcount q') * unat packetsize \<and>
    read_off q' = 0 \<and> max_read_off q' = 0 \<and> write_off q' = 0"
proof -
  let ?n = "(scast sz - sizeof_queue_head) div scast packetsize :: u64"
  have h: "unat sizeof_queue_head = 64"
    by (simp add: sizeof_queue_head_def)
  have ps: "unat (scast packetsize :: u64) = unat packetsize"
    and sz: "unat (scast sz :: u64) = unat sz"
    using assms by (simp_all add: unat_scast_nonneg)
  have n: "unat ?n = (unat sz - 64) div unat packetsize"
    using assms by (simp add: unat_div unat_diff_of_le ps sz h)
  have "(unat sz - 64) div unat packetsize \<le> unat sz"
    by (rule order_trans [OF div_le_dividend]) simp
  with n assms have cnt: "unat (ucast ?n :: u32) = (unat sz - 64) div unat packetsize"
    by (subst unat_ucast_down) auto
  have psz: "unat (ucast packetsize :: u16) = unat packetsize"
    using assms by (subst unat_ucast_down) auto
  have le: "(unat sz - 64) div unat packetsize * unat packetsize \<le> unat sz"
    by (rule order_trans [OF div_times_less_eq_dividend]) simp
  have "unat (ucast (ucast packetsize :: u16) * ucast ?n :: u32) =
      (unat sz - 64) div unat packetsize * unat packetsize"
    using le assms by (simp add: unat_word_ariths(2) psz cnt mult.commute)
  with assms psz cnt show ?thesis
    by (auto simp: ihk_ikc_init_queue_def Let_def)
qed

text \<open>
  Property C16. Initialising a queue in \<open>sz\<close> bytes gives a well-formed empty queue
  with the requested packet size, as many slots as fit behind the 64-byte header
  (one of which stays unused), and every slot lies inside the \<open>sz\<close> bytes.
\<close>

theorem init_queue_layout:
  fixes sz packetsize :: u32
  assumes "0 < unat packetsize" and "unat packetsize < 2 ^ 16"
    and "64 + unat packetsize \<le> unat sz" and "unat sz < 2 ^ 31"
  shows "\<exists>q'. ihk_ikc_init_queue (Some q) ident type sz packetsize = Some (0, Some q') \<and>
    wf_queue q' \<and> queue_items q' = [] \<and> unat (pktsize q') = unat packetsize \<and>
    queue_slack q' = (unat sz - 64) div unat packetsize - 1 \<and>
    (\<forall>k. 64 + slot_base q' k + unat packetsize \<le> unat sz)"
proof -
  from init_queue_ok [OF assms] obtain q' where
    r: "ihk_ikc_init_queue (Some q) ident type sz packetsize = Some (0, Some q')"
    and q': "unat (pktsize q') = unat packetsize"
      "unat (pktcount q') = (unat sz - 64) div unat packetsize"
      "read_off q' = 0" "max_read_off q' = 0" "write_off q' = 0" by blast
  have pos: "0 < unat (pktcount q')"
    using assms unfolding q' by (simp add: div_greater_zero_iff)
  then have "wf_queue q'" and "queue_items q' = []"
    using q' by (auto simp: wf_queue_def queue_items_def)
  moreover have "queue_slack q' = unat (pktcount q') - 1"
    using unat_bound [of "pktcount q'"] by (simp add: queue_slack_def q'(3-5))
  moreover have "64 + slot_base q' k + unat packetsize \<le> unat sz" for k
  proof -
    have "Suc (k mod unat (pktcount q')) * unat packetsize \<le> unat (pktcount q') * unat packetsize"
      by (rule mult_le_mono1) (simp add: Suc_le_eq pos)
    also have "\<dots> \<le> unat sz - 64"
      unfolding q' by (rule div_times_less_eq_dividend)
    finally show ?thesis
      using assms by (simp add: slot_base_def q')
  qed
  ultimately show ?thesis
    using r q' by auto
qed

theorem init_queue_layout_witness:
  "\<exists>q'. ihk_ikc_init_queue (Some (zero_head undefined)) 1 0 4096 56 = Some (0, Some q') \<and>
    wf_queue q' \<and> queue_slack q' = 71 \<and> 64 + slot_base q' 71 + 56 \<le> 4096"
  using init_queue_layout [of "56 :: u32" "4096 :: u32" "zero_head undefined" 1 0] by fastforce

text \<open>
  Property C14. A write to a well-formed queue that no other processor touches either
  finds it full, gives up with \<open>-EBUSY\<close> after its retries and leaves it as it was,
  or (unless the 64-bit offset would wrap) returns 0 and appends the packet behind
  the pending ones, keeping the queue well formed. It always returns.
\<close>

theorem write_queue_spec:
  assumes "wf_queue q"
  shows "if queue_full q then ihk_ikc_write_queue (Some q) (Some p) = Some (err EBUSY, Some q)
    else write_off q \<noteq> - 1 \<longrightarrow>
      (\<exists>q'. ihk_ikc_write_queue (Some q) (Some p) = Some (0, Some q') \<and> wf_queue q' \<and>
         queue_items q' = queue_items q @ [pkt_bytes q p])"
proof (cases "queue_full q")
  case True
  with assms show ?thesis
    by (simp add: write_full)
next
  case False
  have "0 < queue_slack q" if "write_off q \<noteq> - 1"
    using assms False that unat_bound [of "write_off q"] 
    by (auto simp: queue_slack_def queue_full_def wf_queue_def unat_max_word word_unat_eq_iff)
  with False ikcq.wr_room [OF assms] show ?thesis by auto
qed

theorem write_queue_spec_witness:
  "\<exists>q q'. wf_queue q \<and> \<not> queue_full q \<and> write_off q \<noteq> - 1 \<and>
    ihk_ikc_write_queue (Some q) (Some (\<lambda>_. 7)) = Some (0, Some q') \<and>
    queue_items q' = [pkt_bytes q (\<lambda>_. 7)]"
proof -
  let ?q = "(zero_head undefined)\<lparr>pktsize := 8, pktcount := 4\<rparr>"
  have "wf_queue ?q" and "\<not> queue_full ?q" and "queue_items ?q = []" and "write_off ?q \<noteq> - 1"
    by (simp_all add: wf_queue_def queue_full_def queue_items_def zero_head_def)
  with write_queue_spec [of ?q "\<lambda>_. 7"] show ?thesis
    by (metis append_Nil)
qed



end
