(* ===== verification/Ikc_Queue_Conc.thy ===== *)
theory Ikc_Queue_Conc
  imports Ikc_Queue
begin

text \<open>
  The lock-free queue of \<^verbatim>\<open>ikc/queue.c\<close> under interleaving. Every load, \<open>cmpxchg\<close>
  and 8-byte copy of \<open>ihk_ikc_read_queue\<close> and \<open>ihk_ikc_write_queue\<close> is one atomic
  step (\<open>thread_step\<close>); a run is a list of events, each the start of a call or one
  step of one thread, so any interleaving of any number of threads is a run. Memory
  is sequentially consistent.

  With one writing and one reading thread the reader gets exactly the packets
  sent, in order (\<open>spsc_fifo\<close>). The publication order holds for any threads
  (\<open>publication_order\<close>). Two schedules show what the equality test of the full
  condition and the early advance of \<open>read_off\<close> do not protect against.
\<close>

section \<open>Threads\<close>

datatype pc =
    Idle
  | WLoadR bytes nat
  | WLoadW bytes nat u64
  | WTest bytes nat u64 u64
  | WCas bytes nat u64
  | WCopy bytes u64 nat
  | WPub u64
  | WRet int
  | RLoadR bytes
  | RLoadM bytes u64
  | RTest bytes u64 u64
  | RCas bytes u64
  | RCopy bytes u64 nat
  | RRet int bytes

fun thread_step :: "pc \<Rightarrow> ikc_queue \<Rightarrow> pc \<times> ikc_queue" where
  "thread_step (WLoadR p a) q = (WLoadW p a (read_off q), q)"
| "thread_step (WLoadW p a r) q = (WTest p a r (write_off q), q)"
| "thread_step (WTest p a r w) q =
     ((if full_test q r w then
         (if a + 1 > IHK_IKC_WRITE_QUEUE_RETRY then WRet (err EBUSY) else WLoadR p (a + 1))
       else WCas p a w), q)"
| "thread_step (WCas p a w) q =
     (if write_off q = w then (WCopy p w 0, q\<lparr>write_off := w + 1\<rparr>) else (WLoadR p a, q))"
| "thread_step (WCopy p w k) q =
     (if k < unat (pktsize q) div 8
      then (WCopy p w (Suc k),
            q\<lparr>qdata := copy_long (qdata q) (slot_off q w + 8 * k) p (8 * k)\<rparr>)
      else (WPub w, q))"
| "thread_step (WPub w) q =
     (if max_read_off q = w then (WRet 0, q\<lparr>max_read_off := w + 1\<rparr>) else (WPub w, q))"
| "thread_step (RLoadR p) q = (RLoadM p (read_off q), q)"
| "thread_step (RLoadM p r) q = (RTest p r (max_read_off q), q)"
| "thread_step (RTest p r m) q = ((if r = m then RRet (-1) p else RCas p r), q)"
| "thread_step (RCas p r) q =
     (if read_off q = r then (RCopy p r 0, q\<lparr>read_off := r + 1\<rparr>) else (RLoadR p, q))"
| "thread_step (RCopy p r k) q =
     (if k < unat (pktsize q) div 8
      then (RCopy (copy_long p (8 * k) (qdata q) (slot_off q r + 8 * k)) r (Suc k), q)
      else (RRet 0 p, q))"
| "thread_step c q = (c, q)"

section \<open>Runs\<close>

text \<open>
  \<open>sent\<close> records the packets in the order in which their writers claimed a packet
  number, \<open>recvd\<close> the buffers in the order in which successful reads returned. Both
  are history variables: no step reads them.
\<close>

record sys =
  shared :: ikc_queue
  pcs :: "nat \<Rightarrow> pc"
  sent :: "bytes list"
  recvd :: "bytes list"

datatype event = CallW nat bytes | CallR nat bytes | Step nat

fun quiescent :: "pc \<Rightarrow> bool" where
  "quiescent Idle = True"
| "quiescent (WRet _) = True"
| "quiescent (RRet _ _) = True"
| "quiescent _ = False"

fun claims :: "pc \<Rightarrow> pc \<Rightarrow> bytes list" where
  "claims (WCas p a w) (WCopy p' w' k) = [p]"
| "claims _ _ = []"

fun returns :: "pc \<Rightarrow> pc \<Rightarrow> bytes list" where
  "returns (RCopy p r k) (RRet ret p') = [p']"
| "returns _ _ = []"

fun sys_step :: "sys \<Rightarrow> event \<Rightarrow> sys" where
  "sys_step s (CallW t p) =
     (if quiescent (pcs s t) then s\<lparr>pcs := (pcs s)(t := WLoadR p 0)\<rparr> else s)"
| "sys_step s (CallR t p) =
     (if quiescent (pcs s t) then s\<lparr>pcs := (pcs s)(t := RLoadR p)\<rparr> else s)"
| "sys_step s (Step t) =
     (case thread_step (pcs s t) (shared s) of (c, q) \<Rightarrow>
        s\<lparr>shared := q, pcs := (pcs s)(t := c),
          sent := sent s @ claims (pcs s t) c, recvd := recvd s @ returns (pcs s t) c\<rparr>)"

fun run :: "sys \<Rightarrow> event list \<Rightarrow> sys" where
  "run s [] = s"
| "run s (e # es) = run (sys_step s e) es"

definition start :: "ikc_queue \<Rightarrow> sys" where
  "start q = \<lparr>shared = q, pcs = (\<lambda>_. Idle), sent = [], recvd = []\<rparr>"

text \<open>A queue as \<open>ihk_ikc_init_queue\<close> leaves it: all offsets zero.\<close>

definition fresh_queue :: "ikc_queue \<Rightarrow> bool" where
  "fresh_queue q \<longleftrightarrow>
     pktcount q \<noteq> 0 \<and> read_off q = 0 \<and> max_read_off q = 0 \<and> write_off q = 0"

lemma run_append: "run s (xs @ ys) = run (run s xs) ys"
  by (induction xs arbitrary: s) auto

lemma sent_step_mono: "length (sent s) \<le> length (sent (sys_step s e))"
  by (cases e) (auto split: prod.splits)

lemma sent_run_mono: "length (sent s) \<le> length (sent (run s es))"
  by (induction es arbitrary: s) (auto intro: order_trans [OF sent_step_mono])

text \<open>Invariants over runs in which fewer than \<open>2^64\<close> packets are claimed.\<close>

lemma run_invariant:
  assumes step: "\<And>s e. P s \<Longrightarrow> ok e \<Longrightarrow> length (sent (sys_step s e)) < 2 ^ 64 \<Longrightarrow> P (sys_step s e)"
    and "P s" and "\<forall>e \<in> set es. ok e" and "length (sent (run s es)) < 2 ^ 64"
  shows "P (run s es)"
  using assms(2-)
proof (induction es arbitrary: s)
  case Nil
  then show ?case by simp
next
  case (Cons e es)
  have "length (sent (sys_step s e)) < 2 ^ 64"
    using Cons.prems(3) sent_run_mono [of "sys_step s e" es] by simp
  with Cons step show ?case by simp
qed

section \<open>Publication order, for any threads\<close>

fun claim :: "pc \<Rightarrow> u64 option" where
  "claim (WCopy p w k) = Some w"
| "claim (WPub w) = Some w"
| "claim _ = None"

text \<open>
  Packet numbers still being written are distinct and lie between \<open>max_read_off\<close>
  and \<open>write_off\<close>.
\<close>

definition pub_inv :: "sys \<Rightarrow> bool" where
  "pub_inv s \<longleftrightarrow>
     unat (write_off (shared s)) = length (sent s) \<and>
     unat (max_read_off (shared s)) \<le> length (sent s) \<and>
     (\<forall>t w. claim (pcs s t) = Some w \<longrightarrow>
        unat (max_read_off (shared s)) \<le> unat w \<and> unat w < length (sent s)) \<and>
     (\<forall>t u w. claim (pcs s t) = Some w \<and> claim (pcs s u) = Some w \<longrightarrow> t = u)"

lemma pub_inv_frame:
  assumes "pub_inv s" and "claim c = claim (pcs s t)"
    and "write_off q = write_off (shared s)" and "max_read_off q = max_read_off (shared s)"
  shows "pub_inv (s\<lparr>shared := q, pcs := (pcs s)(t := c), recvd := rv\<rparr>)"
  using assms unfolding pub_inv_def by (auto split: if_splits)

lemma step_frame:
  assumes "thread_step c q = (c', q')"
    and "claim c' = claim c" and "claims c c' = []"
  shows "write_off q' = write_off q \<and> max_read_off q' = max_read_off q"
  using assms by (cases c) (auto split: if_splits)

lemma claims_claim: "claims c c' \<noteq> [] \<Longrightarrow> claim c = None \<and> claim c' \<noteq> None"
  by (cases c; cases c') auto

lemma step_kinds:
  assumes "thread_step c q = (c', q')"
  obtains (frame) "claim c' = claim c" "claims c c' = []"
    | (take_slot) p a where "c = WCas p a (write_off q)" "c' = WCopy p (write_off q) 0"
        "q' = q\<lparr>write_off := write_off q + 1\<rparr>"
    | (publish) "c = WPub (max_read_off q)" "c' = WRet 0"
        "q' = q\<lparr>max_read_off := max_read_off q + 1\<rparr>"
  using assms by (cases c) (auto split: if_splits)

lemma pub_inv_claim:
  assumes inv: "pub_inv s" and pc: "pcs s t = WCas p a (write_off (shared s))"
    and bound: "Suc (length (sent s)) < 2 ^ 64"
  shows "pub_inv (s\<lparr>shared := (shared s)\<lparr>write_off := write_off (shared s) + 1\<rparr>,
     pcs := (pcs s)(t := WCopy p (write_off (shared s)) 0), sent := sent s @ [p]\<rparr>)"
proof -
  have "unat (write_off (shared s) + 1) = Suc (length (sent s))"
    using inv bound unat_succ_u64 [of "write_off (shared s)"]
    by (simp add: pub_inv_def)
  moreover have "w \<noteq> write_off (shared s)" if "claim (pcs s u) = Some w" for u w
    using inv that unfolding pub_inv_def by (metis less_irrefl)
  ultimately show ?thesis
    using inv unfolding pub_inv_def
    by (auto simp: less_Suc_eq)
qed

lemma pub_inv_publish:
  assumes inv: "pub_inv s" and pc: "pcs s t = WPub (max_read_off (shared s))"
  shows "pub_inv (s\<lparr>shared := (shared s)\<lparr>max_read_off := max_read_off (shared s) + 1\<rparr>,
     pcs := (pcs s)(t := WRet 0)\<rparr>)"
proof -
  let ?m = "max_read_off (shared s)"
  have "claim (pcs s t) = Some ?m"
    using pc by simp
  then have m: "unat ?m < length (sent s)"
    using inv unfolding pub_inv_def by blast
  moreover have "length (sent s) < 2 ^ 64"
    using inv unat_bound [of "write_off (shared s)"] by (simp add: pub_inv_def)
  ultimately have succ: "unat (?m + 1) = Suc (unat ?m)"
    using unat_succ_u64 [of ?m] by simp
  have "Suc (unat ?m) \<le> unat w" if "claim (pcs s u) = Some w" "u \<noteq> t" for u w
  proof -
    have "w \<noteq> ?m"
      using inv that pc unfolding pub_inv_def by (metis claim.simps(2))
    moreover have "unat ?m \<le> unat w"
      using inv that unfolding pub_inv_def by blast
    ultimately show ?thesis
      by (simp add: word_unat_eq_iff Suc_le_eq)
  qed
  then show ?thesis
    using inv m succ unfolding pub_inv_def by (auto simp: Suc_le_eq)
qed

lemma pub_inv_step:
  assumes inv: "pub_inv s" and bound: "length (sent (sys_step s e)) < 2 ^ 64"
  shows "pub_inv (sys_step s e)"
proof (cases e)
  case (CallW t p)
  then show ?thesis
    using inv by (cases "pcs s t") (auto simp: pub_inv_def)
next
  case (CallR t p)
  then show ?thesis
    using inv by (cases "pcs s t") (auto simp: pub_inv_def)
next
  case (Step t)
  obtain c' q' where st: "thread_step (pcs s t) (shared s) = (c', q')"
    by fastforce
  from st show ?thesis
  proof (cases rule: step_kinds)
    case frame
    with step_frame [OF st] pub_inv_frame [OF inv, of c' t q'] st Step show ?thesis by simp
  next
    case (take_slot p a)
    with pub_inv_claim [OF inv, of t p a] st Step bound show ?thesis by simp
  next
    case publish
    with pub_inv_publish [OF inv, of t] st Step show ?thesis by simp
  qed
qed

lemma pub_inv_start: "fresh_queue q \<Longrightarrow> pub_inv (start q)"
  by (simp add: pub_inv_def start_def fresh_queue_def)

section \<open>One writer, one reader\<close>

lemma slot_frame [simp]:
  "slot_base (q\<lparr>read_off := x\<rparr>) = slot_base q"
  "slot_base (q\<lparr>max_read_off := x\<rparr>) = slot_base q"
  "slot_base (q\<lparr>write_off := x\<rparr>) = slot_base q"
  "slot_base (q\<lparr>qdata := d\<rparr>) = slot_base q"
  "slot_bytes (q\<lparr>read_off := x\<rparr>) = slot_bytes q"
  "slot_bytes (q\<lparr>max_read_off := x\<rparr>) = slot_bytes q"
  "slot_bytes (q\<lparr>write_off := x\<rparr>) = slot_bytes q"
  "pkt_bytes (q\<lparr>read_off := x\<rparr>) = pkt_bytes q"
  "pkt_bytes (q\<lparr>max_read_off := x\<rparr>) = pkt_bytes q"
  "pkt_bytes (q\<lparr>write_off := x\<rparr>) = pkt_bytes q"
  "pkt_bytes (q\<lparr>qdata := d\<rparr>) = pkt_bytes q"
  by (rule ext, simp add: slot_base_def slot_bytes_def pkt_bytes_def pkt_len_def)+

lemma copy_long_other:
  assumes "i mod unat (pktcount q) \<noteq> w mod unat (pktcount q)"
    and "k < unat (pktsize q) div 8"
  shows "slot_bytes (q\<lparr>qdata := copy_long (qdata q) (slot_base q w + 8 * k) p (8 * k)\<rparr>) i =
    slot_bytes q i"
proof -
  have disj: "slot_base q i + x \<noteq> slot_base q w + y" if "x < pkt_len q" "y < pkt_len q" for x y
    unfolding slot_base_def
    by (rule slot_ranges_disjoint [OF assms(1) pkt_len_le that])
  have len: "8 * k + 8 \<le> pkt_len q"
    using assms(2) by (simp add: pkt_len_def)
  have "\<not> (slot_base q w + 8 * k \<le> slot_base q i + x \<and>
      slot_base q i + x < slot_base q w + 8 * k + 8)" if "x < pkt_len q" for x
  proof -
    have "slot_base q i + x \<noteq> slot_base q w + (slot_base q i + x - slot_base q w)"
      if "slot_base q i + x - slot_base q w < pkt_len q"
      using disj [OF \<open>x < pkt_len q\<close> that] .
    with len show ?thesis by linarith
  qed
  then show ?thesis
    by (auto simp: slot_bytes_def copy_long_def pkt_len_def)
qed

text \<open>The packets between the oldest one not yet returned and \<open>max_read_off\<close> are in their slots.\<close>

definition ring_ok :: "ikc_queue \<Rightarrow> bytes list \<Rightarrow> nat \<Rightarrow> bool" where
  "ring_ok q snt d \<longleftrightarrow>
     pktcount q \<noteq> 0 \<and> unat (write_off q) = length snt \<and>
     unat (read_off q) \<le> unat (max_read_off q) \<and> unat (max_read_off q) \<le> length snt \<and>
     length snt - unat (read_off q) \<le> unat (pktcount q) - 1 \<and>
     (\<forall>i. d \<le> i \<and> i < unat (max_read_off q) \<longrightarrow> slot_bytes q i = pkt_bytes q (snt ! i))"

fun writer_ok :: "ikc_queue \<Rightarrow> bytes list \<Rightarrow> pc \<Rightarrow> bool" where
  "writer_ok q snt (WLoadW p a r) \<longleftrightarrow>
     unat (max_read_off q) = length snt \<and> unat r \<le> unat (read_off q) \<and>
     length snt - unat r \<le> unat (pktcount q) - 1"
| "writer_ok q snt (WTest p a r w) \<longleftrightarrow>
     unat (max_read_off q) = length snt \<and> unat r \<le> unat (read_off q) \<and>
     length snt - unat r \<le> unat (pktcount q) - 1 \<and> unat w = length snt"
| "writer_ok q snt (WCas p a w) \<longleftrightarrow>
     unat (max_read_off q) = length snt \<and> unat w = length snt \<and>
     length snt - unat (read_off q) < unat (pktcount q) - 1"
| "writer_ok q snt (WCopy p w k) \<longleftrightarrow>
     length snt = Suc (unat w) \<and> unat (max_read_off q) = unat w \<and> snt ! unat w = p \<and>
     k \<le> unat (pktsize q) div 8 \<and> (\<forall>j < 8 * k. qdata q (slot_base q (unat w) + j) = p j)"
| "writer_ok q snt (WPub w) \<longleftrightarrow>
     length snt = Suc (unat w) \<and> unat (max_read_off q) = unat w \<and>
     slot_bytes q (unat w) = pkt_bytes q (snt ! unat w)"
| "writer_ok q snt (WLoadR p a) \<longleftrightarrow> unat (max_read_off q) = length snt"
| "writer_ok q snt (WRet ret) \<longleftrightarrow> unat (max_read_off q) = length snt"
| "writer_ok q snt Idle \<longleftrightarrow> unat (max_read_off q) = length snt"
| "writer_ok q snt _ \<longleftrightarrow> False"

fun reader_ok :: "ikc_queue \<Rightarrow> bytes list \<Rightarrow> nat \<Rightarrow> pc \<Rightarrow> bool" where
  "reader_ok q snt d (RLoadM p r) \<longleftrightarrow> d = unat (read_off q) \<and> r = read_off q"
| "reader_ok q snt d (RTest p r m) \<longleftrightarrow>
     d = unat (read_off q) \<and> r = read_off q \<and> unat r \<le> unat m \<and> unat m \<le> unat (max_read_off q)"
| "reader_ok q snt d (RCas p r) \<longleftrightarrow>
     d = unat (read_off q) \<and> r = read_off q \<and> unat r < unat (max_read_off q)"
| "reader_ok q snt d (RCopy p r k) \<longleftrightarrow>
     unat (read_off q) = Suc d \<and> unat r = d \<and> k \<le> unat (pktsize q) div 8 \<and>
     (\<forall>j < 8 * k. p j = (snt ! d) j)"
| "reader_ok q snt d (RLoadR p) \<longleftrightarrow> d = unat (read_off q)"
| "reader_ok q snt d (RRet ret p) \<longleftrightarrow> d = unat (read_off q)"
| "reader_ok q snt d Idle \<longleftrightarrow> d = unat (read_off q)"
| "reader_ok q snt d _ \<longleftrightarrow> False"

definition spsc_inv :: "sys \<Rightarrow> bool" where
  "spsc_inv s \<longleftrightarrow>
     ring_ok (shared s) (sent s) (length (recvd s)) \<and>
     writer_ok (shared s) (sent s) (pcs s 0) \<and>
     reader_ok (shared s) (sent s) (length (recvd s)) (pcs s 1) \<and>
     map (pkt_bytes (shared s)) (recvd s) =
       map (pkt_bytes (shared s)) (take (length (recvd s)) (sent s))"

lemma reader_ok_le: "reader_ok q snt d c \<Longrightarrow> d \<le> unat (read_off q) \<and> unat (read_off q) \<le> Suc d"
  by (cases c) auto

text \<open>The reader tolerates any step of the writer.\<close>

lemma reader_ok_writer_claim:
  assumes "reader_ok q snt d c" and "ring_ok q snt d"
  shows "reader_ok (q\<lparr>write_off := w\<rparr>) (snt @ [p]) d c"
  using assms by (cases c) (auto simp: ring_ok_def nth_append)

lemma reader_ok_data: "reader_ok q snt d c \<Longrightarrow> reader_ok (q\<lparr>qdata := dt\<rparr>) snt d c"
  by (cases c) auto

lemma reader_ok_publish:
  assumes "reader_ok q snt d c" and "unat (max_read_off q) \<le> unat m"
  shows "reader_ok (q\<lparr>max_read_off := m\<rparr>) snt d c"
  using assms by (cases c) auto

text \<open>The writer tolerates an advance of \<open>read_off\<close>.\<close>

lemma writer_ok_read:
  assumes "writer_ok q snt c" and "unat (read_off q) \<le> unat r"
  shows "writer_ok (q\<lparr>read_off := r\<rparr>) snt c"
  using assms by (cases c) auto


lemma spsc_writer_claim:
  assumes inv: "spsc_inv s" and pc: "pcs s 0 = WCas p a w"
    and bound: "length (sent (sys_step s (Step 0))) < 2 ^ 64"
  shows "spsc_inv (sys_step s (Step 0))"
proof -
  let ?q = "shared s" and ?d = "length (recvd s)"
  from inv pc have w: "write_off ?q = w" "unat w = length (sent s)" "unat (max_read_off ?q) = length (sent s)"
      "length (sent s) - unat (read_off ?q) < unat (pktcount ?q) - 1"
    by (auto simp: spsc_inv_def ring_ok_def word_unat_eq_iff)
  with bound pc have succ: "unat (w + 1) = Suc (length (sent s))"
    using unat_succ_u64 [of w] by simp
  from inv have d: "?d \<le> length (sent s)"
    by (auto simp: spsc_inv_def ring_ok_def dest!: reader_ok_le)
  have "ring_ok (?q\<lparr>write_off := w + 1\<rparr>) (sent s @ [p]) ?d"
    using inv w succ by (auto simp: spsc_inv_def ring_ok_def nth_append)
  moreover have "reader_ok (?q\<lparr>write_off := w + 1\<rparr>) (sent s @ [p]) ?d (pcs s 1)"
    using inv by (intro reader_ok_writer_claim) (simp_all add: spsc_inv_def)
  ultimately show ?thesis
    using inv pc w d by (simp add: spsc_inv_def nth_append)
qed

lemma spsc_writer_copy:
  assumes inv: "spsc_inv s" and pc: "pcs s 0 = WCopy p w k"
    and k: "k < unat (pktsize (shared s)) div 8"
  shows "spsc_inv (sys_step s (Step 0))"
proof -
  let ?q = "shared s" and ?d = "length (recvd s)"
  let ?dt = "copy_long (qdata ?q) (slot_base ?q (unat w) + 8 * k) p (8 * k)"
  from inv pc have ring: "ring_ok ?q (sent s) ?d" and rd: "reader_ok ?q (sent s) ?d (pcs s 1)"
    and w: "writer_ok ?q (sent s) (WCopy p w k)"
    by (simp_all add: spsc_inv_def)
  from ring have off: "slot_off ?q w = slot_base ?q (unat w)"
    by (simp add: slot_off_eq ring_ok_def)
  have "slot_bytes (?q\<lparr>qdata := ?dt\<rparr>) i = slot_bytes ?q i" if "?d \<le> i" "i < unat (max_read_off ?q)" for i
  proof (rule copy_long_other [OF mod_window_inj k])
    show "i < unat w" using w that by simp
    show "unat w < i + unat (pktcount ?q)"
      using w ring that reader_ok_le [OF rd] by (auto simp: ring_ok_def)
  qed
  with ring have "ring_ok (?q\<lparr>qdata := ?dt\<rparr>) (sent s) ?d"
    by (simp add: ring_ok_def)
  moreover have "writer_ok (?q\<lparr>qdata := ?dt\<rparr>) (sent s) (WCopy p w (Suc k))"
    using w k by (auto simp: copy_long_def)
  ultimately show ?thesis
    using inv pc k off reader_ok_data [OF rd] by (simp add: spsc_inv_def)
qed

lemma spsc_writer_publish:
  assumes inv: "spsc_inv s" and pc: "pcs s 0 = WPub w"
  shows "spsc_inv (sys_step s (Step 0))"
proof -
  let ?q = "shared s" and ?d = "length (recvd s)"
  from inv pc have w: "max_read_off ?q = w" "length (sent s) = Suc (unat w)"
      "slot_bytes ?q (unat w) = pkt_bytes ?q (sent s ! unat w)"
    by (auto simp: spsc_inv_def word_unat_eq_iff)
  moreover have "length (sent s) < 2 ^ 64"
    using inv unat_bound [of "write_off ?q"] by (simp add: spsc_inv_def ring_ok_def)
  ultimately have succ: "unat (w + 1) = Suc (unat w)"
    using unat_succ_u64 [of w] by simp
  have "ring_ok (?q\<lparr>max_read_off := w + 1\<rparr>) (sent s) ?d"
    using inv w succ by (auto simp: spsc_inv_def ring_ok_def less_Suc_eq)
  moreover have "reader_ok (?q\<lparr>max_read_off := w + 1\<rparr>) (sent s) ?d (pcs s 1)"
    using inv w succ by (intro reader_ok_publish) (simp_all add: spsc_inv_def)
  ultimately show ?thesis
    using inv pc w succ by (simp add: spsc_inv_def)
qed

lemma spsc_writer_test:
  assumes inv: "spsc_inv s" and pc: "pcs s 0 = WTest p a r w"
  shows "spsc_inv (sys_step s (Step 0))"
proof -
  let ?q = "shared s"
  from inv pc have w: "unat r \<le> unat w" "unat w = length (sent s)" "unat r \<le> unat (read_off ?q)"
      "length (sent s) - unat r \<le> unat (pktcount ?q) - 1" "pktcount ?q \<noteq> 0"
    by (auto simp: spsc_inv_def ring_ok_def)
  then have "full_test ?q r w \<longleftrightarrow> length (sent s) - unat r = unat (pktcount ?q) - 1"
    by (simp add: full_test_def word_unat_eq_iff unat_diff_of_le unat_pktcount_pred)
  with inv pc w show ?thesis
    by (auto simp: spsc_inv_def)
qed

lemma spsc_writer_step:
  assumes "spsc_inv s" and "length (sent (sys_step s (Step 0))) < 2 ^ 64"
  shows "spsc_inv (sys_step s (Step 0))"
proof (cases "pcs s 0")
  case (WCopy p w k)
  then show ?thesis
  proof (cases "k < unat (pktsize (shared s)) div 8")
    case False
    with WCopy assms(1) show ?thesis
      by (auto simp: spsc_inv_def slot_bytes_def pkt_bytes_def pkt_len_def)
  qed (simp only: spsc_writer_copy [OF assms(1)])
qed (use assms in \<open>auto simp: spsc_writer_claim spsc_writer_publish spsc_writer_test
      simp del: sys_step.simps\<close>,
     auto simp: spsc_inv_def ring_ok_def)


lemma spsc_reader_claim:
  assumes inv: "spsc_inv s" and pc: "pcs s 1 = RCas p r"
  shows "spsc_inv (sys_step s (Step 1))"
proof -
  let ?q = "shared s" and ?d = "length (recvd s)"
  from inv pc have r: "read_off ?q = r" "?d = unat r" "unat r < unat (max_read_off ?q)"
    by (auto simp: spsc_inv_def)
  then have succ: "unat (r + 1) = Suc (unat r)"
    using unat_succ_u64 [of r] unat_bound [of "max_read_off ?q"] by simp
  have "writer_ok (?q\<lparr>read_off := r + 1\<rparr>) (sent s) (pcs s 0)"
    using inv r succ by (intro writer_ok_read) (simp_all add: spsc_inv_def)
  with inv pc r succ show ?thesis
    by (auto simp: spsc_inv_def ring_ok_def)
qed

lemma spsc_reader_copy:
  assumes inv: "spsc_inv s" and pc: "pcs s 1 = RCopy p r k"
  shows "spsc_inv (sys_step s (Step 1))"
proof -
  let ?q = "shared s" and ?d = "length (recvd s)"
  from inv pc have r: "unat (read_off ?q) = Suc ?d" "unat r = ?d" "k \<le> unat (pktsize ?q) div 8"
      "\<forall>j < 8 * k. p j = (sent s ! ?d) j" "?d < length (sent s)"
    and slot: "slot_bytes ?q ?d = pkt_bytes ?q (sent s ! ?d)"
    and off: "slot_off ?q r = slot_base ?q ?d"
    by (auto simp: spsc_inv_def ring_ok_def slot_off_eq)
  from slot have data: "qdata ?q (slot_base ?q ?d + j) = (sent s ! ?d) j" if "j < pkt_len ?q" for j
    using that by (simp add: slot_bytes_def pkt_bytes_def)
  show ?thesis
  proof (cases "k < unat (pktsize ?q) div 8")
    case True
    then have "copy_long p (8 * k) (qdata ?q) (slot_base ?q ?d + 8 * k) j = (sent s ! ?d) j"
      if "j < 8 * Suc k" for j
      using that r(4) data [of j] by (auto simp: copy_long_def pkt_len_def)
    with True inv pc r off show ?thesis
      by (simp add: spsc_inv_def)
  next
    case False
    with r have "pkt_bytes ?q p = pkt_bytes ?q (sent s ! ?d)"
      by (auto simp: pkt_bytes_def pkt_len_def)
    with False inv pc r show ?thesis
      by (simp add: spsc_inv_def ring_ok_def take_Suc_conv_app_nth)
  qed
qed

lemma spsc_reader_step: "spsc_inv s \<Longrightarrow> spsc_inv (sys_step s (Step 1))"
  by (cases "pcs s 1")
    (auto simp: spsc_reader_claim spsc_reader_copy simp del: sys_step.simps One_nat_def,
     auto simp: spsc_inv_def ring_ok_def word_unat_eq_iff)

text \<open>Thread 0 only writes, thread 1 only reads.\<close>

fun spsc_event :: "event \<Rightarrow> bool" where
  "spsc_event (CallW t p) \<longleftrightarrow> t = 0"
| "spsc_event (CallR t p) \<longleftrightarrow> t = 1"
| "spsc_event (Step t) \<longleftrightarrow> t = 0 \<or> t = 1"

lemma spsc_inv_step:
  assumes "spsc_inv s" and "spsc_event e" and "length (sent (sys_step s e)) < 2 ^ 64"
  shows "spsc_inv (sys_step s e)"
proof (cases e)
  case (CallW t p)
  with assms show ?thesis
    by (cases "pcs s 0") (auto simp: spsc_inv_def)
next
  case (CallR t p)
  with assms show ?thesis
    by (cases "pcs s 1") (auto simp: spsc_inv_def)
next
  case (Step t)
  with assms show ?thesis
    by (auto simp: spsc_writer_step spsc_reader_step simp del: sys_step.simps One_nat_def)
qed

lemma spsc_inv_start: "fresh_queue q \<Longrightarrow> spsc_inv (start q)"
  by (simp add: spsc_inv_def ring_ok_def start_def fresh_queue_def)


lemma thread_step_pktsize:
  "thread_step c q = (c', q') \<Longrightarrow> pktsize q' = pktsize q \<and> pktcount q' = pktcount q"
  by (cases c) (auto split: if_splits)

lemma run_pktsize: "pktsize (shared (run s es)) = pktsize (shared s)"
proof (induction es arbitrary: s)
  case (Cons e es)
  have "pktsize (shared (sys_step s e)) = pktsize (shared s)"
    by (cases e) (auto split: prod.splits dest: thread_step_pktsize)
  with Cons show ?case by simp
qed simp

lemma pkt_bytes_run: "pkt_bytes (shared (run (start q) es)) = pkt_bytes q"
  using run_pktsize [of "start q" es] by (simp add: start_def pkt_bytes_def pkt_len_def fun_eq_iff)

text \<open>With no call in progress the interleaved state is a well-formed queue again.\<close>

lemma spsc_quiescent:
  assumes inv: "spsc_inv s" and "quiescent (pcs s 0)" and "quiescent (pcs s 1)"
  shows "wf_queue (shared s) \<and>
    map (pkt_bytes (shared s)) (sent s) =
      map (pkt_bytes (shared s)) (recvd s) @ queue_items (shared s)"
proof -
  let ?q = "shared s" and ?d = "length (recvd s)"
  from assms have m: "unat (max_read_off ?q) = length (sent s)"
    by (cases "pcs s 0") (auto simp: spsc_inv_def)
  from assms have d: "?d = unat (read_off ?q)"
    by (cases "pcs s 1") (auto simp: spsc_inv_def)
  have "map (pkt_bytes ?q) (drop ?d (sent s)) = queue_items ?q"
    using inv m d by (intro nth_equalityI) (auto simp: spsc_inv_def ring_ok_def queue_items_def)
  moreover have "map (pkt_bytes ?q) (sent s) =
      map (pkt_bytes ?q) (take ?d (sent s)) @ map (pkt_bytes ?q) (drop ?d (sent s))"
    by (metis append_take_drop_id map_append)
  moreover have "wf_queue ?q"
    using inv m by (auto simp: spsc_inv_def ring_ok_def wf_queue_def word_unat_eq_iff)
  ultimately show ?thesis
    using inv by (simp add: spsc_inv_def)
qed

section \<open>Properties\<close>

text \<open>
  Property C2. One writing and one reading thread, interleaved in any way, on a queue
  that starts with zero offsets and over which fewer than \<open>2^64\<close> packets are
  written: the packets returned to the reader are exactly the first packets
  sent, in the order in which they were sent; and when no call is in progress
  the packets sent are those received followed by those in the queue, which is
  well formed. Nothing is lost, duplicated, reordered or torn.
\<close>

theorem spsc_fifo:
  assumes "fresh_queue q" and "\<forall>e \<in> set es. spsc_event e"
    and "s = run (start q) es" and "length (sent s) < 2 ^ 64"
  shows "map (pkt_bytes q) (recvd s) = take (length (recvd s)) (map (pkt_bytes q) (sent s)) \<and>
    (quiescent (pcs s 0) \<and> quiescent (pcs s 1) \<longrightarrow>
       wf_queue (shared s) \<and>
       map (pkt_bytes q) (sent s) = map (pkt_bytes q) (recvd s) @ queue_items (shared s))"
proof -
  have inv: "spsc_inv s"
    unfolding assms(3)
    by (rule run_invariant [where P = spsc_inv and ok = spsc_event, OF spsc_inv_step])
      (use assms in \<open>simp_all add: spsc_inv_start\<close>)
  have "pkt_bytes (shared s) = pkt_bytes q"
    using assms by (simp add: pkt_bytes_run)
  with inv spsc_quiescent [OF inv] show ?thesis
    by (simp add: spsc_inv_def take_map)
qed


text \<open>
  Inputs for the concrete runs: an initialised queue of \<open>n\<close> slots of 8 bytes, a
  packet filled with one byte, and one whole call without interference.
\<close>

definition demo_queue :: "u32 \<Rightarrow> ikc_queue" where
  "demo_queue n = \<lparr>q_id = 1, q_type = 0, pktsize = 8, pktcount = n, q_flag = 0,
     read_off = 0, max_read_off = 0, write_off = 0, queue_size = ucast (8 * n),
     q_channel_id = 0, read_cpu = 0, write_cpu = 0, dummy2 = 0, qdata = (\<lambda>_. 0)\<rparr>"

definition pkt :: "byte \<Rightarrow> bytes" where
  "pkt b = (\<lambda>_. b)"

definition steps :: "nat \<Rightarrow> nat \<Rightarrow> event list" where
  "steps n t = replicate n (Step t)"

definition write_call :: "nat \<Rightarrow> byte \<Rightarrow> event list" where
  "write_call t b = CallW t (pkt b) # steps 7 t"

definition read_call :: "nat \<Rightarrow> event list" where
  "read_call t = CallR t (pkt 0) # steps 6 t"

theorem spsc_fifo_witness:
  "fresh_queue (demo_queue 2) \<and>
   list_all spsc_event (write_call 0 5 @ read_call 1) \<and>
   (let s = run (start (demo_queue 2)) (write_call 0 5 @ read_call 1) in
    length (recvd s) = 1 \<and> length (sent s) = 1 \<and>
    map (pkt_bytes (demo_queue 2)) (recvd s) = map (pkt_bytes (demo_queue 2)) (sent s))"
proof -
  let ?es = "write_call 0 5 @ read_call 1"
  let ?s = "run (start (demo_queue 2)) ?es"
  have q: "fresh_queue (demo_queue 2)"
    by (simp add: fresh_queue_def demo_queue_def)
  have ev: "\<forall>e \<in> set ?es. spsc_event e"
    by (simp add: write_call_def read_call_def steps_def)
  have sent: "length (sent ?s) = 1" and recvd: "length (recvd ?s) = 1"
    by code_simp+
  have "length (sent ?s) < 2 ^ 64"
    unfolding sent by simp
  from spsc_fifo [OF q ev refl this] have "map (pkt_bytes (demo_queue 2)) (recvd ?s) =
      take (length (recvd ?s)) (map (pkt_bytes (demo_queue 2)) (sent ?s))"
    by blast
  then have "map (pkt_bytes (demo_queue 2)) (recvd ?s) = map (pkt_bytes (demo_queue 2)) (sent ?s)"
    by (simp only: sent recvd take_all length_map order_refl)
  with q ev sent recvd show ?thesis
    unfolding Let_def list_all_iff by blast
qed

text \<open>
  Property C12. Any number of threads writing and reading, interleaved in any way:
  the packet numbers still being written are distinct, and all of them are at
  or above \<open>max_read_off\<close>, so no packet number becomes readable before its own
  copy is complete; \<open>write_off\<close> counts the packet numbers handed out.
\<close>

theorem publication_order:
  assumes "fresh_queue q" and "s = run (start q) es" and "length (sent s) < 2 ^ 64"
  shows "unat (write_off (shared s)) = length (sent s) \<and>
    (\<forall>t w. claim (pcs s t) = Some w \<longrightarrow>
       unat (max_read_off (shared s)) \<le> unat w \<and> unat w < unat (write_off (shared s)) \<and>
       (\<forall>u. claim (pcs s u) = Some w \<longrightarrow> u = t))"
proof -
  have "pub_inv s"
    unfolding assms(2)
    by (rule run_invariant [where P = pub_inv and ok = "\<lambda>_. True", OF pub_inv_step])
      (use assms in \<open>simp_all add: pub_inv_start\<close>)
  then show ?thesis
    unfolding pub_inv_def by metis
qed

theorem publication_order_witness:
  "let s = run (start (demo_queue 4)) (CallW 0 (pkt 1) # steps 4 0 @ CallW 2 (pkt 2) # steps 6 2)
   in claim (pcs s 0) = Some 0 \<and> claim (pcs s 2) = Some 1 \<and>
      unat (max_read_off (shared s)) \<le> 0 \<and> unat (write_off (shared s)) = 2"
proof -
  let ?s = "run (start (demo_queue 4)) (CallW 0 (pkt 1) # steps 4 0 @ CallW 2 (pkt 2) # steps 6 2)"
  have q: "fresh_queue (demo_queue 4)"
    by (simp add: fresh_queue_def demo_queue_def)
  have t0: "claim (pcs ?s 0) = Some 0" and t2: "claim (pcs ?s 2) = Some 1" and
    sent: "length (sent ?s) = 2"
    by code_simp+
  have "length (sent ?s) < 2 ^ 64"
    unfolding sent by simp
  from publication_order [OF q refl this] t0 t2 sent show ?thesis
    unfolding Let_def by (metis unsigned_0)
qed


text \<open>The value a finished write call returned.\<close>

fun write_ret :: "pc \<Rightarrow> int option" where
  "write_ret (WRet ret) = Some ret"
| "write_ret _ = None"

text \<open>
  Property C21. Two writing threads overrun a queue: a writer that loaded \<open>read_off\<close>
  before other packets passed through compares the current \<open>write_off\<close> with a stale
  value, the equality of the full test fails, and from then on the queue is more
  than full and no writer notices. Every write of the four packets returns 0, yet
  the reader gets packet 4 in place of packet 2.
\<close>

theorem multi_writer_overrun:
  "\<exists>es. let s = run (start (demo_queue 2)) es in
     write_ret (pcs s 0) = Some 0 \<and> write_ret (pcs s 2) = Some 0 \<and>
     map (\<lambda>p. p 0) (sent s) = [1, 2, 3, 4] \<and> map (\<lambda>p. p 0) (recvd s) = [1, 4]"
  by (rule exI [of _ "CallW 0 (pkt 3) # steps 1 0 @ write_call 2 1 @ read_call 1 @
      write_call 2 2 @ steps 6 0 @ write_call 2 4 @ read_call 1"]) code_simp

text \<open>
  With two reading threads a packet is overwritten while it is copied:
  a reader advances \<open>read_off\<close> before it copies the slot, which tells the single
  writer that the slot is free. Packet 1 is never received and packet 3 is
  received twice.
\<close>

theorem multi_reader_overwrite:
  "\<exists>es. let s = run (start (demo_queue 2)) es in
     write_ret (pcs s 0) = Some 0 \<and>
     map (\<lambda>p. p 0) (sent s) = [1, 2, 3] \<and> map (\<lambda>p. p 0) (recvd s) = [2, 3, 3]"
  by (rule exI [of _ "write_call 0 1 @ CallR 1 (pkt 0) # steps 4 1 @ write_call 0 2 @
      read_call 2 @ write_call 0 3 @ steps 2 1 @ read_call 2"]) code_simp

end
