(* ===== verification/Ikc_Packet.thy ===== *)
theory Ikc_Packet
  imports Ikc_Queue
begin

text \<open>
  The layout of packets in memory (\<^verbatim>\<open>ikc/include/ikc/msg.h\<close>): little-endian 32- and
  64-bit fields in a byte object, the packet header with the channel pointer in
  the first eight bytes, and \<open>struct ihk_ikc_master_packet\<close>. Writing a master packet
  into memory and reading it back gives the same packet.
\<close>

section \<open>Little-endian fields\<close>

definition put32 :: "nat \<Rightarrow> u32 \<Rightarrow> bytes \<Rightarrow> bytes" where
  "put32 a v m = (\<lambda>i. if a \<le> i \<and> i < a + 4 then ucast (drop_bit (8 * (i - a)) v) else m i)"

definition put64 :: "nat \<Rightarrow> u64 \<Rightarrow> bytes \<Rightarrow> bytes" where
  "put64 a v m = (\<lambda>i. if a \<le> i \<and> i < a + 8 then ucast (drop_bit (8 * (i - a)) v) else m i)"

definition get32 :: "nat \<Rightarrow> bytes \<Rightarrow> u32" where
  "get32 a m = ucast (m a) OR push_bit 8 (ucast (m (a + 1))) OR
     push_bit 16 (ucast (m (a + 2))) OR push_bit 24 (ucast (m (a + 3)))"

definition get64 :: "nat \<Rightarrow> bytes \<Rightarrow> u64" where
  "get64 a m = ucast (get32 a m) OR push_bit 32 (ucast (get32 (a + 4) m))"

text \<open>A 32-bit value is determined by its four bytes.\<close>

lemma get32_bytes:
  assumes "\<And>k. k < 4 \<Longrightarrow> m (a + k) = ucast (drop_bit (8 * k) v)"
  shows "get32 a m = v"
proof (rule bit_word_eqI)
  fix n
  assume "n < LENGTH(32)"
  then consider "n < 8" | "8 \<le> n" "n < 16" | "16 \<le> n" "n < 24" | "24 \<le> n" "n < 32"
    by fastforce
  then show "bit (get32 a m) n = bit v n"
    by cases (auto simp: get32_def bit_simps assms [of 0, simplified] assms [of 1, simplified]
        assms [of 2, simplified] assms [of 3, simplified])
qed

lemma get32_put32_same [simp]: "get32 a (put32 a v m) = v"
  by (rule get32_bytes) (simp add: put32_def)

lemma get32_put64_low [simp]: "get32 a (put64 a v m) = ucast v"
  by (rule get32_bytes, rule bit_word_eqI) (auto simp: put64_def bit_simps)

lemma get32_put64_high [simp]: "get32 (a + 4) (put64 a v m) = ucast (drop_bit 32 v)"
  by (rule get32_bytes, rule bit_word_eqI) (auto simp: put64_def bit_simps algebra_simps)

lemma get64_put64_same [simp]: "get64 a (put64 a v m) = v"
  unfolding get64_def get32_put64_low get32_put64_high
  by (rule bit_word_eqI) (auto simp: bit_simps)

lemma get32_cong: "(\<And>i. a \<le> i \<Longrightarrow> i < a + 4 \<Longrightarrow> m i = m' i) \<Longrightarrow> get32 a m = get32 a m'"
  by (simp add: get32_def)

lemma get64_cong: "(\<And>i. a \<le> i \<Longrightarrow> i < a + 8 \<Longrightarrow> m i = m' i) \<Longrightarrow> get64 a m = get64 a m'"
  by (simp add: get64_def get32_cong [of _ m m'])

lemma get_put_other [simp]:
  "a + 4 \<le> b \<or> b + 4 \<le> a \<Longrightarrow> get32 a (put32 b v m) = get32 a m"
  "a + 4 \<le> b \<or> b + 8 \<le> a \<Longrightarrow> get32 a (put64 b w m) = get32 a m"
  "a + 8 \<le> b \<or> b + 4 \<le> a \<Longrightarrow> get64 a (put32 b v m) = get64 a m"
  "a + 8 \<le> b \<or> b + 8 \<le> a \<Longrightarrow> get64 a (put64 b w m) = get64 a m"
  by (auto intro!: get32_cong get64_cong simp: put32_def put64_def)

section \<open>Master packets\<close>

record ihk_ikc_master_packet =
  pkt_channel :: u64
  pkt_msg :: u32
  pkt_ref :: u32
  param0 :: u64
  param1 :: u64
  param2 :: u64
  param3 :: u64
  param4 :: u64

definition sizeof_master_packet :: nat where
  "sizeof_master_packet = 56"

text \<open>A packet variable in memory: \<open>m\<close> is what the bytes held before its fields were assigned.\<close>

definition packet_to_mem :: "ihk_ikc_master_packet \<Rightarrow> bytes \<Rightarrow> bytes" where
  "packet_to_mem p m =
     put64 0 (pkt_channel p) (put32 8 (pkt_msg p) (put32 12 (pkt_ref p)
       (put64 16 (param0 p) (put64 24 (param1 p) (put64 32 (param2 p)
         (put64 40 (param3 p) (put64 48 (param4 p) m)))))))"

definition packet_of_mem :: "bytes \<Rightarrow> ihk_ikc_master_packet" where
  "packet_of_mem m = \<lparr>pkt_channel = get64 0 m, pkt_msg = get32 8 m, pkt_ref = get32 12 m,
     param0 = get64 16 m, param1 = get64 24 m, param2 = get64 32 m, param3 = get64 40 m,
     param4 = get64 48 m\<rparr>"

lemma packet_roundtrip [simp]: "packet_of_mem (packet_to_mem p m) = p"
  by (simp add: packet_of_mem_def packet_to_mem_def)

lemma packet_of_mem_cong:
  "(\<And>i. i < sizeof_master_packet \<Longrightarrow> m i = m' i) \<Longrightarrow> packet_of_mem m = packet_of_mem m'"
  by (auto simp: packet_of_mem_def sizeof_master_packet_def intro!: get32_cong get64_cong)

lemma packet_of_mem_channel: "packet_of_mem (put64 0 c m) = (packet_of_mem m)\<lparr>pkt_channel := c\<rparr>"
  by (simp add: packet_of_mem_def)

text \<open>
  A queue whose \<open>pktsize\<close> is the size of a master packet carries all of it: 56 bytes
  are seven longs.
\<close>

lemma master_pkt_len: "pktsize q = 56 \<Longrightarrow> pkt_len q = sizeof_master_packet"
  by (simp add: pkt_len_def sizeof_master_packet_def)

lemma packet_of_pkt_bytes:
  assumes "pktsize q = 56" and "pkt_bytes q m = pkt_bytes q m'"
  shows "packet_of_mem m = packet_of_mem m'"
proof (rule packet_of_mem_cong)
  fix i
  assume "i < sizeof_master_packet"
  with assms(2) show "m i = m' i"
    by (simp add: pkt_bytes_def master_pkt_len [OF assms(1)])
qed

end
