(* ===== verification/Ikc_Channel.thy ===== *)
theory Ikc_Channel
  imports Ikc_Packet "HOL-Library.Monad_Syntax"
begin

text \<open>
  Channels (\<^verbatim>\<open>ikc/queue.c\<close> from \<open>ihk_ikc_init_desc\<close> on, \<^verbatim>\<open>ikc/linux.c\<close>, and the accessors
  of \<^verbatim>\<open>linux/core/mikc.c\<close>): a channel descriptor names a receive and a send queue in
  shared memory, carries the enabled and destroying flags, and keeps a pool of
  packet buffers. The state is what the IKC code of one kernel reaches from its
  \<open>ihk_os_t\<close>.

  Queue pointers are the physical addresses of the queues: the mapping functions
  of the SMP driver return the address they are given. A result of \<open>None\<close> means
  that the function does not return normally: it follows a pointer to memory
  that holds no such object, or it loops forever.
\<close>

section \<open>State\<close>

record ihk_ikc_queue_desc =
  qd_queue :: "u64 option"
  qd_cache :: ihk_ikc_queue_head
  qrphys :: u64
  qphys :: u64
  intr_cpu :: u32

definition IKC_FLAG_ENABLED :: u32 where "IKC_FLAG_ENABLED = 1"
definition IKC_FLAG_DESTROYING :: u32 where "IKC_FLAG_DESTROYING = 2"
definition IKC_FLAG_DESTROY_ACKED :: u32 where "IKC_FLAG_DESTROY_ACKED = 4"
definition IKC_FLAG_STATUS_MASK :: u32 where "IKC_FLAG_STATUS_MASK = 7"
definition IKC_FLAG_NO_COPY :: u32 where "IKC_FLAG_NO_COPY = 16"
definition IKC_NO_NOTIFY :: u32 where "IKC_NO_NOTIFY = 256"

lemmas ikc_flag_defs = IKC_FLAG_ENABLED_def IKC_FLAG_DESTROYING_def IKC_FLAG_DESTROY_ACKED_def
  IKC_FLAG_STATUS_MASK_def IKC_FLAG_NO_COPY_def IKC_NO_NOTIFY_def

text \<open>Packet handlers are function pointers: a channel holds the name of one.\<close>

record ihk_ikc_channel_desc =
  remote_channel_id :: u32
  remote_channel_va :: u64
  c_master :: "u64 option"
  c_port :: u32
  channel_id :: u32
  recv :: ihk_ikc_queue_desc
  send :: ihk_ikc_queue_desc
  flag :: u32
  c_handler :: "nat option"
  packet_pool :: "bytes list"

datatype ihk_ikc_direction = IHK_IKC_DIRECTION_SEND | IHK_IKC_DIRECTION_RECV

text \<open>A listener's handler gets the new channel and gives its result and the packet handler.\<close>

record ihk_ikc_listen_param =
  lp_handler :: "(u64 \<Rightarrow> int \<times> nat option) option"
  lp_port :: u32
  lp_direction :: ihk_ikc_direction
  lp_pkt_size :: u32
  lp_queue_size :: u32
  lp_magic :: u32

record ihk_ikc_master_wait_struct =
  ws_id :: nat
  ws_status :: int
  ws_msg :: u32
  ws_ref :: u32
  ws_res :: ihk_ikc_master_packet

text \<open>
  \<open>irqs\<close> lists the CPUs to which \<open>ihk_os_issue_interrupt\<close> was asked to send the IKC
  vector, oldest first.
\<close>

record ikc =
  qmem :: "u64 \<Rightarrow> ikc_queue option"
  chans :: "u64 \<Rightarrow> ihk_ikc_channel_desc option"
  ikc_channels :: "u64 list"
  channel_ctr :: u32
  mchannel :: "u64 option"
  regular_channels :: "u64 option list"
  listeners :: "ihk_ikc_listen_param option list"
  wait_list :: "ihk_ikc_master_wait_struct list"
  irqs :: "u32 list"

definition upd_chan ::
  "u64 \<Rightarrow> (ihk_ikc_channel_desc \<Rightarrow> ihk_ikc_channel_desc) \<Rightarrow> 'a ikc_scheme \<Rightarrow> 'a ikc_scheme" where
  "upd_chan c f st = st\<lparr>chans := (chans st)(c := map_option f (chans st c))\<rparr>"

definition upd_queue ::
  "u64 \<Rightarrow> (ikc_queue \<Rightarrow> ikc_queue) \<Rightarrow> 'a ikc_scheme \<Rightarrow> 'a ikc_scheme" where
  "upd_queue a f st = st\<lparr>qmem := (qmem st)(a := map_option f (qmem st a))\<rparr>"

text \<open>Reading a queue through a pointer: NULL is a value, a dangling pointer a fault.\<close>

definition deref_queue :: "'a ikc_scheme \<Rightarrow> u64 option \<Rightarrow> ikc_queue option option" where
  "deref_queue st ptr = (case ptr of None \<Rightarrow> Some None | Some a \<Rightarrow> map_option Some (qmem st a))"

definition store_queue ::
  "u64 option \<Rightarrow> ikc_queue option \<Rightarrow> 'a ikc_scheme \<Rightarrow> 'a ikc_scheme" where
  "store_queue ptr q st = (case ptr of None \<Rightarrow> st | Some a \<Rightarrow> st\<lparr>qmem := (qmem st)(a := q)\<rparr>)"

lemma upd_simps [simp]:
  "chans (upd_queue a g st) = chans st"
  "qmem (upd_chan c f st) = qmem st"
  "irqs (upd_chan c f st) = irqs st"
  "irqs (upd_queue a g st) = irqs st"
  "mchannel (upd_chan c f st) = mchannel st"
  "mchannel (upd_queue a g st) = mchannel st"
  "listeners (upd_chan c f st) = listeners st"
  "listeners (upd_queue a g st) = listeners st"
  "wait_list (upd_chan c f st) = wait_list st"
  "wait_list (upd_queue a g st) = wait_list st"
  "ikc_channels (upd_chan c f st) = ikc_channels st"
  "ikc_channels (upd_queue a g st) = ikc_channels st"
  "channel_ctr (upd_chan c f st) = channel_ctr st"
  "channel_ctr (upd_queue a g st) = channel_ctr st"
  "regular_channels (upd_chan c f st) = regular_channels st"
  "regular_channels (upd_queue a g st) = regular_channels st"
  "chans (upd_chan c f st) = (chans st)(c := map_option f (chans st c))"
  "qmem (upd_queue a g st) = (qmem st)(a := map_option g (qmem st a))"
  by (simp_all add: upd_chan_def upd_queue_def)

section \<open>Flags and interrupts\<close>

definition ihk_ikc_channel_enabled :: "ihk_ikc_channel_desc \<Rightarrow> bool" where
  "ihk_ikc_channel_enabled ch \<longleftrightarrow> flag ch AND IKC_FLAG_STATUS_MASK = IKC_FLAG_ENABLED"

definition ihk_ikc_enable_channel :: "u64 \<Rightarrow> 'a ikc_scheme \<Rightarrow> 'a ikc_scheme" where
  "ihk_ikc_enable_channel c st =
     upd_chan c (\<lambda>ch. ch\<lparr>flag := flag ch OR IKC_FLAG_ENABLED\<rparr>) st"

definition ihk_ikc_disable_channel :: "u64 \<Rightarrow> 'a ikc_scheme \<Rightarrow> 'a ikc_scheme" where
  "ihk_ikc_disable_channel c st =
     upd_chan c (\<lambda>ch. ch\<lparr>flag := flag ch AND NOT IKC_FLAG_ENABLED\<rparr>) st"

definition ihk_ikc_send_interrupt :: "u64 \<Rightarrow> 'a ikc_scheme \<Rightarrow> 'a ikc_scheme option" where
  "ihk_ikc_send_interrupt c st = do {
     ch \<leftarrow> chans st c;
     a \<leftarrow> qd_queue (send ch);
     q \<leftarrow> qmem st a;
     Some (st\<lparr>irqs := irqs st @ [read_cpu q]\<rparr>)
   }"

section \<open>Sending and receiving\<close>

definition IHK_IKC_SEND_RETRY :: nat where
  "IHK_IKC_SEND_RETRY = 1000"

function send_loop ::
  "nat \<Rightarrow> u64 \<Rightarrow> bytes \<Rightarrow> u32 \<Rightarrow> 'a ikc_scheme \<Rightarrow> (int \<times> 'a ikc_scheme) option" where
  "send_loop attempts c p opt st =
     (case chans st c of
        None \<Rightarrow> None
      | Some ch \<Rightarrow>
          if ihk_ikc_channel_enabled ch then
            (case deref_queue st (qd_queue (send ch)) of
               None \<Rightarrow> None
             | Some qp \<Rightarrow>
                 (case ihk_ikc_write_queue qp (Some p) of
                    None \<Rightarrow> None
                  | Some (r, qp') \<Rightarrow>
                      let st' = store_queue (qd_queue (send ch)) qp' st in
                      if r \<noteq> 0 then
                        (if attempts + 1 > IHK_IKC_SEND_RETRY then Some (err EBUSY, st')
                         else send_loop (attempts + 1) c p opt st')
                      else if opt AND IKC_NO_NOTIFY = 0 then
                        map_option (Pair r) (ihk_ikc_send_interrupt c st')
                      else Some (r, st')))
          else Some (err EINVAL, st))"
  by pat_completeness auto
termination
  by (relation "measure (\<lambda>(attempts, _). IHK_IKC_SEND_RETRY - attempts)") auto

declare send_loop.simps [simp del]

definition ihk_ikc_send ::
  "u64 option \<Rightarrow> bytes option \<Rightarrow> u32 \<Rightarrow> 'a ikc_scheme \<Rightarrow> (int \<times> 'a ikc_scheme) option" where
  "ihk_ikc_send channel p opt st =
     (case (channel, p) of
        (Some c, Some pkt) \<Rightarrow> send_loop 0 c pkt opt st
      | _ \<Rightarrow> Some (err EINVAL, st))"

definition ihk_ikc_recv ::
  "u64 option \<Rightarrow> bytes option \<Rightarrow> u32 \<Rightarrow> 'a ikc_scheme \<Rightarrow>
   (int \<times> bytes option \<times> 'a ikc_scheme) option" where
  "ihk_ikc_recv channel packet opt st =
     (case (channel, packet) of
        (Some c, Some p) \<Rightarrow> do {
          ch \<leftarrow> chans st c;
          if ihk_ikc_channel_enabled ch then do {
            qp \<leftarrow> deref_queue st (qd_queue (recv ch));
            (r, qp', p') \<leftarrow> ihk_ikc_read_queue qp (Some p);
            let st' = store_queue (qd_queue (recv ch)) qp' st;
            let p'' = (if r = 0 then map_option (put64 0 c) p' else p');
            if opt AND IKC_NO_NOTIFY = 0
            then map_option (\<lambda>st''. (r, p'', st'')) (ihk_ikc_send_interrupt c st')
            else Some (r, p'', st')
          }
          else Some (err EINVAL, Some p, st)
        }
      | _ \<Rightarrow> Some (err EINVAL, packet, st))"

text \<open>
  \<open>fresh\<close> is what newly allocated packet memory holds; \<open>ihk_ikc_alloc_packet\<close> retries
  its allocation until it succeeds.
\<close>

definition ihk_ikc_alloc_packet ::
  "bytes \<Rightarrow> u64 \<Rightarrow> 'a ikc_scheme \<Rightarrow> (bytes \<times> 'a ikc_scheme) option" where
  "ihk_ikc_alloc_packet fresh c st = do {
     ch \<leftarrow> chans st c;
     case packet_pool ch of
       [] \<Rightarrow> do { a \<leftarrow> qd_queue (recv ch); _ \<leftarrow> qmem st a; Some (fresh, st) }
     | p # ps \<Rightarrow> Some (p, upd_chan c (\<lambda>ch. ch\<lparr>packet_pool := ps\<rparr>) st)
   }"

definition ihk_ikc_release_packet ::
  "bytes option \<Rightarrow> 'a ikc_scheme \<Rightarrow> 'a ikc_scheme option" where
  "ihk_ikc_release_packet packet st =
     (case packet of
        None \<Rightarrow> Some st
      | Some p \<Rightarrow>
          let c = get64 0 p in
          if c = 0 then Some st
          else do {
            _ \<leftarrow> chans st c;
            Some (upd_chan c (\<lambda>ch. ch\<lparr>packet_pool := packet_pool ch @ [p]\<rparr>) st)
          })"

definition ihk_ikc_recv_handler ::
  "bytes \<Rightarrow> u64 option \<Rightarrow> (u64 \<Rightarrow> bytes \<Rightarrow> 'a ikc_scheme \<Rightarrow> 'a ikc_scheme option) \<Rightarrow> u32 \<Rightarrow>
   'a ikc_scheme \<Rightarrow> (int \<times> 'a ikc_scheme) option" where
  "ihk_ikc_recv_handler fresh channel h opt st =
     (case channel of
        None \<Rightarrow> Some (err EINVAL, st)
      | Some c \<Rightarrow> do {
          (p, st1) \<leftarrow> ihk_ikc_alloc_packet fresh c st;
          (r, p', st2) \<leftarrow> ihk_ikc_recv (Some c) (Some p) (opt OR IKC_NO_NOTIFY) st1;
          if r \<noteq> 0 then map_option (Pair r) (ihk_ikc_release_packet p' st2)
          else do {
            pkt \<leftarrow> p';
            st3 \<leftarrow> h c pkt st2;
            ch \<leftarrow> chans st3 c;
            if flag ch AND IKC_FLAG_NO_COPY \<noteq> 0
            then map_option (Pair r) (ihk_ikc_send_interrupt c st3)
            else Some (r, st3)
          }
        })"

section \<open>Descriptors\<close>

definition PAGE_SIZE :: u64 where
  "PAGE_SIZE = 4096"

definition head_of :: "ikc_queue \<Rightarrow> ihk_ikc_queue_head" where
  "head_of q = ihk_ikc_queue_head.truncate q"

definition zero_queue_desc :: ihk_ikc_queue_desc where
  "zero_queue_desc = \<lparr>qd_queue = None,
     qd_cache = \<lparr>q_id = 0, q_type = 0, pktsize = 0, pktcount = 0, q_flag = 0,
       read_off = 0, max_read_off = 0, write_off = 0, queue_size = 0,
       q_channel_id = 0, read_cpu = 0, write_cpu = 0, dummy2 = 0\<rparr>,
     qrphys = 0, qphys = 0, intr_cpu = 0\<rparr>"

definition zero_channel_desc :: ihk_ikc_channel_desc where
  "zero_channel_desc = \<lparr>remote_channel_id = 0, remote_channel_va = 0, c_master = None,
     c_port = 0, channel_id = 0, recv = zero_queue_desc, send = zero_queue_desc, flag = 0,
     c_handler = None, packet_pool = []\<rparr>"

definition smp_ihk_os_map_memory :: "u64 \<Rightarrow> u64" where
  "smp_ihk_os_map_memory remote_phys = remote_phys"

text \<open>
  \<open>cpu\<close> is the processor that runs the call. \<open>remote_channel_id\<close> is taken from the send
  cache before the cache is filled, as in the source.
\<close>

definition ihk_ikc_init_desc ::
  "u32 \<Rightarrow> u64 \<Rightarrow> u32 \<Rightarrow> u64 option \<Rightarrow> u64 option \<Rightarrow> nat option \<Rightarrow> u64 option \<Rightarrow>
   'a ikc_scheme \<Rightarrow> 'a ikc_scheme option" where
  "ihk_ikc_init_desc cpu c prt rq wq ph mst st = do {
     _ \<leftarrow> chans st c;
     let cid = channel_ctr st + 1;
     let st = st\<lparr>channel_ctr := cid\<rparr>;
     let st = upd_chan c (\<lambda>ch. ch\<lparr>packet_pool := [], c_port := prt, channel_id := cid,
                recv := (recv ch)\<lparr>qd_queue := rq\<rparr>, send := (send ch)\<lparr>qd_queue := wq\<rparr>\<rparr>) st;
     st \<leftarrow> (case rq of
        None \<Rightarrow> Some st
      | Some a \<Rightarrow> do {
          q \<leftarrow> qmem st a;
          let q' = q\<lparr>q_channel_id := cid, read_cpu := cpu\<rparr>;
          Some (upd_chan c (\<lambda>ch. ch\<lparr>recv := (recv ch)\<lparr>qd_cache := head_of q'\<rparr>\<rparr>)
                 (upd_queue a (\<lambda>_. q') st))
        });
     st \<leftarrow> (case wq of
        None \<Rightarrow> Some st
      | Some a \<Rightarrow> do {
          q \<leftarrow> qmem st a;
          let q' = q\<lparr>write_cpu := cpu\<rparr>;
          Some (upd_chan c (\<lambda>ch. ch\<lparr>remote_channel_id := q_channel_id (qd_cache (send ch)),
                              send := (send ch)\<lparr>qd_cache := head_of q'\<rparr>\<rparr>)
                 (upd_queue a (\<lambda>_. q') st))
        });
     let st = upd_chan c (\<lambda>ch. ch\<lparr>c_handler := ph, c_master := mst\<rparr>) st;
     Some (st\<lparr>ikc_channels := ikc_channels st @ [c]\<rparr>)
   }"

text \<open>
  The outcomes of the allocations a call makes: the address of the descriptor, the
  address and old contents of the queue pages; and the running CPU.
\<close>

record chan_env =
  new_desc :: "u64 option"
  new_queue :: "(u64 \<times> ikc_queue) option"
  cpu_id :: u32

definition queue_pages :: "u64 \<Rightarrow> u32" where
  "queue_pages qsize = ucast (drop_bit 12 (qsize + PAGE_SIZE - 1))"

text \<open>The result is the new channel (NULL when an allocation fails) and \<open>*rq\<close>.\<close>

definition ihk_ikc_create_channel ::
  "chan_env \<Rightarrow> u32 \<Rightarrow> u32 \<Rightarrow> u64 \<Rightarrow> u64 \<Rightarrow> u64 \<Rightarrow> u32 \<Rightarrow>
   'a ikc_scheme \<Rightarrow> (u64 option \<times> u64 \<times> 'a ikc_scheme) option" where
  "ihk_ikc_create_channel env prt packet_size qsize rq sq f st =
     (let qpages = queue_pages qsize in
      case new_desc env of
        None \<Rightarrow> Some (None, rq, st)
      | Some c \<Rightarrow>
          if rq = 0 then
            (case new_queue env of
               None \<Rightarrow> Some (None, rq, st)
             | Some (a, q) \<Rightarrow> do {
                 (_, qp) \<leftarrow> ihk_ikc_init_queue (Some q) 1 prt (ucast PAGE_SIZE * qpages) packet_size;
                 let st = st\<lparr>qmem := (qmem st)(a := qp),
                   chans := (chans st)(c \<mapsto> zero_channel_desc\<lparr>flag := f,
                     recv := zero_queue_desc\<lparr>qrphys := 0, qphys := a\<rparr>,
                     send := (if sq = 0 then zero_queue_desc
                              else zero_queue_desc\<lparr>qrphys := sq, qphys := smp_ihk_os_map_memory sq\<rparr>)\<rparr>)\<rparr>;
                 st \<leftarrow> ihk_ikc_init_desc (cpu_id env) c prt (Some a)
                   (if sq = 0 then None else Some (smp_ihk_os_map_memory sq)) None (mchannel st) st;
                 Some (Some c, a, st)
               })
          else do {
            let st = st\<lparr>chans := (chans st)(c \<mapsto> zero_channel_desc\<lparr>flag := f,
                     recv := zero_queue_desc\<lparr>qrphys := rq, qphys := smp_ihk_os_map_memory rq\<rparr>,
                     send := (if sq = 0 then zero_queue_desc
                              else zero_queue_desc\<lparr>qrphys := sq, qphys := smp_ihk_os_map_memory sq\<rparr>)\<rparr>)\<rparr>;
            st \<leftarrow> ihk_ikc_init_desc (cpu_id env) c prt (Some (smp_ihk_os_map_memory rq))
               (if sq = 0 then None else Some (smp_ihk_os_map_memory sq)) None (mchannel st) st;
            Some (Some c, rq, st)
          })"

text \<open>Unmapping leaves the queue in the other kernel's memory; a local queue is freed.\<close>

definition free_queue_desc :: "ihk_ikc_queue_desc \<Rightarrow> 'a ikc_scheme \<Rightarrow> 'a ikc_scheme option" where
  "free_queue_desc qd st =
     (case qd_queue qd of
        None \<Rightarrow> Some st
      | Some a \<Rightarrow> do {
          _ \<leftarrow> qmem st a;
          if qrphys qd \<noteq> 0 then Some st else Some (st\<lparr>qmem := (qmem st)(a := None)\<rparr>)
        })"

definition ihk_ikc_free_channel :: "u64 \<Rightarrow> 'a ikc_scheme \<Rightarrow> 'a ikc_scheme option" where
  "ihk_ikc_free_channel c st = do {
     ch \<leftarrow> chans st c;
     let st = st\<lparr>ikc_channels := removeAll c (ikc_channels st)\<rparr>;
     st \<leftarrow> free_queue_desc (recv ch) st;
     st \<leftarrow> free_queue_desc (send ch) st;
     Some (st\<lparr>chans := (chans st)(c := None)\<rparr>)
   }"

definition ihk_ikc_set_remote_queue ::
  "ihk_ikc_queue_desc \<Rightarrow> u64 \<Rightarrow> 'a ikc_scheme \<Rightarrow> ihk_ikc_queue_desc option" where
  "ihk_ikc_set_remote_queue qd rphys st = do {
     let a = smp_ihk_os_map_memory rphys;
     q \<leftarrow> qmem st a;
     Some (qd\<lparr>qrphys := rphys, qphys := a, qd_queue := Some a, qd_cache := head_of q\<rparr>)
   }"

definition ihk_ikc_channel_set_cpu :: "u64 \<Rightarrow> u32 \<Rightarrow> 'a ikc_scheme \<Rightarrow> 'a ikc_scheme option" where
  "ihk_ikc_channel_set_cpu c cpu st = do {
     ch \<leftarrow> chans st c;
     s \<leftarrow> qd_queue (send ch);
     r \<leftarrow> qd_queue (recv ch);
     _ \<leftarrow> qmem st s;
     _ \<leftarrow> qmem st r;
     Some (upd_queue s (\<lambda>q. q\<lparr>write_cpu := cpu\<rparr>) (upd_queue r (\<lambda>q. q\<lparr>read_cpu := cpu\<rparr>) st))
   }"

fun find_channel_loop :: "u32 \<Rightarrow> 'a ikc_scheme \<Rightarrow> u64 list \<Rightarrow> u64 option option" where
  "find_channel_loop ident st [] = Some None"
| "find_channel_loop ident st (c # cs) = do {
     ch \<leftarrow> chans st c;
     if channel_id ch = ident then Some (Some c) else find_channel_loop ident st cs
   }"

definition ihk_ikc_find_channel :: "u32 \<Rightarrow> 'a ikc_scheme \<Rightarrow> u64 option option" where
  "ihk_ikc_find_channel ident st = find_channel_loop ident st (ikc_channels st)"

definition ihk_ikc_destroy_channel :: "u64 option \<Rightarrow> 'a ikc_scheme \<Rightarrow> 'a ikc_scheme option" where
  "ihk_ikc_destroy_channel cp st =
     (case cp of None \<Rightarrow> Some st
      | Some c \<Rightarrow> do { _ \<leftarrow> chans st c; ihk_ikc_free_channel c (ihk_ikc_disable_channel c st) })"

text \<open>
  The array of regular channels has one entry per possible CPU. The bound check of
  the setter lets the CPU number equal to that count through: the store then goes
  behind the array.
\<close>

definition ihk_os_get_regular_channel :: "int \<Rightarrow> 'a ikc_scheme \<Rightarrow> u64 option option" where
  "ihk_os_get_regular_channel cpu st =
     (if 0 \<le> cpu \<and> nat cpu < length (regular_channels st)
      then Some (regular_channels st ! nat cpu) else None)"

definition ihk_os_set_regular_channel ::
  "u64 option \<Rightarrow> int \<Rightarrow> 'a ikc_scheme \<Rightarrow> 'a ikc_scheme option" where
  "ihk_os_set_regular_channel cp cpu st =
     (if cpu < 0 \<or> cpu > int (length (regular_channels st)) then Some st
      else if nat cpu < length (regular_channels st)
      then Some (st\<lparr>regular_channels := (regular_channels st)[nat cpu := cp]\<rparr>)
      else None)"

section \<open>Reception\<close>

text \<open>
  The loop that hands every pending packet of a channel to its handler. Handlers
  may change the state in any way, so the loop may never end.
\<close>

partial_function (option) drain_channel ::
  "bytes \<Rightarrow> (nat option \<Rightarrow> u64 \<Rightarrow> bytes \<Rightarrow> 'a ikc_scheme \<Rightarrow> 'a ikc_scheme option) \<Rightarrow> u64 \<Rightarrow>
   'a ikc_scheme \<Rightarrow> 'a ikc_scheme option" where
  "drain_channel fresh hs c st =
     Option.bind (chans st c) (\<lambda>ch.
       if ihk_ikc_channel_enabled ch then
         Option.bind (deref_queue st (qd_queue (recv ch))) (\<lambda>qp.
           if ihk_ikc_queue_is_empty qp = 0 then
             Option.bind (ihk_ikc_recv_handler fresh (Some c) (hs (c_handler ch)) 0 st) (\<lambda>(r, st').
               drain_channel fresh hs c st')
           else Some st)
       else Some st)"

declare drain_channel.simps [code]

definition ihk_ikc_reception_handler ::
  "bytes \<Rightarrow> (nat option \<Rightarrow> u64 \<Rightarrow> bytes \<Rightarrow> 'a ikc_scheme \<Rightarrow> 'a ikc_scheme option) \<Rightarrow> int \<Rightarrow>
   'a ikc_scheme \<Rightarrow> 'a ikc_scheme option" where
  "ihk_ikc_reception_handler fresh hs cpu st = do {
     st \<leftarrow> (if cpu = 0 then
             (case mchannel st of None \<Rightarrow> Some st | Some m \<Rightarrow> drain_channel fresh hs m st)
           else Some st);
     r \<leftarrow> ihk_os_get_regular_channel cpu st;
     case r of None \<Rightarrow> Some st | Some c \<Rightarrow> drain_channel fresh hs c st
   }"

section \<open>Queue memory\<close>

text \<open>A queue is allocated and freed as a block of \<open>2^order\<close> pages.\<close>

definition alloc_queue_order :: "nat \<Rightarrow> int" where
  "alloc_queue_order qpages = int (fls qpages) - 1"

definition free_queue_order :: "nat \<Rightarrow> int" where
  "free_queue_order qsize = int (fls ((qsize + 4096 - 1) div 4096)) - 1"

section \<open>Behaviour of send and receive\<close>

text \<open>A channel whose queue in the given direction is a well-formed queue \<open>q\<close> at address \<open>a\<close>.\<close>

definition sends_on :: "'a ikc_scheme \<Rightarrow> u64 \<Rightarrow> u64 \<Rightarrow> ikc_queue \<Rightarrow> bool" where
  "sends_on st c a q \<longleftrightarrow>
     (\<exists>ch. chans st c = Some ch \<and> ihk_ikc_channel_enabled ch \<and> qd_queue (send ch) = Some a) \<and>
     qmem st a = Some q \<and> wf_queue q"

definition receives_on :: "'a ikc_scheme \<Rightarrow> u64 \<Rightarrow> u64 \<Rightarrow> ikc_queue \<Rightarrow> bool" where
  "receives_on st c a q \<longleftrightarrow>
     (\<exists>ch. chans st c = Some ch \<and> ihk_ikc_channel_enabled ch \<and> qd_queue (recv ch) = Some a) \<and>
     qmem st a = Some q \<and> wf_queue q"

lemma qmem_upd_triv [simp]: "qmem st a = Some q \<Longrightarrow> st\<lparr>qmem := (qmem st)(a \<mapsto> q)\<rparr> = st"
  by (simp add: map_upd_triv)

lemma send_room:
  assumes "sends_on st c a q" and "0 < queue_slack q"
  shows "ihk_ikc_send (Some c) (Some p) opt st =
     Some (0, st\<lparr>qmem := (qmem st)(a \<mapsto> written q p),
       irqs := irqs st @ (if opt AND IKC_NO_NOTIFY = 0 then [read_cpu q] else [])\<rparr>)"
  using assms write_room [of q p]
  by (auto simp: sends_on_def ihk_ikc_send_def send_loop.simps [of 0] deref_queue_def
      store_queue_def ihk_ikc_send_interrupt_def written_def)

lemma send_loop_full:
  assumes "sends_on st c a q" and "queue_full q"
  shows "send_loop attempts c p opt st = Some (err EBUSY, st)"
proof (induction "IHK_IKC_SEND_RETRY - attempts" arbitrary: attempts)
  case 0
  with assms show ?case
    by (subst send_loop.simps) (auto simp: sends_on_def deref_queue_def store_queue_def write_full Let_def)
next
  case (Suc n)
  then have "n = IHK_IKC_SEND_RETRY - (attempts + 1)" by simp
  from Suc.hyps(1) [OF this] assms show ?case
    by (subst send_loop.simps) (auto simp: sends_on_def deref_queue_def store_queue_def write_full Let_def)
qed

lemma send_disabled:
  assumes "chans st c = Some ch" and "\<not> ihk_ikc_channel_enabled ch"
  shows "ihk_ikc_send (Some c) (Some p) opt st = Some (err EINVAL, st)"
  using assms by (simp add: ihk_ikc_send_def send_loop.simps [of 0])

text \<open>The receiving side, without the notification.\<close>

lemma recv_item:
  assumes "receives_on st c a q" and "queue_items q = x # xs"
  shows "\<exists>q' p'. ihk_ikc_recv (Some c) (Some p) (opt OR IKC_NO_NOTIFY) st =
      Some (0, Some p', st\<lparr>qmem := (qmem st)(a \<mapsto> q')\<rparr>) \<and>
    get64 0 p' = c \<and> drop 8 (pkt_bytes q p') = drop 8 x \<and>
    wf_queue q' \<and> queue_items q' = xs \<and> pktsize q' = pktsize q \<and> pkt_bytes q' = pkt_bytes q"
proof -
  obtain q' p' where rd: "ihk_ikc_read_queue (Some q) (Some p) = Some (0, Some q', Some p')"
    and q': "wf_queue q'" "queue_items q' = xs" "pkt_bytes q p' = x" "pkt_bytes q' = pkt_bytes q"
    using ikcq.rd_item [of q x xs p] assms by (auto simp: receives_on_def)
  have sz: "pktsize q' = pktsize q"
    using rd by (auto simp: ihk_ikc_read_queue_def Let_def split: if_splits)
  have "drop 8 (pkt_bytes q (put64 0 c p')) = drop 8 (pkt_bytes q p')"
    by (auto simp: pkt_bytes_def put64_def drop_map)
  moreover have "(opt OR IKC_NO_NOTIFY) AND IKC_NO_NOTIFY \<noteq> 0"
    by (simp add: IKC_NO_NOTIFY_def bit.conj_disj_distrib2)
  ultimately show ?thesis
    using assms rd q' sz
    by (auto simp: receives_on_def ihk_ikc_recv_def deref_queue_def store_queue_def Let_def
        intro!: exI [of _ q'] exI [of _ "put64 0 c p'"])
qed


section \<open>Draining a channel\<close>

text \<open>
  A handler that accepts every packet of the channel: it returns, appends the packet to the log
  kept beside the IKC state, and leaves the channel's flags, its receive
  queue and its handler alone. It may release packets, send on other channels and
  open or close them.
\<close>

definition logs_packets ::
  "(u64 \<Rightarrow> bytes \<Rightarrow> bytes list ikc_scheme \<Rightarrow> bytes list ikc_scheme option) \<Rightarrow> u64 \<Rightarrow> u64 \<Rightarrow> bool" where
  "logs_packets h c a \<longleftrightarrow>
     (\<forall>p st ch. get64 0 p = c \<longrightarrow> chans st c = Some ch \<longrightarrow>
        (\<exists>st' ch'. h c p st = Some st' \<and> chans st' c = Some ch' \<and>
           flag ch' = flag ch \<and> recv ch' = recv ch \<and> c_handler ch' = c_handler ch \<and>
           qmem st' a = qmem st a \<and> ikc.more st' = ikc.more st @ [p]))"

lemma alloc_packet_ok:
  assumes "receives_on st c a q" and "chans st c = Some ch"
  shows "\<exists>p ps. ihk_ikc_alloc_packet fresh c st = Some (p, upd_chan c (\<lambda>ch. ch\<lparr>packet_pool := ps\<rparr>) st)"
proof (cases "packet_pool ch")
  case Nil
  have "upd_chan c (\<lambda>ch. ch\<lparr>packet_pool := []\<rparr>) st = st"
    using assms(2) Nil by (simp add: upd_chan_def map_upd_triv flip: Nil)
  with assms Nil show ?thesis
    by (intro exI [of _ fresh] exI [of _ "[]"]) (auto simp: receives_on_def ihk_ikc_alloc_packet_def)
next
  case (Cons p ps)
  with assms show ?thesis
    by (auto simp: ihk_ikc_alloc_packet_def)
qed

lemma recv_handler_item:
  assumes ro: "receives_on st c a q" and it: "queue_items q = x # xs"
    and ch: "chans st c = Some ch" and nc: "flag ch AND IKC_FLAG_NO_COPY = 0"
    and h: "logs_packets h c a"
  shows "\<exists>p' q' st' ch'. ihk_ikc_recv_handler fresh (Some c) h 0 st = Some (0, st') \<and>
    receives_on st' c a q' \<and> queue_items q' = xs \<and> pkt_bytes q' = pkt_bytes q \<and>
    chans st' c = Some ch' \<and> flag ch' = flag ch \<and> c_handler ch' = c_handler ch \<and>
    drop 8 (pkt_bytes q p') = drop 8 x \<and> ikc.more st' = ikc.more st @ [p']"
proof -
  from alloc_packet_ok [OF ro ch] obtain p ps where
    al: "ihk_ikc_alloc_packet fresh c st = Some (p, upd_chan c (\<lambda>ch. ch\<lparr>packet_pool := ps\<rparr>) st)"
    by blast
  let ?st1 = "upd_chan c (\<lambda>ch. ch\<lparr>packet_pool := ps\<rparr>) st"
  have "receives_on ?st1 c a q"
    using ro ch by (auto simp: receives_on_def ihk_ikc_channel_enabled_def)
  from recv_item [OF this it, of p 0] obtain q' p' where
    rc: "ihk_ikc_recv (Some c) (Some p) (0 OR IKC_NO_NOTIFY) ?st1 =
      Some (0, Some p', ?st1\<lparr>qmem := (qmem ?st1)(a \<mapsto> q')\<rparr>)"
    and q': "drop 8 (pkt_bytes q p') = drop 8 x" "wf_queue q'" "queue_items q' = xs"
      "pkt_bytes q' = pkt_bytes q" "get64 0 p' = c" by blast
  let ?st2 = "?st1\<lparr>qmem := (qmem ?st1)(a \<mapsto> q')\<rparr>"
  have "chans ?st2 c = Some (ch\<lparr>packet_pool := ps\<rparr>)"
    using ch by simp
  with h q'(5) obtain st3 ch3 where
    hd: "h c p' ?st2 = Some st3" "chans st3 c = Some ch3" "flag ch3 = flag ch" "recv ch3 = recv ch"
      "c_handler ch3 = c_handler ch" "qmem st3 a = Some q'" "ikc.more st3 = ikc.more st @ [p']"
    unfolding logs_packets_def by (fastforce simp: upd_chan_def)
  have "receives_on st3 c a q'"
    using ro ch hd q' by (auto simp: receives_on_def ihk_ikc_channel_enabled_def)
  moreover have "ihk_ikc_recv_handler fresh (Some c) h 0 st = Some (0, st3)"
    using al rc hd nc by (simp add: ihk_ikc_recv_handler_def)
  ultimately show ?thesis
    using hd q' by blast
qed

lemma drain_channel_log:
  assumes "receives_on st c a q" and "chans st c = Some ch"
    and "flag ch AND IKC_FLAG_NO_COPY = 0" and "logs_packets (hs (c_handler ch)) c a"
  shows "\<exists>st' q' ps. drain_channel fresh hs c st = Some st' \<and>
    receives_on st' c a q' \<and> queue_items q' = [] \<and> ikc.more st' = ikc.more st @ ps \<and>
    map (drop 8 \<circ> pkt_bytes q) ps = map (drop 8) (queue_items q)"
  using assms
proof (induction "queue_items q" arbitrary: st q ch)
  case Nil
  then have "ihk_ikc_queue_is_empty (Some q) \<noteq> 0"
    using read_empty_off [of q] by (simp add: receives_on_def ihk_ikc_queue_is_empty_def)
  with Nil.prems Nil.hyps show ?case
    by (auto simp: drain_channel.simps [of fresh hs c st] receives_on_def deref_queue_def)
next
  case (Cons x xs)
  from recv_handler_item [OF Cons.prems(1) Cons.hyps(2) [symmetric] Cons.prems(2-4), of fresh]
  obtain p' q' st' ch' where
    st': "ihk_ikc_recv_handler fresh (Some c) (hs (c_handler ch)) 0 st = Some (0, st')"
      "receives_on st' c a q'" "queue_items q' = xs" "pkt_bytes q' = pkt_bytes q"
      "chans st' c = Some ch'" "flag ch' = flag ch" "c_handler ch' = c_handler ch"
      "drop 8 (pkt_bytes q p') = drop 8 x" "ikc.more st' = ikc.more st @ [p']" by blast
  from Cons.hyps(1) [OF st'(3) [symmetric] st'(2,5)] Cons.prems st' obtain st'' q'' ps where
    rest: "drain_channel fresh hs c st' = Some st''" "receives_on st'' c a q''" "queue_items q'' = []"
      "ikc.more st'' = ikc.more st' @ ps" "map (drop 8 \<circ> pkt_bytes q') ps = map (drop 8) xs"
    by auto
  have "ihk_ikc_queue_is_empty (Some q) = 0"
    using Cons.hyps(2) by (auto simp: ihk_ikc_queue_is_empty_def queue_items_def)
  then have "drain_channel fresh hs c st = Some st''"
    using Cons.prems st' rest
    by (auto simp: drain_channel.simps [of fresh hs c st] receives_on_def deref_queue_def)
  with rest st' Cons.hyps(2) show ?case
    by (intro exI [of _ st''] exI [of _ q''] exI [of _ "p' # ps"]) (simp flip: Cons.hyps(2))
qed

section \<open>Blocks of queue pages\<close>

text \<open>
  The block that \<open>ihk_ikc_alloc_queue\<close> gets for \<open>qpages\<close> pages never has
  more than \<open>qpages\<close> pages, and has all of them only when \<open>qpages\<close> is a power of two:
  the order is rounded down, so a queue of any other size is laid out past the end
  of its memory.
\<close>

theorem alloc_queue_rounds_down:
  assumes "0 < qpages"
  shows "2 ^ nat (alloc_queue_order qpages) \<le> qpages \<and>
    (2 ^ nat (alloc_queue_order qpages) = qpages \<longleftrightarrow> (\<exists>k. qpages = 2 ^ k))"
proof -
  have o: "nat (alloc_queue_order qpages) = fls qpages - 1"
    by (simp add: alloc_queue_order_def nat_diff_distrib)
  moreover have "fls (2 ^ k) = Suc k" for k
    by (rule fls_unique) simp_all
  ultimately show ?thesis
    using fls_bounds [OF assms] by (metis diff_Suc_1)
qed

theorem alloc_queue_rounds_down_witness:
  "(0 :: nat) < 3 \<and> 2 ^ nat (alloc_queue_order 3) \<noteq> (3 :: nat)"
proof -
  have "\<not> (\<exists>k. 3 = (2 :: nat) ^ k)"
  proof
    assume "\<exists>k. 3 = (2 :: nat) ^ k"
    then obtain k where "3 = (2 :: nat) ^ k" by blast
    then show False by (cases k) (auto, presburger)
  qed
  with alloc_queue_rounds_down [of 3] show ?thesis by simp
qed



section \<open>Properties of sending and reception\<close>

lemma not_full_slack: "wf_queue q \<Longrightarrow> \<not> queue_full q \<Longrightarrow> write_off q \<noteq> - 1 \<Longrightarrow> 0 < queue_slack q"
  using unat_bound [of "write_off q"]
  by (auto simp: queue_slack_def queue_full_def wf_queue_def unat_max_word word_unat_eq_iff)

text \<open>
  Property C18. Sending on an enabled channel always returns. A full queue gives \<open>-EBUSY\<close>
  after the retries, with queue and state unchanged and no interrupt; otherwise the
  packet is appended to the send queue, nothing else changes, and the CPU that reads
  that queue gets one interrupt unless the caller asked for none.
\<close>

theorem send_spec:
  assumes "sends_on st c a q" and "write_off q \<noteq> - 1"
  shows "if queue_full q then ihk_ikc_send (Some c) (Some p) opt st = Some (err EBUSY, st)
    else \<exists>q'. ihk_ikc_send (Some c) (Some p) opt st =
        Some (0, st\<lparr>qmem := (qmem st)(a \<mapsto> q'),
          irqs := irqs st @ (if opt AND IKC_NO_NOTIFY = 0 then [read_cpu q] else [])\<rparr>) \<and>
      wf_queue q' \<and> queue_items q' = queue_items q @ [pkt_bytes q p]"
proof (cases "queue_full q")
  case True
  with send_loop_full [OF assms(1)] show ?thesis
    by (simp add: ihk_ikc_send_def)
next
  case False
  with assms have "0 < queue_slack q"
    by (intro not_full_slack) (auto simp: sends_on_def)
  with False assms send_room [OF assms(1) this, of p opt] written_wf [of q p] show ?thesis
    by (auto simp: sends_on_def)
qed

text \<open>One enabled channel over one empty queue, for the concrete instances.\<close>

definition demo_ring :: ikc_queue where
  "demo_ring = (zero_head undefined)\<lparr>pktsize := 56, pktcount := 4, read_cpu := 5\<rparr>"

definition demo_chan :: ihk_ikc_channel_desc where
  "demo_chan = zero_channel_desc\<lparr>flag := IKC_FLAG_ENABLED, c_handler := Some 0,
     recv := zero_queue_desc\<lparr>qd_queue := Some 4096\<rparr>, send := zero_queue_desc\<lparr>qd_queue := Some 8192\<rparr>\<rparr>"

definition demo_ikc :: "'a \<Rightarrow> 'a ikc_scheme" where
  "demo_ikc x = \<lparr>qmem = [4096 \<mapsto> demo_ring, 8192 \<mapsto> demo_ring], chans = [256 \<mapsto> demo_chan],
     ikc_channels = [256], channel_ctr = 1, mchannel = None, regular_channels = [None, Some 256],
     listeners = replicate 512 None, wait_list = [], irqs = [], \<dots> = x\<rparr>"

lemma demo_ring_wf: "wf_queue demo_ring" "queue_items demo_ring = []" "\<not> queue_full demo_ring"
  "write_off demo_ring = 0" "read_cpu demo_ring = 5" "0 < queue_slack demo_ring"
  by (simp_all add: demo_ring_def wf_queue_def queue_items_def queue_full_def zero_head_def
      queue_slack_def)

theorem send_spec_witness:
  "\<exists>q'. ihk_ikc_send (Some 256) (Some (\<lambda>_. 1)) 0 (demo_ikc ()) =
      Some (0, (demo_ikc ())\<lparr>qmem := (qmem (demo_ikc ()))(8192 \<mapsto> q'), irqs := [5]\<rparr>) \<and>
    wf_queue q' \<and> queue_items q' = [pkt_bytes demo_ring (\<lambda>_. 1)]"
proof -
  have "sends_on (demo_ikc ()) 256 8192 demo_ring"
    by (simp add: sends_on_def demo_ikc_def demo_chan_def zero_channel_desc_def zero_queue_desc_def
        ihk_ikc_channel_enabled_def ikc_flag_defs demo_ring_wf)
  from send_spec [OF this, of "\<lambda>_. 1" 0] show ?thesis
    by (simp add: demo_ring_wf) (simp add: demo_ikc_def)
qed

text \<open>
  Property C17. The interrupt handler on a CPU other than 0 drains the regular channel of
  that CPU: with a handler that accepts packets it returns, has called the handler
  once for every pending packet, in the order they were written, with the packet's
  bytes (behind the header, which now names the channel), and leaves the queue empty.
\<close>

theorem reception_drains:
  assumes "cpu \<noteq> 0" and "ihk_os_get_regular_channel cpu st = Some (Some c)"
    and "receives_on st c a q" and "chans st c = Some ch"
    and "flag ch AND IKC_FLAG_NO_COPY = 0" and "logs_packets (hs (c_handler ch)) c a"
  shows "\<exists>st' q' ps. ihk_ikc_reception_handler fresh hs cpu st = Some st' \<and>
    qmem st' a = Some q' \<and> queue_items q' = [] \<and> ikc.more st' = ikc.more st @ ps \<and>
    map (drop 8 \<circ> pkt_bytes q) ps = map (drop 8) (queue_items q)"
  using assms drain_channel_log [where hs = hs, OF assms(3-6), of fresh]
  by (auto simp: ihk_ikc_reception_handler_def receives_on_def)

text \<open>A handler that logs the packet and releases it.\<close>

definition log_handler ::
  "u64 \<Rightarrow> bytes \<Rightarrow> bytes list ikc_scheme \<Rightarrow> bytes list ikc_scheme option" where
  "log_handler c p st = ihk_ikc_release_packet (Some p) (ikc.more_update (\<lambda>l. l @ [p]) st)"


lemma log_handler_ok: "logs_packets log_handler c a"
  unfolding logs_packets_def
proof (intro allI impI)
  fix p :: bytes and st :: "bytes list ikc_scheme" and ch
  assume "get64 0 p = c" and "chans st c = Some ch"
  then show "\<exists>st' ch'. log_handler c p st = Some st' \<and> chans st' c = Some ch' \<and>
      flag ch' = flag ch \<and> recv ch' = recv ch \<and> c_handler ch' = c_handler ch \<and>
      qmem st' a = qmem st a \<and> ikc.more st' = ikc.more st @ [p]"
    by (auto simp: log_handler_def ihk_ikc_release_packet_def Let_def upd_chan_def)
qed

definition demo_pending :: "bytes list ikc_scheme" where
  "demo_pending = (demo_ikc [])\<lparr>qmem := [4096 \<mapsto> written demo_ring (\<lambda>_. 7), 8192 \<mapsto> demo_ring]\<rparr>"

theorem reception_drains_witness:
  "\<exists>st' ps. ihk_ikc_reception_handler (\<lambda>_. 0) (\<lambda>_. log_handler) 1 demo_pending = Some st' \<and>
     ikc.more st' = ps \<and> map (drop 8 \<circ> pkt_bytes demo_ring) ps = [replicate 48 7]"
proof -
  let ?q = "written demo_ring (\<lambda>_. 7)"
  note q = written_wf [OF demo_ring_wf(1,6), of "\<lambda>_. 7"]
  have "receives_on demo_pending 256 4096 ?q"
    using q by (simp add: receives_on_def demo_pending_def demo_ikc_def demo_chan_def zero_channel_desc_def
        zero_queue_desc_def ihk_ikc_channel_enabled_def ikc_flag_defs)
  moreover have "chans demo_pending 256 = Some demo_chan" and "ihk_os_get_regular_channel 1 demo_pending = Some (Some 256)"
    by (simp_all add: demo_pending_def demo_ikc_def ihk_os_get_regular_channel_def)
  moreover have "flag demo_chan AND IKC_FLAG_NO_COPY = 0"
    by (simp add: demo_chan_def ikc_flag_defs zero_channel_desc_def)
  moreover have "pkt_len demo_ring = 56"
    by (simp add: pkt_len_def demo_ring_def zero_head_def)
  then have "map (drop 8) (queue_items ?q) = [replicate 48 7]"
    using q by (simp add: demo_ring_wf pkt_bytes_def map_replicate_const)
  ultimately show ?thesis
    using reception_drains [of 1 demo_pending 256 4096 ?q demo_chan "\<lambda>_. log_handler" "\<lambda>_. 0"]
    by (auto simp: log_handler_ok) (simp add: demo_pending_def demo_ikc_def)
qed

end
