(* ===== verification/Ikc_Master.thy ===== *)
theory Ikc_Master
  imports Ikc_Channel
begin

text \<open>
  The master channel protocol of \<^verbatim>\<open>ikc/master.c\<close>: listening on ports, connecting and
  accepting, disconnecting, and the packet handler that drives them. Both kernels run
  this code. A call that sleeps until the peer has answered takes what happens
  meanwhile as an argument \<open>wait\<close>: it maps the state at the start of the wait to the result
  of \<open>wait_event_interruptible\<close> and the state at its end.

  The lemmas follow a connection through both kernels: the request, the accepting side,
  the reply, and the disconnection handshake.
\<close>

section \<open>Messages\<close>

definition IHK_IKC_MAX_PORT :: int where "IHK_IKC_MAX_PORT = 512"

definition MSG_CONNECT :: u32 where "MSG_CONNECT = 0x20000001"
definition MSG_CONNECT_REPLY :: u32 where "MSG_CONNECT_REPLY = 0x20000002"
definition MSG_DISCONNECT :: u32 where "MSG_DISCONNECT = 0x20000008"
definition MSG_PACKET_ON_CHANNEL :: u32 where "MSG_PACKET_ON_CHANNEL = 0x20000010"

lemmas msg_defs = MSG_CONNECT_def MSG_CONNECT_REPLY_def MSG_DISCONNECT_def MSG_PACKET_ON_CHANNEL_def

section \<open>Listening\<close>

definition ihk_ikc_listen_port ::
  "ihk_ikc_listen_param option \<Rightarrow> 'a ikc_scheme \<Rightarrow> int \<times> 'a ikc_scheme" where
  "ihk_ikc_listen_port param st =
     (case param of
        None \<Rightarrow> (err EINVAL, st)
      | Some p \<Rightarrow>
          let prt = sint (lp_port p) in
          if prt < 0 \<or> prt \<ge> IHK_IKC_MAX_PORT then (err EINVAL, st)
          else if listeners st ! nat prt \<noteq> None then (err EBUSY, st)
          else (0, st\<lparr>listeners := (listeners st)[nat prt := Some p]\<rparr>))"

section \<open>Sending on the master channel\<close>

text \<open>\<open>g\<close> is what the stack memory of the packet variable holds: the header is not assigned.\<close>

definition master_packet ::
  "bytes \<Rightarrow> u32 \<Rightarrow> u32 \<Rightarrow> u64 \<Rightarrow> u64 \<Rightarrow> u64 \<Rightarrow> u64 \<Rightarrow> u64 \<Rightarrow> ihk_ikc_master_packet" where
  "master_packet g msg ref a1 a2 a3 a4 a5 = \<lparr>pkt_channel = get64 0 g, pkt_msg = msg, pkt_ref = ref,
     param0 = a1, param1 = a2, param2 = a3, param3 = a4, param4 = a5\<rparr>"

definition ihk_ikc_master_send ::
  "bytes \<Rightarrow> u32 \<Rightarrow> u32 \<Rightarrow> u64 \<Rightarrow> u64 \<Rightarrow> u64 \<Rightarrow> u64 \<Rightarrow> u64 \<Rightarrow>
   'a ikc_scheme \<Rightarrow> (int \<times> 'a ikc_scheme) option" where
  "ihk_ikc_master_send g msg ref a1 a2 a3 a4 a5 st =
     ihk_ikc_send (mchannel st) (Some (packet_to_mem (master_packet g msg ref a1 a2 a3 a4 a5) g)) 0 st"

section \<open>Accepting\<close>

text \<open>
  The result is the return value, the new channel, \<open>*rq\<close> and the state. Widening an
  \<open>int\<close> field to \<open>unsigned long\<close> extends its sign.
\<close>

definition ihk_ikc_accept ::
  "chan_env \<Rightarrow> ihk_ikc_listen_param option \<Rightarrow> u64 \<Rightarrow> u64 \<Rightarrow> u64 \<Rightarrow> u64 \<Rightarrow> u32 \<Rightarrow> u32 \<Rightarrow>
   'a ikc_scheme \<Rightarrow> (int \<times> u64 option \<times> u64 \<times> 'a ikc_scheme) option" where
  "ihk_ikc_accept env pp packet_size rq sq rva magic icpu st =
     (case pp of
        None \<Rightarrow> Some (err ECONNREFUSED, None, rq, st)
      | Some p \<Rightarrow>
          (case lp_handler p of
             None \<Rightarrow> Some (err ECONNREFUSED, None, rq, st)
           | Some h \<Rightarrow>
               if lp_magic p \<noteq> magic then Some (err ECONNREFUSED, None, rq, st)
               else if packet_size \<noteq> scast (lp_pkt_size p) then Some (err ECONNABORTED, None, rq, st)
               else do {
                 (cp, rq', st) \<leftarrow> ihk_ikc_create_channel env (lp_port p) (lp_pkt_size p)
                    (scast (lp_queue_size p)) rq sq 0 st;
                 (case cp of
                    None \<Rightarrow> Some (err ENOMEM, None, rq', st)
                  | Some c \<Rightarrow> do {
                      st \<leftarrow> (if lp_direction p = IHK_IKC_DIRECTION_RECV then do {
                                st \<leftarrow> ihk_ikc_channel_set_cpu c icpu st;
                                ihk_os_set_regular_channel (Some c) (sint icpu) st
                              } else Some st);
                      let (r, ph) = h c;
                      if r \<noteq> 0
                      then map_option (\<lambda>st. (r, None, rq', st)) (ihk_ikc_free_channel c st)
                      else Some (0, Some c, rq', upd_chan c
                             (\<lambda>ch. ch\<lparr>c_handler := ph, remote_channel_va := rva\<rparr>) st)
                    })
               }))"

section \<open>Waiting for replies\<close>

definition zero_packet :: ihk_ikc_master_packet where
  "zero_packet = \<lparr>pkt_channel = 0, pkt_msg = 0, pkt_ref = 0, param0 = 0, param1 = 0, param2 = 0,
     param3 = 0, param4 = 0\<rparr>"

text \<open>A wait structure is a stack variable of the waiting call, named by \<open>w\<close>.\<close>

definition ihk_ikc_wait_reply_prepare :: "nat \<Rightarrow> u32 \<Rightarrow> u32 \<Rightarrow> 'a ikc_scheme \<Rightarrow> 'a ikc_scheme" where
  "ihk_ikc_wait_reply_prepare w msg ref st =
     st\<lparr>wait_list := wait_list st @
       [\<lparr>ws_id = w, ws_status = 0, ws_msg = msg, ws_ref = ref, ws_res = zero_packet\<rparr>]\<rparr>"

definition ihk_ikc_wait_finish :: "nat \<Rightarrow> 'a ikc_scheme \<Rightarrow> 'a ikc_scheme" where
  "ihk_ikc_wait_finish w st = st\<lparr>wait_list := filter (\<lambda>ws. ws_id ws \<noteq> w) (wait_list st)\<rparr>"

definition ihk_ikc_master_reply_handler ::
  "ihk_ikc_master_packet \<Rightarrow> 'a ikc_scheme \<Rightarrow> int \<times> 'a ikc_scheme" where
  "ihk_ikc_master_reply_handler packet st =
     (0, st\<lparr>wait_list := map (\<lambda>ws.
        if ws_msg ws = pkt_msg packet \<and> ws_ref ws = pkt_ref packet
        then ws\<lparr>ws_res := packet, ws_status := 1\<rparr> else ws) (wait_list st)\<rparr>)"

fun find_wait :: "nat \<Rightarrow> ihk_ikc_master_wait_struct list \<Rightarrow> ihk_ikc_master_wait_struct option" where
  "find_wait w [] = None"
| "find_wait w (x # xs) = (if ws_id x = w then Some x else find_wait w xs)"

section \<open>Connecting\<close>

record ihk_ikc_connect_param =
  cp_port :: u32
  cp_pkt_size :: u32
  cp_queue_size :: u32
  cp_magic :: u32
  cp_intr_cpu :: u32
  cp_handler :: "nat option"

text \<open>\<open>return -wq.res.param[0]\<close>: the negated 64-bit parameter, truncated to an \<open>int\<close>.\<close>

definition connect_error :: "ihk_ikc_master_packet \<Rightarrow> int" where
  "connect_error packet = sint (ucast (- param0 packet) :: u32)"

text \<open>The new channel is stored to \<open>p->channel\<close>: here it is the second result.\<close>

definition ihk_ikc_connect ::
  "chan_env \<Rightarrow> bytes \<Rightarrow> nat \<Rightarrow> ('a ikc_scheme \<Rightarrow> (int \<times> 'a ikc_scheme) option) \<Rightarrow>
   ihk_ikc_connect_param option \<Rightarrow> 'a ikc_scheme \<Rightarrow> (int \<times> u64 option \<times> 'a ikc_scheme) option" where
  "ihk_ikc_connect env g w wait pp st =
     (case pp of
        None \<Rightarrow> Some (err EINVAL, None, st)
      | Some p \<Rightarrow> do {
          (cp, rq, st) \<leftarrow> ihk_ikc_create_channel env (cp_port p) (cp_pkt_size p)
             (scast (cp_queue_size p)) 0 0 0 st;
          (case cp of
             None \<Rightarrow> Some (err ENOMEM, None, st)
           | Some c \<Rightarrow> do {
               ch \<leftarrow> chans st c;
               let ref = channel_id ch;
               let st = ihk_ikc_wait_reply_prepare w MSG_CONNECT_REPLY ref st;
               (r, st) \<leftarrow> ihk_ikc_master_send g MSG_CONNECT ref
                  (push_bit 32 (scast (cp_pkt_size p)) OR scast (cp_port p)) 0 rq c
                  (push_bit 32 (scast (cp_intr_cpu p)) OR scast (cp_magic p)) st;
               if r = 0 then do {
                 (ret, st) \<leftarrow> wait st;
                 ws \<leftarrow> find_wait w (wait_list st);
                 let st = ihk_ikc_wait_finish w st;
                 if ret \<noteq> 0 then
                   map_option (\<lambda>st. (err EINTR, None, st)) (ihk_ikc_free_channel c st)
                 else if param0 (ws_res ws) \<noteq> 0 then
                   map_option (\<lambda>st. (connect_error (ws_res ws), None, st))
                     (ihk_ikc_free_channel c st)
                 else do {
                   ch \<leftarrow> chans st c;
                   qd \<leftarrow> ihk_ikc_set_remote_queue (send ch) (param1 (ws_res ws)) st;
                   a \<leftarrow> qd_queue (recv ch);
                   rqu \<leftarrow> qmem st a;
                   let st = upd_chan c (\<lambda>ch. ch\<lparr>send := qd\<lparr>intr_cpu := cp_intr_cpu p\<rparr>,
                      remote_channel_id := q_channel_id (qd_cache qd),
                      remote_channel_va := param3 (ws_res ws), c_handler := cp_handler p\<rparr>) st;
                   s \<leftarrow> qd_queue qd;
                   let st = upd_queue s (\<lambda>q. q\<lparr>write_cpu := read_cpu rqu\<rparr>) st;
                   Some (0, Some c, ihk_ikc_enable_channel c st)
                 }
               } else
                 map_option (\<lambda>st. (err EBUSY, None, st))
                   (ihk_ikc_free_channel c (ihk_ikc_wait_finish w st))
             })
        })"

section \<open>Disconnecting\<close>

definition ihk_send_disconnect :: "bytes \<Rightarrow> u64 \<Rightarrow> 'a ikc_scheme \<Rightarrow> (int \<times> 'a ikc_scheme) option" where
  "ihk_send_disconnect g c st = do {
     ch \<leftarrow> chans st c;
     ihk_ikc_master_send g MSG_DISCONNECT (remote_channel_id ch) (ucast (channel_id ch)) 0 0
       (remote_channel_va ch) 0 st
   }"

definition ihk_wait_for_disconnect_ack ::
  "bytes \<Rightarrow> nat \<Rightarrow> ('a ikc_scheme \<Rightarrow> (int \<times> 'a ikc_scheme) option) \<Rightarrow> u64 \<Rightarrow>
   'a ikc_scheme \<Rightarrow> (int \<times> 'a ikc_scheme) option" where
  "ihk_wait_for_disconnect_ack g w wait c st = do {
     ch \<leftarrow> chans st c;
     let st = ihk_ikc_wait_reply_prepare w MSG_DISCONNECT (channel_id ch) st;
     (r, st) \<leftarrow> ihk_send_disconnect g c st;
     if r \<noteq> 0 then Some (err EBUSY, ihk_ikc_wait_finish w st)
     else do {
       ch \<leftarrow> chans st c;
       (ret, st) \<leftarrow> (if flag ch AND IKC_FLAG_DESTROY_ACKED = 0 then wait st else Some (0, st));
       Some (ret, ihk_ikc_wait_finish w st)
     }
   }"

definition ihk_ikc_disconnect ::
  "bytes \<Rightarrow> nat \<Rightarrow> ('a ikc_scheme \<Rightarrow> (int \<times> 'a ikc_scheme) option) \<Rightarrow> u64 option \<Rightarrow>
   'a ikc_scheme \<Rightarrow> (int \<times> 'a ikc_scheme) option" where
  "ihk_ikc_disconnect g w wait cp st =
     (case cp of
        None \<Rightarrow> Some (err EINVAL, st)
      | Some c \<Rightarrow> do {
          ch \<leftarrow> chans st c;
          let fl = flag ch AND NOT IKC_FLAG_ENABLED;
          if fl AND IKC_FLAG_DESTROYING \<noteq> 0 then
            Some (err EBUSY, upd_chan c (\<lambda>ch. ch\<lparr>flag := fl\<rparr>) st)
          else do {
            let fl = fl OR IKC_FLAG_DESTROYING;
            let st = upd_chan c (\<lambda>ch. ch\<lparr>flag := fl\<rparr>) st;
            if fl AND IKC_FLAG_DESTROY_ACKED = 0 then ihk_wait_for_disconnect_ack g w wait c st
            else ihk_send_disconnect g c st
          }
        })"

section \<open>The master packet handler\<close>

text \<open>
  \<open>m\<close> is the channel the packet came on, \<open>hs\<close> gives the packet handlers. The wait of a
  disconnection that the peer started is never entered, since the channel is
  already marked acknowledged.
\<close>

definition handle_packet_on_channel ::
  "bytes \<Rightarrow> (nat option \<Rightarrow> u64 \<Rightarrow> bytes \<Rightarrow> 'a ikc_scheme \<Rightarrow> 'a ikc_scheme option) \<Rightarrow>
   ihk_ikc_master_packet \<Rightarrow> 'a ikc_scheme \<Rightarrow> (int \<times> 'a ikc_scheme) option" where
  "handle_packet_on_channel fresh hs packet st =
     (if param3 packet = 0 then Some (err ENOENT, st)
      else do {
        ch \<leftarrow> chans st (param3 packet);
        qp \<leftarrow> (if ihk_ikc_channel_enabled ch then deref_queue st (qd_queue (recv ch)) else Some None);
        if ihk_ikc_channel_enabled ch \<and> ihk_ikc_queue_is_empty qp = 0 then
          map_option (\<lambda>(_, st). (0, st))
            (ihk_ikc_recv_handler fresh (Some (param3 packet)) (hs (c_handler ch)) 0 st)
        else Some (0, st)
      })"

definition handle_connect ::
  "chan_env \<Rightarrow> bytes \<Rightarrow> ihk_ikc_master_packet \<Rightarrow> 'a ikc_scheme \<Rightarrow> (int \<times> 'a ikc_scheme) option" where
  "handle_connect env g packet st =
     (let prt = sint (ucast (param0 packet AND 0xffffffff) :: u32) in do {
        (r, newc, rq, st) \<leftarrow>
          (if prt < 0 \<or> prt \<ge> IHK_IKC_MAX_PORT then Some (errno_code EINVAL, None, 0, st)
           else ihk_ikc_accept env (listeners st ! nat prt) (drop_bit 32 (param0 packet))
              (param1 packet) (param2 packet) (param3 packet) (ucast (param4 packet))
              (ucast (drop_bit 32 (param4 packet))) st);
        if r \<noteq> 0 then do {
          (_, st) \<leftarrow> ihk_ikc_master_send g MSG_CONNECT_REPLY (pkt_ref packet)
             (of_int (- r)) 0 0 0 0 st;
          Some (0, st)
        } else do {
          c \<leftarrow> newc;
          _ \<leftarrow> chans st c;
          let st = upd_chan c (\<lambda>ch. ch\<lparr>remote_channel_id := pkt_ref packet\<rparr>) st;
          let st = ihk_ikc_enable_channel c st;
          (_, st) \<leftarrow> ihk_ikc_master_send g MSG_CONNECT_REPLY (pkt_ref packet) 0 rq
             (param3 packet) c 0 st;
          Some (0, st)
        }
      })"

definition handle_disconnect ::
  "bytes \<Rightarrow> ihk_ikc_master_packet \<Rightarrow> 'a ikc_scheme \<Rightarrow> (int \<times> 'a ikc_scheme) option" where
  "handle_disconnect g packet st =
     (let c = param3 packet in
      if c = 0 then Some (err ENOENT, st)
      else do {
        ch \<leftarrow> chans st c;
        let st = upd_chan c (\<lambda>ch. ch\<lparr>flag := flag ch OR IKC_FLAG_DESTROY_ACKED\<rparr>) st;
        (_, st) \<leftarrow> (if flag ch AND IKC_FLAG_DESTROYING = 0
                    then ihk_ikc_disconnect g 0 (\<lambda>_. None) (Some c) st else Some (0, st));
        Some (ihk_ikc_master_reply_handler packet st)
      })"

definition ihk_ikc_master_channel_packet_handler ::
  "chan_env \<Rightarrow> bytes \<Rightarrow> bytes \<Rightarrow>
   (nat option \<Rightarrow> u64 \<Rightarrow> bytes \<Rightarrow> 'a ikc_scheme \<Rightarrow> 'a ikc_scheme option) \<Rightarrow>
   (ihk_ikc_master_packet \<Rightarrow> 'a ikc_scheme \<Rightarrow> (int \<times> 'a ikc_scheme) option) \<Rightarrow>
   u64 option \<Rightarrow> bytes option \<Rightarrow> 'a ikc_scheme \<Rightarrow> (int \<times> 'a ikc_scheme) option" where
  "ihk_ikc_master_channel_packet_handler env g fresh hs arch cm pkt st =
     (case (cm, pkt) of
        (Some m, Some p) \<Rightarrow> do {
          let packet = packet_of_mem p;
          (ret, st) \<leftarrow>
            (if pkt_msg packet = MSG_PACKET_ON_CHANNEL then handle_packet_on_channel fresh hs packet st
             else if pkt_msg packet = MSG_CONNECT then handle_connect env g packet st
             else if pkt_msg packet = MSG_CONNECT_REPLY
               then Some (ihk_ikc_master_reply_handler packet st)
             else if pkt_msg packet = MSG_DISCONNECT then handle_disconnect g packet st
             else arch packet st);
          map_option (Pair ret) (ihk_ikc_release_packet (Some p) st)
        }
      | _ \<Rightarrow> Some (err EINVAL, st))"

section \<open>New channels\<close>

lemma queue_frame [simp]:
  "wf_queue (q\<lparr>q_channel_id := i\<rparr>) = wf_queue q"
  "wf_queue (q\<lparr>read_cpu := i\<rparr>) = wf_queue q"
  "wf_queue (q\<lparr>write_cpu := i\<rparr>) = wf_queue q"
  "queue_items (q\<lparr>q_channel_id := i\<rparr>) = queue_items q"
  "queue_items (q\<lparr>read_cpu := i\<rparr>) = queue_items q"
  "queue_items (q\<lparr>write_cpu := i\<rparr>) = queue_items q"
  "queue_slack (q\<lparr>q_channel_id := i\<rparr>) = queue_slack q"
  "queue_slack (q\<lparr>read_cpu := i\<rparr>) = queue_slack q"
  "queue_slack (q\<lparr>write_cpu := i\<rparr>) = queue_slack q"
  by (simp_all add: wf_queue_def queue_items_def queue_slack_def slot_bytes_def slot_base_def
      pkt_len_def fun_eq_iff cong: map_cong)

text \<open>Packet and queue sizes with which a queue holds at least one packet.\<close>

definition queue_args_ok :: "u32 \<Rightarrow> u64 \<Rightarrow> bool" where
  "queue_args_ok ps qsize \<longleftrightarrow>
     (let sz = unat (ucast PAGE_SIZE * queue_pages qsize :: u32) in
      0 < unat ps \<and> unat ps < 2 ^ 16 \<and> 64 + 2 * unat ps \<le> sz \<and> sz < 2 ^ 31)"

lemma init_queue_empty:
  assumes "queue_args_ok ps qsize"
  shows "\<exists>q. ihk_ikc_init_queue (Some q0) i t (ucast PAGE_SIZE * queue_pages qsize) ps = Some (0, Some q) \<and>
    wf_queue q \<and> queue_items q = [] \<and> unat (pktsize q) = unat ps \<and> 0 < queue_slack q"
proof -
  let ?sz = "ucast PAGE_SIZE * queue_pages qsize :: u32"
  have sz: "0 < unat ps" "unat ps < 2 ^ 16" "64 + 2 * unat ps \<le> unat ?sz" "unat ?sz < 2 ^ 31"
    using assms by (auto simp: queue_args_ok_def Let_def)
  then have "64 + unat ps \<le> unat ?sz" by linarith
  from init_queue_ok [OF sz(1,2) this sz(4), of q0 i t] obtain q where
    q: "ihk_ikc_init_queue (Some q0) i t ?sz ps = Some (0, Some q)" "unat (pktsize q) = unat ps"
      "unat (pktcount q) = (unat ?sz - 64) div unat ps"
      "read_off q = 0" "max_read_off q = 0" "write_off q = 0" by blast
  have "2 * unat ps \<le> unat ?sz - 64"
    using sz(3) by linarith
  then have "2 \<le> unat (pktcount q)"
    unfolding q(3) using sz(1) by (metis div_le_mono nonzero_mult_div_cancel_right not_gr_zero)
  moreover from this have "pktcount q \<noteq> 0" by auto
  ultimately have "wf_queue q \<and> queue_items q = [] \<and> 0 < queue_slack q"
    using q by (simp add: wf_queue_def queue_items_def queue_slack_def)
  with q show ?thesis by blast
qed

text \<open>The two shapes of a queue descriptor: own memory, and memory of the other kernel.\<close>

definition local_desc :: "u64 \<Rightarrow> ikc_queue \<Rightarrow> ihk_ikc_queue_desc" where
  "local_desc a q = \<lparr>qd_queue = Some a, qd_cache = head_of q, qrphys = 0, qphys = a, intr_cpu = 0\<rparr>"

definition mapped_desc :: "u64 \<Rightarrow> ikc_queue \<Rightarrow> ihk_ikc_queue_desc" where
  "mapped_desc a q = \<lparr>qd_queue = Some a, qd_cache = head_of q, qrphys = a, qphys = a, intr_cpu = 0\<rparr>"

lemma create_channel_local:
  assumes "queue_args_ok ps qsize" and "new_desc env = Some c" and "new_queue env = Some (a, q0)"
  shows "\<exists>q. ihk_ikc_create_channel env prt ps qsize 0 0 0 st =
      Some (Some c, a, st\<lparr>channel_ctr := channel_ctr st + 1, qmem := (qmem st)(a \<mapsto> q),
        chans := (chans st)(c \<mapsto> zero_channel_desc\<lparr>c_port := prt, channel_id := channel_ctr st + 1,
          recv := local_desc a q, c_master := mchannel st\<rparr>),
        ikc_channels := ikc_channels st @ [c]\<rparr>) \<and>
    wf_queue q \<and> queue_items q = [] \<and> unat (pktsize q) = unat ps \<and>
    q_channel_id q = channel_ctr st + 1 \<and> read_cpu q = cpu_id env \<and> 0 < queue_slack q"
proof -
  from init_queue_empty [OF assms(1), of q0 1 prt] obtain q where
    q: "ihk_ikc_init_queue (Some q0) 1 prt (ucast PAGE_SIZE * queue_pages qsize) ps = Some (0, Some q)"
      "wf_queue q" "queue_items q = []" "unat (pktsize q) = unat ps" "0 < queue_slack q" by blast
  show ?thesis
    using assms(2,3) q
    by (intro exI [of _ "q\<lparr>q_channel_id := channel_ctr st + 1, read_cpu := cpu_id env\<rparr>"])
      (simp add: ihk_ikc_create_channel_def ihk_ikc_init_desc_def upd_chan_def upd_queue_def
        zero_channel_desc_def zero_queue_desc_def local_desc_def Let_def)
qed

lemma create_channel_mapped:
  assumes "queue_args_ok ps qsize" and "new_desc env = Some c" and "new_queue env = Some (a, q0)"
    and "sq \<noteq> 0" and "sq \<noteq> a" and "qmem st sq = Some qs"
  shows "\<exists>q. ihk_ikc_create_channel env prt ps qsize 0 sq 0 st =
      Some (Some c, a, st\<lparr>channel_ctr := channel_ctr st + 1,
        qmem := (qmem st)(a \<mapsto> q, sq \<mapsto> qs\<lparr>write_cpu := cpu_id env\<rparr>),
        chans := (chans st)(c \<mapsto> zero_channel_desc\<lparr>c_port := prt, channel_id := channel_ctr st + 1,
          recv := local_desc a q, send := mapped_desc sq (qs\<lparr>write_cpu := cpu_id env\<rparr>),
          c_master := mchannel st\<rparr>),
        ikc_channels := ikc_channels st @ [c]\<rparr>) \<and>
    wf_queue q \<and> queue_items q = [] \<and> unat (pktsize q) = unat ps \<and>
    q_channel_id q = channel_ctr st + 1 \<and> read_cpu q = cpu_id env \<and> 0 < queue_slack q"
proof -
  from init_queue_empty [OF assms(1), of q0 1 prt] obtain q where
    q: "ihk_ikc_init_queue (Some q0) 1 prt (ucast PAGE_SIZE * queue_pages qsize) ps = Some (0, Some q)"
      "wf_queue q" "queue_items q = []" "unat (pktsize q) = unat ps" "0 < queue_slack q" by blast
  show ?thesis
    using assms(2-) q
    by (intro exI [of _ "q\<lparr>q_channel_id := channel_ctr st + 1, read_cpu := cpu_id env\<rparr>"])
      (simp add: ihk_ikc_create_channel_def ihk_ikc_init_desc_def upd_chan_def upd_queue_def
        zero_channel_desc_def zero_queue_desc_def local_desc_def mapped_desc_def Let_def
        smp_ihk_os_map_memory_def fun_upd_twist)
qed

section \<open>Message fields\<close>

lemma scast_nonneg:
  assumes "unat (w :: u32) < 2 ^ 31"
  shows "(scast w :: u64) = ucast w"
  using unat_scast_nonneg [OF assms] by (simp add: word_unat_eq_iff)

text \<open>Two nonnegative ints packed into one 64-bit parameter.\<close>

lemma packed_fields:
  fixes a b :: u32
  assumes "unat a < 2 ^ 31" and "unat b < 2 ^ 31"
  shows "drop_bit 32 (push_bit 32 (scast a) OR scast b :: u64) = ucast a"
    and "ucast (push_bit 32 (scast a) OR scast b :: u64) = b"
    and "ucast ((push_bit 32 (scast a) OR scast b :: u64) AND 0xffffffff) = b"
proof -
  have m: "(0xffffffff :: u64) = mask 32"
    by (simp add: mask_eq_exp_minus_1)
  show "drop_bit 32 (push_bit 32 (scast a) OR scast b :: u64) = ucast a"
    unfolding assms [THEN scast_nonneg]
    by (rule bit_word_eqI) (auto simp: bit_simps dest: bit_imp_le_length)
  show "ucast (push_bit 32 (scast a) OR scast b :: u64) = b"
    unfolding assms [THEN scast_nonneg]
    by (rule bit_word_eqI) (auto simp: bit_simps dest: bit_imp_le_length)
  show "ucast ((push_bit 32 (scast a) OR scast b :: u64) AND 0xffffffff) = b"
    unfolding m assms [THEN scast_nonneg]
    by (rule bit_word_eqI) (auto simp: bit_simps dest: bit_imp_le_length)
qed

section \<open>Receiving a master packet\<close>

lemma packet_of_mem_tail:
  assumes "\<And>i. 8 \<le> i \<Longrightarrow> i < sizeof_master_packet \<Longrightarrow> m i = m' i"
  shows "packet_of_mem m = (packet_of_mem m')\<lparr>pkt_channel := get64 0 m\<rparr>"
  using assms
  by (auto simp: packet_of_mem_def sizeof_master_packet_def intro!: get32_cong get64_cong)

lemma pkt_bytes_tail:
  assumes "pktsize q = 56" and "drop 8 (pkt_bytes q m) = drop 8 (pkt_bytes q m')"
    and "8 \<le> i" and "i < sizeof_master_packet"
  shows "m i = m' i"
proof -
  have "drop 8 (pkt_bytes q m) ! (i - 8) = drop 8 (pkt_bytes q m') ! (i - 8)"
    using assms(2) by simp
  with assms(1,3,4) show ?thesis
    by (simp add: pkt_bytes_def pkt_len_def sizeof_master_packet_def del: drop_map)
qed

text \<open>
  A kernel takes the one pending packet from its master channel: the handler sees it
  with the header naming the channel, and the queue is empty.
\<close>

lemma master_recv:
  assumes ro: "receives_on st m a q" and it: "queue_items q = [pkt_bytes q (packet_to_mem pk g)]"
    and sz: "pktsize q = 56" and ch: "chans st m = Some ch"
  shows "\<exists>p ps q'.
    ihk_ikc_recv_handler fresh (Some m) h 0 st = do {
      st' \<leftarrow> h m p (st\<lparr>chans := (chans st)(m \<mapsto> ch\<lparr>packet_pool := ps\<rparr>), qmem := (qmem st)(a \<mapsto> q')\<rparr>);
      ch' \<leftarrow> chans st' m;
      if flag ch' AND IKC_FLAG_NO_COPY \<noteq> 0
      then map_option (Pair 0) (ihk_ikc_send_interrupt m st') else Some (0, st')
    } \<and>
    packet_of_mem p = pk\<lparr>pkt_channel := m\<rparr> \<and> get64 0 p = m \<and>
    wf_queue q' \<and> queue_items q' = [] \<and> pktsize q' = 56"
proof -
  from alloc_packet_ok [OF ro ch] obtain p0 ps where
    al: "ihk_ikc_alloc_packet fresh m st = Some (p0, upd_chan m (\<lambda>ch. ch\<lparr>packet_pool := ps\<rparr>) st)"
    by blast
  let ?st1 = "upd_chan m (\<lambda>ch. ch\<lparr>packet_pool := ps\<rparr>) st"
  have "receives_on ?st1 m a q"
    using ro ch by (auto simp: receives_on_def ihk_ikc_channel_enabled_def)
  from recv_item [OF this it, of p0 0] obtain q' p where
    rc: "ihk_ikc_recv (Some m) (Some p0) (0 OR IKC_NO_NOTIFY) ?st1 =
      Some (0, Some p, ?st1\<lparr>qmem := (qmem ?st1)(a \<mapsto> q')\<rparr>)"
    and p: "get64 0 p = m" "drop 8 (pkt_bytes q p) = drop 8 (pkt_bytes q (packet_to_mem pk g))"
    and q': "wf_queue q'" "queue_items q' = []" "pktsize q' = pktsize q" by blast
  have "packet_of_mem p = (packet_of_mem (packet_to_mem pk g))\<lparr>pkt_channel := get64 0 p\<rparr>"
    by (intro packet_of_mem_tail pkt_bytes_tail [OF sz p(2)])
  with al rc p q' sz ch show ?thesis
    by (intro exI [of _ p] exI [of _ ps] exI [of _ q'])
      (simp add: ihk_ikc_recv_handler_def upd_chan_def)
qed

section \<open>Accepting a connection\<close>

lemma set_regular_ok:
  fixes icpu :: u32
  assumes "unat icpu < length (regular_channels st)" and "unat icpu < 2 ^ 31"
  shows "ihk_os_set_regular_channel cp (sint icpu) st =
    Some (st\<lparr>regular_channels := (regular_channels st)[unat icpu := cp]\<rparr>)"
proof -
  have "ihk_os_set_regular_channel cp (int n) st =
      Some (st\<lparr>regular_channels := (regular_channels st)[n := cp]\<rparr>)"
    if "n < length (regular_channels st)" for n
    using that by (simp add: ihk_os_set_regular_channel_def)
  from this [OF assms(1)] show ?thesis
    by (simp only: sint_nonneg [OF assms(2)])
qed

text \<open>What the listening side needs for a connection to be accepted.\<close>

definition accepts :: "chan_env \<Rightarrow> ihk_ikc_listen_param \<Rightarrow> u32 \<Rightarrow> u32 \<Rightarrow> u32 \<Rightarrow> nat option \<Rightarrow> 'a ikc_scheme \<Rightarrow> bool" where
  "accepts env p psz magic icpu ph st \<longleftrightarrow>
     (\<exists>c h. new_desc env = Some c \<and> lp_handler p = Some h \<and> h c = (0, ph)) \<and>
     lp_magic p = magic \<and> lp_pkt_size p = psz \<and> queue_args_ok psz (scast (lp_queue_size p)) \<and>
     (lp_direction p = IHK_IKC_DIRECTION_RECV \<longrightarrow> unat icpu < length (regular_channels st) \<and> unat icpu < 2 ^ 31)"

lemma accept_ok:
  assumes ok: "accepts env p psz magic icpu ph st" and c: "new_desc env = Some c"
    and a: "new_queue env = Some (a, q0)"
    and sq: "sq \<noteq> 0" "sq \<noteq> a" "qmem st sq = Some qs"
  shows "\<exists>q w ch rc.
    ihk_ikc_accept env (Some p) (scast psz) 0 sq rva magic icpu st =
      Some (0, Some c, a, st\<lparr>channel_ctr := channel_ctr st + 1,
        qmem := (qmem st)(a \<mapsto> q, sq \<mapsto> qs\<lparr>write_cpu := w\<rparr>), chans := (chans st)(c \<mapsto> ch),
        ikc_channels := ikc_channels st @ [c], regular_channels := rc\<rparr>) \<and>
    wf_queue q \<and> queue_items q = [] \<and> unat (pktsize q) = unat psz \<and> 0 < queue_slack q \<and>
    q_channel_id q = channel_ctr st + 1 \<and> channel_id ch = channel_ctr st + 1 \<and>
    qd_queue (recv ch) = Some a \<and> qd_queue (send ch) = Some sq \<and> flag ch = 0 \<and>
    c_handler ch = ph \<and> remote_channel_va ch = rva"
proof -
  from ok c obtain h where h: "lp_handler p = Some h" "h c = (0, ph)"
    and lp: "lp_magic p = magic" "lp_pkt_size p = psz" "queue_args_ok psz (scast (lp_queue_size p))"
    and dir: "lp_direction p = IHK_IKC_DIRECTION_RECV \<Longrightarrow>
        unat icpu < length (regular_channels st) \<and> unat icpu < 2 ^ 31"
    by (auto simp: accepts_def)
  from create_channel_mapped [OF lp(3) c a sq, of "lp_port p"] obtain q where
    cr: "ihk_ikc_create_channel env (lp_port p) psz (scast (lp_queue_size p)) 0 sq 0 st =
      Some (Some c, a, st\<lparr>channel_ctr := channel_ctr st + 1,
        qmem := (qmem st)(a \<mapsto> q, sq \<mapsto> qs\<lparr>write_cpu := cpu_id env\<rparr>),
        chans := (chans st)(c \<mapsto> zero_channel_desc\<lparr>c_port := lp_port p, channel_id := channel_ctr st + 1,
          recv := local_desc a q, send := mapped_desc sq (qs\<lparr>write_cpu := cpu_id env\<rparr>),
          c_master := mchannel st\<rparr>),
        ikc_channels := ikc_channels st @ [c]\<rparr>)"
    and q: "wf_queue q" "queue_items q = []" "unat (pktsize q) = unat psz"
      "q_channel_id q = channel_ctr st + 1" "0 < queue_slack q" by blast
  show ?thesis
  proof (cases "lp_direction p = IHK_IKC_DIRECTION_RECV")
    case True
    from dir [OF this] have i: "unat icpu < length (regular_channels st)" "unat icpu < 2 ^ 31"
      by simp_all
    show ?thesis
      by (intro exI [of _ "q\<lparr>read_cpu := icpu\<rparr>"] exI [of _ icpu]
          exI [of _ "zero_channel_desc\<lparr>c_port := lp_port p, channel_id := channel_ctr st + 1,
            recv := local_desc a q, send := mapped_desc sq (qs\<lparr>write_cpu := cpu_id env\<rparr>),
            c_master := mchannel st, c_handler := ph, remote_channel_va := rva\<rparr>"]
          exI [of _ "(regular_channels st)[unat icpu := Some c]"])
        (use True h lp cr q sq i in \<open>simp add: ihk_ikc_accept_def ihk_ikc_channel_set_cpu_def
          set_regular_ok local_desc_def mapped_desc_def upd_chan_def upd_queue_def
          zero_channel_desc_def fun_upd_twist\<close>)
  next
    case False
    then show ?thesis
      by (intro exI [of _ q] exI [of _ "cpu_id env"]
          exI [of _ "zero_channel_desc\<lparr>c_port := lp_port p, channel_id := channel_ctr st + 1,
            recv := local_desc a q, send := mapped_desc sq (qs\<lparr>write_cpu := cpu_id env\<rparr>),
            c_master := mchannel st, c_handler := ph, remote_channel_va := rva\<rparr>"]
          exI [of _ "regular_channels st"])
        (use h lp cr q in \<open>simp add: ihk_ikc_accept_def local_desc_def mapped_desc_def upd_chan_def
          zero_channel_desc_def\<close>)
  qed
qed

text \<open>The request that \<open>ihk_ikc_connect\<close> sends for channel \<open>c\<close> with receive queue \<open>rq\<close>.\<close>

definition connect_request ::
  "bytes \<Rightarrow> ihk_ikc_connect_param \<Rightarrow> u32 \<Rightarrow> u64 \<Rightarrow> u64 \<Rightarrow> ihk_ikc_master_packet" where
  "connect_request g p ref rq c = master_packet g MSG_CONNECT ref
     (push_bit 32 (scast (cp_pkt_size p)) OR scast (cp_port p)) 0 rq c
     (push_bit 32 (scast (cp_intr_cpu p)) OR scast (cp_magic p))"

text \<open>Parameters of a connection to a valid port, with nonnegative fields.\<close>

definition connect_args_ok :: "ihk_ikc_connect_param \<Rightarrow> bool" where
  "connect_args_ok p \<longleftrightarrow> unat (cp_port p) < 512 \<and> unat (cp_intr_cpu p) < 2 ^ 31 \<and>
     unat (cp_magic p) < 2 ^ 31 \<and> queue_args_ok (cp_pkt_size p) (scast (cp_queue_size p))"

lemma queue_args_pktsize: "queue_args_ok ps qs \<Longrightarrow> unat ps < 2 ^ 31"
  by (auto simp: queue_args_ok_def Let_def)

lemma enabled_or: "flag ch = 0 \<Longrightarrow> ihk_ikc_channel_enabled (ch\<lparr>flag := flag ch OR IKC_FLAG_ENABLED\<rparr>)"
  by (simp add: ihk_ikc_channel_enabled_def ikc_flag_defs)

lemma ucast_up_down: "ucast (ucast (w :: u32) :: u64) = w"
  by (rule bit_word_eqI) (auto simp: bit_simps)

lemma handle_connect_ok:
  fixes st :: "'a ikc_scheme"
  assumes cp: "connect_args_ok p" and lp: "listeners st ! unat (cp_port p) = Some lp"
    and ok: "accepts env lp (cp_pkt_size p) (cp_magic p) (cp_intr_cpu p) ph st"
    and c: "new_desc env = Some c" and a: "new_queue env = Some (a, q0)"
    and sq: "sq \<noteq> 0" "sq \<noteq> a" "qmem st sq = Some qs"
    and m: "mchannel st = Some m" "sends_on st m s Q" "0 < queue_slack Q"
    and ne: "s \<noteq> a" "s \<noteq> sq" "c \<noteq> m"
  shows "\<exists>q w ch rc.
    handle_connect env g ((connect_request gr p ref sq rva)\<lparr>pkt_channel := x\<rparr>) st =
      Some (0, st\<lparr>channel_ctr := channel_ctr st + 1,
        ikc_channels := ikc_channels st @ [c], regular_channels := rc,
        chans := (chans st)(c \<mapsto> ch),
        qmem := (qmem st)(a \<mapsto> q, sq \<mapsto> qs\<lparr>write_cpu := w\<rparr>,
          s \<mapsto> written Q (packet_to_mem (master_packet g MSG_CONNECT_REPLY ref 0 a rva c 0) g)),
        irqs := irqs st @ [read_cpu Q]\<rparr>) \<and>
    wf_queue q \<and> queue_items q = [] \<and> unat (pktsize q) = unat (cp_pkt_size p) \<and> 0 < queue_slack q \<and>
    q_channel_id q = channel_ctr st + 1 \<and> channel_id ch = channel_ctr st + 1 \<and>
    qd_queue (recv ch) = Some a \<and> qd_queue (send ch) = Some sq \<and> ihk_ikc_channel_enabled ch \<and>
    c_handler ch = ph \<and> remote_channel_va ch = rva \<and> remote_channel_id ch = ref"
proof -
  let ?pk = "(connect_request gr p ref sq rva)\<lparr>pkt_channel := x\<rparr>"
  have args: "unat (cp_pkt_size p) < 2 ^ 31" "unat (cp_port p) < 512" "unat (cp_port p) < 2 ^ 31"
      "unat (cp_intr_cpu p) < 2 ^ 31" "unat (cp_magic p) < 2 ^ 31"
    using cp queue_args_pktsize by (auto simp: connect_args_ok_def)
  have params: "param0 ?pk = push_bit 32 (scast (cp_pkt_size p)) OR scast (cp_port p)"
      "param4 ?pk = push_bit 32 (scast (cp_intr_cpu p)) OR scast (cp_magic p)"
    by (simp_all add: connect_request_def master_packet_def)
  have p0: "ucast (param0 ?pk AND 0xffffffff) = cp_port p" "drop_bit 32 (param0 ?pk) = scast (cp_pkt_size p)"
    unfolding params packed_fields [OF args(1,3)] by (simp_all add: scast_nonneg [OF args(1)])
  have p4: "ucast (param4 ?pk) = cp_magic p" "ucast (drop_bit 32 (param4 ?pk)) = cp_intr_cpu p"
    unfolding params packed_fields [OF args(4,5)] by (simp_all add: ucast_up_down)
  have prt: "sint (cp_port p) = int (unat (cp_port p))"
    by (rule sint_nonneg [OF args(3)])
  have "int n < IHK_IKC_MAX_PORT" if "n < 512" for n
    using that by (simp add: IHK_IKC_MAX_PORT_def)
  from this [OF args(2)] have prt_ok: "\<not> (sint (cp_port p) < 0 \<or> IHK_IKC_MAX_PORT \<le> sint (cp_port p))"
    unfolding prt by linarith
  have pk: "param1 ?pk = 0" "param2 ?pk = sq" "param3 ?pk = rva" "pkt_ref ?pk = ref"
    by (simp_all add: connect_request_def master_packet_def)
  from accept_ok [OF ok c a sq, of rva] obtain q w ch rc where
    acc: "ihk_ikc_accept env (Some lp) (scast (cp_pkt_size p)) 0 sq rva (cp_magic p) (cp_intr_cpu p) st =
      Some (0, Some c, a, st\<lparr>channel_ctr := channel_ctr st + 1,
        qmem := (qmem st)(a \<mapsto> q, sq \<mapsto> qs\<lparr>write_cpu := w\<rparr>), chans := (chans st)(c \<mapsto> ch),
        ikc_channels := ikc_channels st @ [c], regular_channels := rc\<rparr>)"
    and f: "wf_queue q" "queue_items q = []" "unat (pktsize q) = unat (cp_pkt_size p)" "0 < queue_slack q"
      "q_channel_id q = channel_ctr st + 1" "channel_id ch = channel_ctr st + 1"
      "qd_queue (recv ch) = Some a" "qd_queue (send ch) = Some sq" "flag ch = 0"
      "c_handler ch = ph" "remote_channel_va ch = rva" by blast
  let ?ch = "ch\<lparr>remote_channel_id := ref, flag := flag ch OR IKC_FLAG_ENABLED\<rparr>"
  let ?st = "st\<lparr>channel_ctr := channel_ctr st + 1,
        qmem := (qmem st)(a \<mapsto> q, sq \<mapsto> qs\<lparr>write_cpu := w\<rparr>),
        ikc_channels := ikc_channels st @ [c], regular_channels := rc,
        chans := (chans st)(c \<mapsto> ?ch)\<rparr>"
  have "sends_on ?st m s Q"
    using m ne by (auto simp: sends_on_def)
  from send_room [OF this m(3), of _ 0]
  have snd: "ihk_ikc_master_send g MSG_CONNECT_REPLY ref 0 a rva c 0 ?st =
      Some (0, ?st\<lparr>qmem := (qmem ?st)(s \<mapsto> written Q (packet_to_mem
         (master_packet g MSG_CONNECT_REPLY ref 0 a rva c 0) g)), irqs := irqs st @ [read_cpu Q]\<rparr>)"
    using m(1) by (simp add: ihk_ikc_master_send_def)
  have nat_prt: "nat (sint (cp_port p)) = unat (cp_port p)"
    unfolding prt by simp
  have "handle_connect env g ?pk st =
      Some (0, ?st\<lparr>qmem := (qmem ?st)(s \<mapsto> written Q (packet_to_mem
         (master_packet g MSG_CONNECT_REPLY ref 0 a rva c 0) g)), irqs := irqs st @ [read_cpu Q]\<rparr>)"
    unfolding handle_connect_def Let_def p0 p4 pk nat_prt lp
    using prt_ok acc snd
    by (simp add: ihk_ikc_enable_channel_def upd_chan_def)
  moreover have "ihk_ikc_channel_enabled ?ch"
    using f(9) by (simp add: ihk_ikc_channel_enabled_def ikc_flag_defs)
  ultimately show ?thesis
    using f by (intro exI [of _ q] exI [of _ w] exI [of _ ?ch] exI [of _ rc]) simp
qed

section \<open>The two sides of a connection\<close>

text \<open>The master packet handler as the handler of the master channel.\<close>

definition master_handler ::
  "chan_env \<Rightarrow> bytes \<Rightarrow> bytes \<Rightarrow>
   (nat option \<Rightarrow> u64 \<Rightarrow> bytes \<Rightarrow> 'a ikc_scheme \<Rightarrow> 'a ikc_scheme option) \<Rightarrow>
   (ihk_ikc_master_packet \<Rightarrow> 'a ikc_scheme \<Rightarrow> (int \<times> 'a ikc_scheme) option) \<Rightarrow>
   u64 \<Rightarrow> bytes \<Rightarrow> 'a ikc_scheme \<Rightarrow> 'a ikc_scheme option" where
  "master_handler env g fresh hs arch m p st =
     map_option snd (ihk_ikc_master_channel_packet_handler env g fresh hs arch (Some m) (Some p) st)"

text \<open>
  A kernel with an enabled master channel \<open>m\<close> that sends on the queue at \<open>s\<close> and receives
  on the queue at \<open>r\<close>, both for master packets.
\<close>

definition master_up :: "'a ikc_scheme \<Rightarrow> u64 \<Rightarrow> u64 \<Rightarrow> ikc_queue \<Rightarrow> u64 \<Rightarrow> ikc_queue \<Rightarrow> bool" where
  "master_up st m s Q r R \<longleftrightarrow>
     mchannel st = Some m \<and> m \<noteq> 0 \<and> s \<noteq> r \<and> sends_on st m s Q \<and> receives_on st m r R \<and>
     pktsize Q = 56 \<and> pktsize R = 56 \<and>
     (\<exists>ch. chans st m = Some ch \<and> flag ch AND IKC_FLAG_NO_COPY = 0)"

lemma peer_accepts:
  assumes up: "master_up B m s Q r R" and it: "queue_items R = [pkt_bytes R (packet_to_mem (connect_request gr p ref sq ca) gr)]"
    and sl: "0 < queue_slack Q"
    and cp: "connect_args_ok p" and lp: "listeners B ! unat (cp_port p) = Some lp"
    and ok: "accepts env lp (cp_pkt_size p) (cp_magic p) (cp_intr_cpu p) ph B"
    and c: "new_desc env = Some c" and a: "new_queue env = Some (a, q0)"
    and sq: "sq \<noteq> 0" "sq \<noteq> a" "qmem B sq = Some qs"
    and ne: "s \<noteq> a" "s \<noteq> sq" "r \<noteq> a" "r \<noteq> sq" "c \<noteq> m"
  shows "\<exists>B' R' q w ch.
    ihk_ikc_recv_handler fresh (Some m) (master_handler env g fresh hs arch) 0 B = Some (0, B') \<and>
    qmem B' = (qmem B)(r \<mapsto> R', a \<mapsto> q, sq \<mapsto> qs\<lparr>write_cpu := w\<rparr>,
      s \<mapsto> written Q (packet_to_mem (master_packet g MSG_CONNECT_REPLY ref 0 a ca c 0) g)) \<and>
    wf_queue R' \<and> queue_items R' = [] \<and> pktsize R' = 56 \<and> chans B' c = Some ch \<and>
    wf_queue q \<and> queue_items q = [] \<and> unat (pktsize q) = unat (cp_pkt_size p) \<and> 0 < queue_slack q \<and>
    q_channel_id q = channel_id ch \<and>
    qd_queue (recv ch) = Some a \<and> qd_queue (send ch) = Some sq \<and> ihk_ikc_channel_enabled ch \<and>
    c_handler ch = ph \<and> remote_channel_va ch = ca \<and> remote_channel_id ch = ref"
proof -
  from up obtain chm where m: "mchannel B = Some m" "m \<noteq> 0" "sends_on B m s Q" "receives_on B m r R"
      "pktsize R = 56" "chans B m = Some chm" "flag chm AND IKC_FLAG_NO_COPY = 0" "s \<noteq> r"
    by (auto simp: master_up_def)
  from master_recv [OF m(4) it m(5,6), of fresh "master_handler env g fresh hs arch"] obtain pkt ps R' where
    rc: "ihk_ikc_recv_handler fresh (Some m) (master_handler env g fresh hs arch) 0 B = do {
      st' \<leftarrow> master_handler env g fresh hs arch m pkt
        (B\<lparr>chans := (chans B)(m \<mapsto> chm\<lparr>packet_pool := ps\<rparr>), qmem := (qmem B)(r \<mapsto> R')\<rparr>);
      ch' \<leftarrow> chans st' m;
      if flag ch' AND IKC_FLAG_NO_COPY \<noteq> 0
      then map_option (Pair 0) (ihk_ikc_send_interrupt m st') else Some (0, st')
    }" and pkt: "packet_of_mem pkt = (connect_request gr p ref sq ca)\<lparr>pkt_channel := m\<rparr>" "get64 0 pkt = m"
    and R': "wf_queue R'" "queue_items R' = []" "pktsize R' = 56" by blast
  let ?B1 = "B\<lparr>chans := (chans B)(m \<mapsto> chm\<lparr>packet_pool := ps\<rparr>), qmem := (qmem B)(r \<mapsto> R')\<rparr>"
  have "listeners ?B1 ! unat (cp_port p) = Some lp" and "accepts env lp (cp_pkt_size p) (cp_magic p) (cp_intr_cpu p) ph ?B1"
    and "qmem ?B1 sq = Some qs" and "mchannel ?B1 = Some m" and "sends_on ?B1 m s Q"
    using lp ok sq m ne by (auto simp: accepts_def sends_on_def ihk_ikc_channel_enabled_def)
  from handle_connect_ok [OF cp this(1,2) c a sq(1,2) this(3,4,5) sl ne(1,2,5),
    where g = g and gr = gr and ref = ref and rva = ca and x = m]
  obtain q w ch rc where
    hc: "handle_connect env g (packet_of_mem pkt) ?B1 =
      Some (0, ?B1\<lparr>channel_ctr := channel_ctr B + 1,
        ikc_channels := ikc_channels B @ [c], regular_channels := rc,
        chans := (chans ?B1)(c \<mapsto> ch),
        qmem := (qmem ?B1)(a \<mapsto> q, sq \<mapsto> qs\<lparr>write_cpu := w\<rparr>,
          s \<mapsto> written Q (packet_to_mem (master_packet g MSG_CONNECT_REPLY ref 0 a ca c 0) g)),
        irqs := irqs B @ [read_cpu Q]\<rparr>)"
    and f: "wf_queue q" "queue_items q = []" "unat (pktsize q) = unat (cp_pkt_size p)" "0 < queue_slack q"
      "q_channel_id q = channel_ctr ?B1 + 1" "channel_id ch = channel_ctr ?B1 + 1"
      "qd_queue (recv ch) = Some a" "qd_queue (send ch) = Some sq" "ihk_ikc_channel_enabled ch"
      "c_handler ch = ph" "remote_channel_va ch = ca" "remote_channel_id ch = ref"
    unfolding pkt(1) by auto
  have msg: "pkt_msg (packet_of_mem pkt) = MSG_CONNECT"
    by (simp add: pkt connect_request_def master_packet_def)
  show ?thesis
    using rc hc m ne f R' msg pkt(2)
    by (intro exI [of _ "upd_chan m (\<lambda>ch. ch\<lparr>packet_pool := packet_pool ch @ [pkt]\<rparr>)
          (?B1\<lparr>channel_ctr := channel_ctr B + 1,
        ikc_channels := ikc_channels B @ [c], regular_channels := rc,
        chans := (chans ?B1)(c \<mapsto> ch),
        qmem := (qmem ?B1)(a \<mapsto> q, sq \<mapsto> qs\<lparr>write_cpu := w\<rparr>,
          s \<mapsto> written Q (packet_to_mem (master_packet g MSG_CONNECT_REPLY ref 0 a ca c 0) g)),
        irqs := irqs B @ [read_cpu Q]\<rparr>)"] exI [of _ R'] exI [of _ q] exI [of _ w] exI [of _ ch])
      (simp add: master_handler_def ihk_ikc_master_channel_packet_handler_def msg_defs
        ihk_ikc_release_packet_def)
qed

lemma reply_received:
  assumes up: "master_up A m s Q r R" and it: "queue_items R = [pkt_bytes R (packet_to_mem pk gr)]"
    and msg: "pkt_msg pk = MSG_CONNECT_REPLY"
  shows "\<exists>A' R'.
    ihk_ikc_recv_handler fresh (Some m) (master_handler env g fresh hs arch) 0 A = Some (0, A') \<and>
    qmem A' = (qmem A)(r \<mapsto> R') \<and> (\<forall>c. c \<noteq> m \<longrightarrow> chans A' c = chans A c) \<and>
    wait_list A' = wait_list (snd (ihk_ikc_master_reply_handler (pk\<lparr>pkt_channel := m\<rparr>) A)) \<and>
    ikc.more A' = ikc.more A"
proof -
  from up obtain chm where m: "mchannel A = Some m" "m \<noteq> 0" "receives_on A m r R"
      "pktsize R = 56" "chans A m = Some chm" "flag chm AND IKC_FLAG_NO_COPY = 0"
    by (auto simp: master_up_def)
  from master_recv [OF m(3) it m(4,5), of fresh "master_handler env g fresh hs arch"] obtain pkt ps R' where
    rc: "ihk_ikc_recv_handler fresh (Some m) (master_handler env g fresh hs arch) 0 A = do {
      st' \<leftarrow> master_handler env g fresh hs arch m pkt
        (A\<lparr>chans := (chans A)(m \<mapsto> chm\<lparr>packet_pool := ps\<rparr>), qmem := (qmem A)(r \<mapsto> R')\<rparr>);
      ch' \<leftarrow> chans st' m;
      if flag ch' AND IKC_FLAG_NO_COPY \<noteq> 0
      then map_option (Pair 0) (ihk_ikc_send_interrupt m st') else Some (0, st')
    }" and pkt: "packet_of_mem pkt = pk\<lparr>pkt_channel := m\<rparr>" "get64 0 pkt = m" by blast
  show ?thesis
    using rc m msg pkt
    by (simp add: master_handler_def ihk_ikc_master_channel_packet_handler_def msg_defs
        ihk_ikc_release_packet_def ihk_ikc_master_reply_handler_def upd_chan_def) blast
qed

section \<open>A connection between two kernels\<close>

text \<open>
  Two kernels share the queue memory. The peer's state rides in the extension field of
  the connecting kernel's state. While the connecting call sleeps, the peer handles one
  master packet and then the connecting kernel handles one.
\<close>

record kernel_env =
  ke_alloc :: chan_env
  ke_stack :: bytes
  ke_fresh :: bytes

definition kernel_handler :: "kernel_env \<Rightarrow> u64 \<Rightarrow> bytes \<Rightarrow> 'a ikc_scheme \<Rightarrow> 'a ikc_scheme option" where
  "kernel_handler ke =
     master_handler (ke_alloc ke) (ke_stack ke) (ke_fresh ke) (\<lambda>_ _ _ _. None) (\<lambda>_ _. None)"

definition peer_answers ::
  "kernel_env \<Rightarrow> kernel_env \<Rightarrow> 'b ikc_scheme ikc_scheme \<Rightarrow> (int \<times> 'b ikc_scheme ikc_scheme) option" where
  "peer_answers keA keB st = do {
     let B = (ikc.more st)\<lparr>qmem := qmem st\<rparr>;
     mB \<leftarrow> mchannel B;
     (_, B) \<leftarrow> ihk_ikc_recv_handler (ke_fresh keB) (Some mB) (kernel_handler keB) 0 B;
     let st = st\<lparr>qmem := qmem B\<rparr>;
     mA \<leftarrow> mchannel st;
     (_, st) \<leftarrow> ihk_ikc_recv_handler (ke_fresh keA) (Some mA) (kernel_handler keA) 0 st;
     Some (0, ikc.more_update (\<lambda>_. B\<lparr>qmem := qmem st\<rparr>) st)
   }"

lemma ikc_more_update [simp]:
  "qmem (ikc.more_update f st) = qmem st"
  "chans (ikc.more_update f st) = chans st"
  "wait_list (ikc.more_update f st) = wait_list st"
  "ikc.more (ikc.more_update f st) = f (ikc.more st)"
  by (cases st; simp)+

lemma find_wait_map:
  assumes "w \<notin> ws_id ` set xs" and "ws_id x = w" and "\<And>y. ws_id (f y) = ws_id y"
  shows "find_wait w (map f xs @ [x]) = Some x"
  using assms by (induction xs) auto

lemma written_pending:
  assumes "wf_queue q" and "0 < queue_slack q" and "queue_items q = []"
  shows "queue_items (written q p) = [pkt_bytes (written q p) p]" and "wf_queue (written q p)"
  using written_wf [OF assms(1,2), of p] assms(3) by simp_all

text \<open>The exchange while the connecting call waits.\<close>

lemma exchange_connect:
  fixes st :: "'b ikc_scheme ikc_scheme"
  assumes A: "master_up st mA s (written QA (packet_to_mem (connect_request gr p ref qa ca) gr)) r RA"
    and B: "mchannel (ikc.more st) = Some mB" "master_up ((ikc.more st)\<lparr>qmem := qmem st\<rparr>) mB r RA s
      (written QA (packet_to_mem (connect_request gr p ref qa ca) gr))"
    and QA: "wf_queue QA" "queue_items QA = []" "0 < queue_slack QA"
    and RA: "queue_items RA = []" "0 < queue_slack RA"
    and cp: "connect_args_ok p" and lp: "listeners (ikc.more st) ! unat (cp_port p) = Some lp"
    and ok: "accepts (ke_alloc keB) lp (cp_pkt_size p) (cp_magic p) (cp_intr_cpu p) ph (ikc.more st)"
    and cb: "new_desc (ke_alloc keB) = Some cb" and qb: "new_queue (ke_alloc keB) = Some (qb, q0)"
    and qa: "qa \<noteq> 0" "qa \<noteq> qb" "qmem st qa = Some qs"
    and ne: "s \<noteq> qa" "r \<noteq> qa" "s \<noteq> qb" "r \<noteq> qb" "cb \<noteq> mB"
  shows "\<exists>st' q w' ch.
    peer_answers keA keB st = Some (0, st') \<and>
    (\<forall>c. c \<noteq> mA \<longrightarrow> chans st' c = chans st c) \<and>
    wait_list st' = wait_list (snd (ihk_ikc_master_reply_handler
      ((master_packet (ke_stack keB) MSG_CONNECT_REPLY ref 0 qb ca cb 0)\<lparr>pkt_channel := mA\<rparr>) st)) \<and>
    qmem st' qa = Some (qs\<lparr>write_cpu := w'\<rparr>) \<and> qmem st' qb = Some q \<and>
    qmem (ikc.more st') = qmem st' \<and> chans (ikc.more st') cb = Some ch \<and>
    wf_queue q \<and> queue_items q = [] \<and> unat (pktsize q) = unat (cp_pkt_size p) \<and> 0 < queue_slack q \<and>
    q_channel_id q = channel_id ch \<and>
    qd_queue (recv ch) = Some qb \<and> qd_queue (send ch) = Some qa \<and> ihk_ikc_channel_enabled ch \<and>
    c_handler ch = ph \<and> remote_channel_va ch = ca \<and> remote_channel_id ch = ref"
proof -
  let ?req = "packet_to_mem (connect_request gr p ref qa ca) gr"
  let ?rep = "master_packet (ke_stack keB) MSG_CONNECT_REPLY ref 0 qb ca cb 0"
  let ?B = "(ikc.more st)\<lparr>qmem := qmem st\<rparr>"
  have "queue_items (written QA ?req) = [pkt_bytes (written QA ?req) ?req]"
    using written_pending QA by blast
  moreover have "listeners ?B ! unat (cp_port p) = Some lp" "qmem ?B qa = Some qs"
    "accepts (ke_alloc keB) lp (cp_pkt_size p) (cp_magic p) (cp_intr_cpu p) ph ?B"
    using lp ok qa by (simp_all add: accepts_def)
  ultimately obtain B' R' q w' ch where
    b: "ihk_ikc_recv_handler (ke_fresh keB) (Some mB) (kernel_handler keB) 0 ?B = Some (0, B')"
    and mem: "qmem B' = (qmem st)(s \<mapsto> R', qb \<mapsto> q, qa \<mapsto> qs\<lparr>write_cpu := w'\<rparr>,
      r \<mapsto> written RA (packet_to_mem ?rep (ke_stack keB)))"
    and R': "wf_queue R'" "queue_items R' = []" "pktsize R' = 56"
    and f: "chans B' cb = Some ch"
      "wf_queue q" "queue_items q = []" "unat (pktsize q) = unat (cp_pkt_size p)" "0 < queue_slack q"
      "q_channel_id q = channel_id ch"
      "qd_queue (recv ch) = Some qb" "qd_queue (send ch) = Some qa" "ihk_ikc_channel_enabled ch"
      "c_handler ch = ph" "remote_channel_va ch = ca" "remote_channel_id ch = ref"
    unfolding kernel_handler_def
    using peer_accepts [OF B(2) _ RA(2) cp _ _ cb qb qa(1,2) _ ne(4,2,3,1,5),
        where gr = gr and g = "ke_stack keB" and fresh = "ke_fresh keB" and ref = ref and ca = ca]
    by fastforce
  let ?A = "st\<lparr>qmem := qmem B'\<rparr>"
  have wfR: "wf_queue RA" and szR: "pktsize RA = 56" and rs: "s \<noteq> r"
    using A by (auto simp: master_up_def receives_on_def)
  note wr = written_pending [OF wfR RA(2,1), of "packet_to_mem ?rep (ke_stack keB)"]
  have "master_up ?A mA s R' r (written RA (packet_to_mem ?rep (ke_stack keB)))"
    using A R' wr(2) szR rs ne mem by (auto simp: master_up_def sends_on_def receives_on_def)
  from reply_received [OF this wr(1), where fresh = "ke_fresh keA" and env = "ke_alloc keA" and
      g = "ke_stack keA" and hs = "\<lambda>_ _ _ _. None" and arch = "\<lambda>_ _. None"]
  obtain A' R'' where
    a: "ihk_ikc_recv_handler (ke_fresh keA) (Some mA) (kernel_handler keA) 0 ?A = Some (0, A')"
      "qmem A' = (qmem B')(r \<mapsto> R'')" "\<forall>c. c \<noteq> mA \<longrightarrow> chans A' c = chans st c"
      "wait_list A' = wait_list (snd (ihk_ikc_master_reply_handler (?rep\<lparr>pkt_channel := mA\<rparr>) ?A))"
    by (auto simp: master_packet_def kernel_handler_def)
  have mA: "mchannel st = Some mA"
    using A by (simp add: master_up_def)
  show ?thesis
    by (intro exI [of _ "ikc.more_update (\<lambda>_. B'\<lparr>qmem := qmem A'\<rparr>) A'"] exI [of _ q] exI [of _ w'] exI [of _ ch])
      (use a b B(1) mA mem f ne ne [symmetric] qa(2) [symmetric] in \<open>simp add: peer_answers_def ihk_ikc_master_reply_handler_def\<close>)
qed

lemma ikc_more_fields [simp]:
  "ikc.more (st\<lparr>qmem := v0\<rparr>) = ikc.more st"
  "ikc.more (st\<lparr>chans := v1\<rparr>) = ikc.more st"
  "ikc.more (st\<lparr>ikc_channels := v2\<rparr>) = ikc.more st"
  "ikc.more (st\<lparr>channel_ctr := v3\<rparr>) = ikc.more st"
  "ikc.more (st\<lparr>mchannel := v4\<rparr>) = ikc.more st"
  "ikc.more (st\<lparr>regular_channels := v5\<rparr>) = ikc.more st"
  "ikc.more (st\<lparr>listeners := v6\<rparr>) = ikc.more st"
  "ikc.more (st\<lparr>wait_list := v7\<rparr>) = ikc.more st"
  "ikc.more (st\<lparr>irqs := v8\<rparr>) = ikc.more st"
  by (cases st; simp)+

text \<open>
  Both ends of a connection: each channel is enabled, sends where the other receives, and
  names the other by its id and its address; the two queues are empty.
\<close>

definition connected ::
  "'a ikc_scheme \<Rightarrow> u64 \<Rightarrow> u64 \<Rightarrow> 'b ikc_scheme \<Rightarrow> u64 \<Rightarrow> u64 \<Rightarrow> bool" where
  "connected A ca qa B cb qb \<longleftrightarrow>
     (\<exists>chA chB q1 q2. chans A ca = Some chA \<and> chans B cb = Some chB \<and>
        receives_on A ca qa q1 \<and> sends_on B cb qa q1 \<and> queue_items q1 = [] \<and> 0 < queue_slack q1 \<and>
        sends_on A ca qb q2 \<and> receives_on B cb qb q2 \<and> queue_items q2 = [] \<and> 0 < queue_slack q2 \<and>
        remote_channel_va chA = cb \<and> remote_channel_va chB = ca \<and>
        remote_channel_id chA = channel_id chB \<and> remote_channel_id chB = channel_id chA)"

text \<open>
  Property C9. Connecting to a port on which the other kernel listens with the same magic
  number and packet size: when the peer and then the connecting kernel have each
  handled one master packet, the call returns 0 and the two kernels hold the two
  ends of one connection. Each new channel is enabled, sends on the queue on which
  the other receives, and names the other's id and address; both queues are empty
  and have room; each side has the packet handler it asked for.
\<close>

theorem connect_establishes:
  fixes st :: "'b ikc_scheme ikc_scheme"
  assumes A: "master_up st mA s QA r RA" and B: "master_up ((ikc.more st)\<lparr>qmem := qmem st\<rparr>) mB r RA s QA"
    and empty: "queue_items QA = []" "0 < queue_slack QA" "queue_items RA = []" "0 < queue_slack RA"
    and cp: "connect_args_ok p" and lp: "listeners (ikc.more st) ! unat (cp_port p) = Some lp"
    and ok: "accepts (ke_alloc keB) lp (cp_pkt_size p) (cp_magic p) (cp_intr_cpu p) ph (ikc.more st)"
    and ca: "new_desc (ke_alloc keA) = Some ca" and qa: "new_queue (ke_alloc keA) = Some (qa, qa0)"
    and cb: "new_desc (ke_alloc keB) = Some cb" and qb: "new_queue (ke_alloc keB) = Some (qb, qb0)"
    and ne: "qa \<noteq> 0" "qa \<noteq> qb" "s \<noteq> qa" "r \<noteq> qa" "s \<noteq> qb" "r \<noteq> qb" "ca \<noteq> mA" "cb \<noteq> mB"
    and w: "w \<notin> ws_id ` set (wait_list st)"
  shows "\<exists>st' chA chB. ihk_ikc_connect (ke_alloc keA) (ke_stack keA) w (peer_answers keA keB) (Some p) st =
      Some (0, Some ca, st') \<and> connected st' ca qa ((ikc.more st')\<lparr>qmem := qmem st'\<rparr>) cb qb \<and>
    chans st' ca = Some chA \<and> c_handler chA = cp_handler p \<and>
    chans (ikc.more st') cb = Some chB \<and> c_handler chB = ph"
proof -
  have args: "queue_args_ok (cp_pkt_size p) (scast (cp_queue_size p))"
    using cp by (simp add: connect_args_ok_def)
  let ?id = "channel_ctr st + 1"
  from create_channel_local [OF args ca qa, of "cp_port p" st] obtain q1 where
    cr: "ihk_ikc_create_channel (ke_alloc keA) (cp_port p) (cp_pkt_size p) (scast (cp_queue_size p)) 0 0 0 st =
      Some (Some ca, qa, st\<lparr>channel_ctr := ?id, qmem := (qmem st)(qa \<mapsto> q1),
        chans := (chans st)(ca \<mapsto> zero_channel_desc\<lparr>c_port := cp_port p, channel_id := ?id,
          recv := local_desc qa q1, c_master := mchannel st\<rparr>),
        ikc_channels := ikc_channels st @ [ca]\<rparr>)"
    and q1: "wf_queue q1" "queue_items q1 = []" "0 < queue_slack q1" by blast
  let ?ch = "zero_channel_desc\<lparr>c_port := cp_port p, channel_id := ?id, recv := local_desc qa q1,
    c_master := mchannel st\<rparr>"
  let ?ws = "\<lparr>ws_id = w, ws_status = 0, ws_msg = MSG_CONNECT_REPLY, ws_ref = ?id, ws_res = zero_packet\<rparr>"
  let ?st1 = "st\<lparr>channel_ctr := ?id, qmem := (qmem st)(qa \<mapsto> q1), chans := (chans st)(ca \<mapsto> ?ch),
    ikc_channels := ikc_channels st @ [ca], wait_list := wait_list st @ [?ws]\<rparr>"
  have so: "sends_on ?st1 mA s QA" and mA: "mchannel ?st1 = Some mA"
    using A ne by (auto simp: master_up_def sends_on_def)
  let ?req = "packet_to_mem (connect_request (ke_stack keA) p ?id qa ca) (ke_stack keA)"
  let ?st2 = "?st1\<lparr>qmem := (qmem ?st1)(s \<mapsto> written QA ?req), irqs := irqs st @ [read_cpu QA]\<rparr>"
  have snd: "ihk_ikc_master_send (ke_stack keA) MSG_CONNECT ?id
      (push_bit 32 (scast (cp_pkt_size p)) OR scast (cp_port p)) 0 qa ca
      (push_bit 32 (scast (cp_intr_cpu p)) OR scast (cp_magic p)) ?st1 = Some (0, ?st2)"
    using send_room [OF so empty(2), of ?req 0] mA
    by (simp add: ihk_ikc_master_send_def connect_request_def)
  have wfQ: "wf_queue QA" "pktsize QA = 56" "s \<noteq> r"
    using A by (auto simp: master_up_def sends_on_def)
  note wr = written_pending [OF wfQ(1) empty(2,1), of ?req]
  have "master_up ?st2 mA s (written QA ?req) r RA"
    using A ne wfQ wr(2) by (auto simp: master_up_def sends_on_def receives_on_def)
  moreover have "master_up ((ikc.more ?st2)\<lparr>qmem := qmem ?st2\<rparr>) mB r RA s (written QA ?req)"
    using B ne wfQ wr(2) by (auto simp: master_up_def sends_on_def receives_on_def)
  moreover have "mchannel (ikc.more ?st2) = Some mB"
    using B by (simp add: master_up_def)
  ultimately obtain st3 q2 w' chB where
    ex: "peer_answers keA keB ?st2 = Some (0, st3)"
      "\<forall>c. c \<noteq> mA \<longrightarrow> chans st3 c = chans ?st2 c"
      "wait_list st3 = wait_list (snd (ihk_ikc_master_reply_handler
        ((master_packet (ke_stack keB) MSG_CONNECT_REPLY ?id 0 qb ca cb 0)\<lparr>pkt_channel := mA\<rparr>) ?st2))"
    and m3: "qmem st3 qa = Some (q1\<lparr>write_cpu := w'\<rparr>)" "qmem st3 qb = Some q2"
      "qmem (ikc.more st3) = qmem st3"
    and chB: "chans (ikc.more st3) cb = Some chB" "wf_queue q2" "queue_items q2 = []"
      "0 < queue_slack q2" "q_channel_id q2 = channel_id chB" "qd_queue (recv chB) = Some qb"
      "qd_queue (send chB) = Some qa" "ihk_ikc_channel_enabled chB" "c_handler chB = ph"
      "remote_channel_va chB = ca" "remote_channel_id chB = ?id"
    using exchange_connect [of ?st2 mA s QA "ke_stack keA" p ?id qa ca r RA mB lp keB ph cb qb qb0 q1 keA]
      wfQ empty cp lp ok cb qb ne by auto
  let ?rep = "(master_packet (ke_stack keB) MSG_CONNECT_REPLY ?id 0 qb ca cb 0)\<lparr>pkt_channel := mA\<rparr>"
  have "find_wait w (wait_list st3) = Some (?ws\<lparr>ws_res := ?rep, ws_status := 1\<rparr>)"
    unfolding ex(3) ihk_ikc_master_reply_handler_def
    by (simp add: find_wait_map [OF w] master_packet_def)
  moreover have "chans st3 ca = Some ?ch"
    using ex(2) ne by simp
  moreover have "param0 ?rep = 0" "param1 ?rep = qb" "param3 ?rep = cb"
    by (simp_all add: master_packet_def)
  moreover define qd where "qd = (send ?ch)\<lparr>qrphys := qb, qphys := qb, qd_queue := Some qb,
      qd_cache := head_of q2\<rparr>"
  moreover define st4 where "st4 = ihk_ikc_enable_channel ca (upd_queue qb (\<lambda>q. q\<lparr>write_cpu := read_cpu q1\<rparr>)
      (upd_chan ca (\<lambda>ch. ch\<lparr>send := qd\<lparr>intr_cpu := cp_intr_cpu p\<rparr>,
          remote_channel_id := q_channel_id (qd_cache qd), remote_channel_va := cb,
          c_handler := cp_handler p\<rparr>) (ihk_ikc_wait_finish w st3)))"
  ultimately have con: "ihk_ikc_connect (ke_alloc keA) (ke_stack keA) w (peer_answers keA keB) (Some p) st =
      Some (0, Some ca, st4)"
    using cr snd ex(1) m3
    by (simp add: ihk_ikc_connect_def ihk_ikc_wait_reply_prepare_def ihk_ikc_set_remote_queue_def
        smp_ihk_os_map_memory_def local_desc_def ihk_ikc_wait_finish_def)
  have st4: "chans st4 ca = Some (?ch\<lparr>send := qd\<lparr>intr_cpu := cp_intr_cpu p\<rparr>,
      remote_channel_id := channel_id chB, remote_channel_va := cb, c_handler := cp_handler p,
      flag := IKC_FLAG_ENABLED\<rparr>)"
    using \<open>chans st3 ca = Some ?ch\<close> chB(5)
    by (simp add: st4_def ihk_ikc_enable_channel_def ihk_ikc_wait_finish_def qd_def head_of_def
        ihk_ikc_queue_head.defs zero_channel_desc_def)
  have m4: "qmem st4 = (qmem st3)(qb \<mapsto> q2\<lparr>write_cpu := read_cpu q1\<rparr>)" "ikc.more st4 = ikc.more st3"
    using m3 by (simp_all add: st4_def ihk_ikc_enable_channel_def ihk_ikc_wait_finish_def upd_chan_def upd_queue_def)
  have "connected st4 ca qa ((ikc.more st4)\<lparr>qmem := qmem st4\<rparr>) cb qb"
    unfolding connected_def
    by (rule exI, rule exI [of _ chB], rule exI [of _ "q1\<lparr>write_cpu := w'\<rparr>"],
        rule exI [of _ "q2\<lparr>write_cpu := read_cpu q1\<rparr>"], rule conjI, rule st4)
      (use m3 m4 st4 q1 chB ne in \<open>simp add: receives_on_def sends_on_def local_desc_def qd_def
        ihk_ikc_channel_enabled_def ikc_flag_defs\<close>)
  with con st4 m4 chB show ?thesis
    by (intro exI [of _ st4]) simp
qed


text \<open>Two kernels with idle master channels, one of which listens on port 5.\<close>

definition demo_listener :: ihk_ikc_listen_param where
  "demo_listener = \<lparr>lp_handler = Some (\<lambda>_. (0, Some 9)), lp_port = 5,
     lp_direction = IHK_IKC_DIRECTION_RECV, lp_pkt_size = 64, lp_queue_size = 4096, lp_magic = 85\<rparr>"

definition demo_peer :: ikc where
  "demo_peer = (demo_ikc ())\<lparr>chans := [512 \<mapsto> demo_chan
       \<lparr>recv := zero_queue_desc\<lparr>qd_queue := Some 8192\<rparr>, send := zero_queue_desc\<lparr>qd_queue := Some 4096\<rparr>\<rparr>],
     mchannel := Some 512, listeners := (replicate 512 None)[5 := Some demo_listener]\<rparr>"

definition demo_pair :: "ikc ikc_scheme" where
  "demo_pair = (demo_ikc demo_peer)\<lparr>mchannel := Some 256\<rparr>"

definition demo_connect :: ihk_ikc_connect_param where
  "demo_connect = \<lparr>cp_port = 5, cp_pkt_size = 64, cp_queue_size = 4096, cp_magic = 85,
     cp_intr_cpu = 1, cp_handler = Some 3\<rparr>"

definition demo_env :: "u64 \<Rightarrow> u64 \<Rightarrow> kernel_env" where
  "demo_env c a = \<lparr>ke_alloc = \<lparr>new_desc = Some c, new_queue = Some (a, zero_head undefined), cpu_id = 0\<rparr>,
     ke_stack = (\<lambda>_. 0), ke_fresh = (\<lambda>_. 0)\<rparr>"

lemmas demo_defs = demo_pair_def demo_peer_def demo_ikc_def demo_chan_def demo_listener_def
  demo_connect_def demo_env_def zero_channel_desc_def zero_queue_desc_def

lemma demo_master_up:
  "master_up demo_pair 256 8192 demo_ring 4096 demo_ring"
  "master_up ((ikc.more demo_pair)\<lparr>qmem := qmem demo_pair\<rparr>) 512 4096 demo_ring 8192 demo_ring"
  by (simp_all add: master_up_def sends_on_def receives_on_def demo_ring_wf demo_defs
      ihk_ikc_channel_enabled_def ikc_flag_defs) (simp_all add: demo_ring_def)

lemma demo_queue_args: "queue_args_ok 64 4096"
  by (simp add: queue_args_ok_def queue_pages_def PAGE_SIZE_def Let_def)

theorem connect_establishes_witness:
  "\<exists>st' chB. ihk_ikc_connect (ke_alloc (demo_env 1024 12288)) (\<lambda>_. 0) 7
      (peer_answers (demo_env 1024 12288) (demo_env 2048 16384)) (Some demo_connect) demo_pair =
      Some (0, Some 1024, st') \<and>
    connected st' 1024 12288 ((ikc.more st')\<lparr>qmem := qmem st'\<rparr>) 2048 16384 \<and>
    chans (ikc.more st') 2048 = Some chB \<and> c_handler chB = Some 9"
proof -
  have "connect_args_ok demo_connect"
    using demo_queue_args by (simp add: connect_args_ok_def demo_connect_def)
  moreover have "accepts (ke_alloc (demo_env 2048 16384)) demo_listener 64 85 1 (Some 9) (ikc.more demo_pair)"
    using demo_queue_args by (simp add: accepts_def demo_defs)
  moreover have "listeners (ikc.more demo_pair) ! 5 = Some demo_listener"
    by (simp add: demo_pair_def demo_peer_def demo_ikc_def)
  ultimately show ?thesis
    using connect_establishes [OF demo_master_up demo_ring_wf(2,6,2,6), of demo_connect demo_listener
        "demo_env 2048 16384" "Some 9" "demo_env 1024 12288" 1024 12288 "zero_head undefined" 2048 16384
        "zero_head undefined" 7]
    by (fastforce simp: demo_connect_def demo_env_def demo_pair_def demo_ikc_def)
qed

section \<open>Disconnecting two kernels\<close>

text \<open>A channel that both ends have given up: not enabled, destroying, acknowledged.\<close>

definition shut_down :: "ihk_ikc_channel_desc \<Rightarrow> bool" where
  "shut_down ch \<longleftrightarrow> flag ch AND IKC_FLAG_STATUS_MASK = IKC_FLAG_DESTROYING OR IKC_FLAG_DESTROY_ACKED"

text \<open>The flags as single bits.\<close>

lemma flag_bits:
  "IKC_FLAG_ENABLED = 2 ^ 0" "IKC_FLAG_DESTROYING = 2 ^ 1" "IKC_FLAG_DESTROY_ACKED = 2 ^ 2"
  "IKC_FLAG_STATUS_MASK = mask 3"
  by (simp_all add: ikc_flag_defs mask_eq_exp_minus_1)

lemma status_eq_iff:
  "f AND IKC_FLAG_STATUS_MASK = g \<longleftrightarrow>
     (bit g 0 = bit f 0 \<and> bit g 1 = bit f 1 \<and> bit g 2 = bit f 2 \<and> (\<forall>n \<ge> 3. \<not> bit g n))"
  (is "?l \<longleftrightarrow> ?r")
proof
  assume ?l
  then show ?r by (auto simp: flag_bits bit_simps)
next
  assume r: ?r
  show ?l
  proof (rule bit_word_eqI)
    fix n :: nat
    consider "n = 0" | "n = 1" | "n = 2" | "3 \<le> n" by linarith
    then show "bit (f AND IKC_FLAG_STATUS_MASK) n = bit g n"
      using r by cases (auto simp: flag_bits bit_simps)
  qed
qed

lemma enabled_iff_bits: "ihk_ikc_channel_enabled ch \<longleftrightarrow> bit (flag ch) 0 \<and> \<not> bit (flag ch) 1 \<and> \<not> bit (flag ch) 2"
  by (auto simp: ihk_ikc_channel_enabled_def status_eq_iff) (auto simp: flag_bits bit_simps)

lemma shut_down_iff_bits: "shut_down ch \<longleftrightarrow> \<not> bit (flag ch) 0 \<and> bit (flag ch) 1 \<and> bit (flag ch) 2"
proof -
  have "bit (IKC_FLAG_DESTROYING OR IKC_FLAG_DESTROY_ACKED) n \<longleftrightarrow> n = 1 \<or> n = 2" for n
    unfolding flag_bits bit_or_iff bit_exp_iff by auto
  then show ?thesis
    unfolding shut_down_def status_eq_iff by auto
qed

lemma flag_test_bits:
  "f AND IKC_FLAG_DESTROYING = 0 \<longleftrightarrow> \<not> bit f 1"
  "f AND IKC_FLAG_DESTROY_ACKED = 0 \<longleftrightarrow> \<not> bit f 2"
  unfolding flag_bits by (rule and_exp_eq_0_iff_not_bit)+

lemma shut_down_flag:
  assumes "ihk_ikc_channel_enabled ch"
  shows "shut_down (ch\<lparr>flag := (flag ch OR IKC_FLAG_DESTROY_ACKED) AND NOT IKC_FLAG_ENABLED OR IKC_FLAG_DESTROYING\<rparr>)"
    and "shut_down (ch\<lparr>flag := (flag ch AND NOT IKC_FLAG_ENABLED OR IKC_FLAG_DESTROYING) OR IKC_FLAG_DESTROY_ACKED\<rparr>)"
  using assms by (simp_all add: enabled_iff_bits shut_down_iff_bits flag_bits bit_simps)

lemma enabled_bits:
  assumes "ihk_ikc_channel_enabled ch"
  shows "(flag ch AND NOT IKC_FLAG_ENABLED) AND IKC_FLAG_DESTROYING = 0"
    "(flag ch AND NOT IKC_FLAG_ENABLED OR IKC_FLAG_DESTROYING) AND IKC_FLAG_DESTROY_ACKED = 0"
    "flag ch AND IKC_FLAG_DESTROYING = 0"
    "((flag ch OR IKC_FLAG_DESTROY_ACKED) AND NOT IKC_FLAG_ENABLED) AND IKC_FLAG_DESTROYING = 0"
    "((flag ch OR IKC_FLAG_DESTROY_ACKED) AND NOT IKC_FLAG_ENABLED OR IKC_FLAG_DESTROYING) AND IKC_FLAG_DESTROY_ACKED \<noteq> 0"
    "(flag ch AND NOT IKC_FLAG_ENABLED OR IKC_FLAG_DESTROYING) AND IKC_FLAG_DESTROYING \<noteq> 0"
  unfolding flag_test_bits
  using assms by (simp_all add: enabled_iff_bits flag_bits bit_simps)

lemma shut_down_not_enabled: "shut_down ch \<Longrightarrow> \<not> ihk_ikc_channel_enabled ch"
  by (simp add: shut_down_iff_bits enabled_iff_bits)

definition disconnect_packet :: "bytes \<Rightarrow> ihk_ikc_channel_desc \<Rightarrow> ihk_ikc_master_packet" where
  "disconnect_packet g ch = master_packet g MSG_DISCONNECT (remote_channel_id ch)
     (ucast (channel_id ch)) 0 0 (remote_channel_va ch) 0"

text \<open>The peer gets a disconnection for its channel \<open>c\<close>: it shuts the channel down and answers.\<close>

lemma handle_disconnect_peer:
  assumes ch: "chans st c = Some ch" "ihk_ikc_channel_enabled ch" "c \<noteq> 0"
    and m: "mchannel st = Some m" "sends_on st m s Q" "0 < queue_slack Q" "c \<noteq> m"
    and pk: "param3 pk = c"
  shows "\<exists>ch' wl. handle_disconnect g pk st =
      Some (0, st\<lparr>chans := (chans st)(c \<mapsto> ch'),
        qmem := (qmem st)(s \<mapsto> written Q (packet_to_mem (disconnect_packet g ch) g)),
        irqs := irqs st @ [read_cpu Q], wait_list := wl\<rparr>) \<and> shut_down ch'"
proof -
  let ?fl = "(flag ch OR IKC_FLAG_DESTROY_ACKED) AND NOT IKC_FLAG_ENABLED OR IKC_FLAG_DESTROYING"
  let ?ch = "ch\<lparr>flag := ?fl\<rparr>"
  let ?st = "st\<lparr>chans := (chans st)(c \<mapsto> ?ch)\<rparr>"
  have "sends_on ?st m s Q"
    using m by (auto simp: sends_on_def)
  from send_room [OF this m(3), of "packet_to_mem (disconnect_packet g ch) g" 0]
  have "ihk_send_disconnect g c ?st =
      Some (0, ?st\<lparr>qmem := (qmem st)(s \<mapsto> written Q (packet_to_mem (disconnect_packet g ch) g)),
        irqs := irqs st @ [read_cpu Q]\<rparr>)"
    using m(1) by (simp add: ihk_send_disconnect_def ihk_ikc_master_send_def disconnect_packet_def)
  with ch pk enabled_bits [OF ch(2)] shut_down_flag(1) [OF ch(2)] show ?thesis
    by (intro exI [of _ ?ch])
      (simp add: handle_disconnect_def ihk_ikc_disconnect_def upd_chan_def
        ihk_ikc_master_reply_handler_def, blast)
qed

text \<open>The kernel that started the disconnection gets the answer: the channel is acknowledged.\<close>

lemma handle_disconnect_own:
  assumes "chans st c = Some ch" and "c \<noteq> 0" and "param3 pk = c"
    and "flag ch AND IKC_FLAG_DESTROYING \<noteq> 0"
  shows "handle_disconnect g pk st = Some (ihk_ikc_master_reply_handler pk
      (st\<lparr>chans := (chans st)(c \<mapsto> ch\<lparr>flag := flag ch OR IKC_FLAG_DESTROY_ACKED\<rparr>)\<rparr>))"
  using assms by (simp add: handle_disconnect_def upd_chan_def)

lemma peer_disconnects:
  assumes up: "master_up B m s Q r R" and it: "queue_items R = [pkt_bytes R (packet_to_mem pk gr)]"
    and sl: "0 < queue_slack Q" and pk: "pkt_msg pk = MSG_DISCONNECT" "param3 pk = c"
    and ch: "chans B c = Some ch" "ihk_ikc_channel_enabled ch" "c \<noteq> 0" "c \<noteq> m"
  shows "\<exists>B' R' ch'.
    ihk_ikc_recv_handler fresh (Some m) (master_handler env g fresh hs arch) 0 B = Some (0, B') \<and>
    qmem B' = (qmem B)(r \<mapsto> R', s \<mapsto> written Q (packet_to_mem (disconnect_packet g ch) g)) \<and>
    wf_queue R' \<and> pktsize R' = 56 \<and> chans B' c = Some ch' \<and> shut_down ch'"
proof -
  from up obtain chm where m: "mchannel B = Some m" "m \<noteq> 0" "sends_on B m s Q" "receives_on B m r R"
      "pktsize R = 56" "chans B m = Some chm" "flag chm AND IKC_FLAG_NO_COPY = 0" "s \<noteq> r"
    by (auto simp: master_up_def)
  from master_recv [OF m(4) it m(5,6), of fresh "master_handler env g fresh hs arch"] obtain pkt ps R' where
    rc: "ihk_ikc_recv_handler fresh (Some m) (master_handler env g fresh hs arch) 0 B = do {
      st' \<leftarrow> master_handler env g fresh hs arch m pkt
        (B\<lparr>chans := (chans B)(m \<mapsto> chm\<lparr>packet_pool := ps\<rparr>), qmem := (qmem B)(r \<mapsto> R')\<rparr>);
      ch' \<leftarrow> chans st' m;
      if flag ch' AND IKC_FLAG_NO_COPY \<noteq> 0
      then map_option (Pair 0) (ihk_ikc_send_interrupt m st') else Some (0, st')
    }" and pkt: "packet_of_mem pkt = pk\<lparr>pkt_channel := m\<rparr>" "get64 0 pkt = m"
    and R': "wf_queue R'" "pktsize R' = 56" by blast
  let ?B1 = "B\<lparr>chans := (chans B)(m \<mapsto> chm\<lparr>packet_pool := ps\<rparr>), qmem := (qmem B)(r \<mapsto> R')\<rparr>"
  have "sends_on ?B1 m s Q" "mchannel ?B1 = Some m" "chans ?B1 c = Some ch" "param3 (packet_of_mem pkt) = c"
    using m ch pk pkt by (auto simp: sends_on_def ihk_ikc_channel_enabled_def)
  from handle_disconnect_peer [OF this(3) ch(2,3) this(2,1) sl ch(4) this(4), of g]
  obtain ch' wl where
    hd: "handle_disconnect g (packet_of_mem pkt) ?B1 =
      Some (0, ?B1\<lparr>chans := (chans ?B1)(c \<mapsto> ch'),
        qmem := (qmem ?B1)(s \<mapsto> written Q (packet_to_mem (disconnect_packet g ch) g)),
        irqs := irqs B @ [read_cpu Q], wait_list := wl\<rparr>)" "shut_down ch'" by auto
  show ?thesis
    using rc hd m ch R' pk pkt(2) pkt(1)
    by (intro exI [of _ "upd_chan m (\<lambda>ch. ch\<lparr>packet_pool := packet_pool ch @ [pkt]\<rparr>)
          (?B1\<lparr>chans := (chans ?B1)(c \<mapsto> ch'),
        qmem := (qmem ?B1)(s \<mapsto> written Q (packet_to_mem (disconnect_packet g ch) g)),
        irqs := irqs B @ [read_cpu Q], wait_list := wl\<rparr>)"] exI [of _ R'] exI [of _ ch'])
      (simp add: master_handler_def ihk_ikc_master_channel_packet_handler_def msg_defs
        ihk_ikc_release_packet_def)
qed

lemma disconnect_answered:
  assumes up: "master_up A m s Q r R" and it: "queue_items R = [pkt_bytes R (packet_to_mem pk gr)]"
    and pk: "pkt_msg pk = MSG_DISCONNECT" "param3 pk = c"
    and ch: "chans A c = Some ch" "flag ch AND IKC_FLAG_DESTROYING \<noteq> 0" "c \<noteq> 0" "c \<noteq> m"
  shows "\<exists>A'.
    ihk_ikc_recv_handler fresh (Some m) (master_handler env g fresh hs arch) 0 A = Some (0, A') \<and>
    chans A' c = Some (ch\<lparr>flag := flag ch OR IKC_FLAG_DESTROY_ACKED\<rparr>)"
proof -
  from up obtain chm where m: "mchannel A = Some m" "m \<noteq> 0" "receives_on A m r R"
      "pktsize R = 56" "chans A m = Some chm" "flag chm AND IKC_FLAG_NO_COPY = 0"
    by (auto simp: master_up_def)
  from master_recv [OF m(3) it m(4,5), of fresh "master_handler env g fresh hs arch"] obtain pkt ps R' where
    rc: "ihk_ikc_recv_handler fresh (Some m) (master_handler env g fresh hs arch) 0 A = do {
      st' \<leftarrow> master_handler env g fresh hs arch m pkt
        (A\<lparr>chans := (chans A)(m \<mapsto> chm\<lparr>packet_pool := ps\<rparr>), qmem := (qmem A)(r \<mapsto> R')\<rparr>);
      ch' \<leftarrow> chans st' m;
      if flag ch' AND IKC_FLAG_NO_COPY \<noteq> 0
      then map_option (Pair 0) (ihk_ikc_send_interrupt m st') else Some (0, st')
    }" and pkt: "packet_of_mem pkt = pk\<lparr>pkt_channel := m\<rparr>" "get64 0 pkt = m" by blast
  show ?thesis
    using rc m pk pkt ch handle_disconnect_own [of "A\<lparr>chans := (chans A)(m \<mapsto> chm\<lparr>packet_pool := ps\<rparr>),
        qmem := (qmem A)(r \<mapsto> R')\<rparr>" c ch "packet_of_mem pkt" g]
    by (simp add: master_handler_def ihk_ikc_master_channel_packet_handler_def msg_defs
        ihk_ikc_release_packet_def ihk_ikc_master_reply_handler_def upd_chan_def)
qed

lemma exchange_disconnect:
  fixes st :: "'b ikc_scheme ikc_scheme"
  assumes A: "master_up st mA s (written QA (packet_to_mem pk gr)) r RA"
    and B: "mchannel (ikc.more st) = Some mB"
      "master_up ((ikc.more st)\<lparr>qmem := qmem st\<rparr>) mB r RA s (written QA (packet_to_mem pk gr))"
    and QA: "wf_queue QA" "queue_items QA = []" "0 < queue_slack QA"
    and RA: "queue_items RA = []" "0 < queue_slack RA"
    and pk: "pkt_msg pk = MSG_DISCONNECT" "param3 pk = cb"
    and chB: "chans (ikc.more st) cb = Some chB" "ihk_ikc_channel_enabled chB" "cb \<noteq> 0" "cb \<noteq> mB"
    and chA: "chans st ca = Some chA" "flag chA AND IKC_FLAG_DESTROYING \<noteq> 0" "ca \<noteq> 0" "ca \<noteq> mA"
    and va: "remote_channel_va chB = ca"
  shows "\<exists>st' chB'. peer_answers keA keB st = Some (0, st') \<and>
    chans st' ca = Some (chA\<lparr>flag := flag chA OR IKC_FLAG_DESTROY_ACKED\<rparr>) \<and>
    chans (ikc.more st') cb = Some chB' \<and> shut_down chB'"
proof -
  let ?Q = "written QA (packet_to_mem pk gr)" and ?B = "(ikc.more st)\<lparr>qmem := qmem st\<rparr>"
  have "queue_items ?Q = [pkt_bytes ?Q (packet_to_mem pk gr)]" and "chans ?B cb = Some chB"
    using written_pending QA chB by auto
  from peer_disconnects [OF B(2) this(1) RA(2) pk this(2) chB(2-4), where fresh = "ke_fresh keB"
      and env = "ke_alloc keB" and g = "ke_stack keB" and hs = "\<lambda>_ _ _ _. None" and arch = "\<lambda>_ _. None"]
  obtain B' R' chB' where
    b: "ihk_ikc_recv_handler (ke_fresh keB) (Some mB) (kernel_handler keB) 0 ?B = Some (0, B')"
    and mem: "qmem B' = (qmem st)(s \<mapsto> R', r \<mapsto> written RA
        (packet_to_mem (disconnect_packet (ke_stack keB) chB) (ke_stack keB)))"
    and R': "wf_queue R'" "pktsize R' = 56" and B': "chans B' cb = Some chB'" "shut_down chB'"
    by (auto simp: kernel_handler_def)
  let ?A = "st\<lparr>qmem := qmem B'\<rparr>" and ?rep = "disconnect_packet (ke_stack keB) chB"
  have wfR: "wf_queue RA" "pktsize RA = 56" "s \<noteq> r"
    using A by (auto simp: master_up_def receives_on_def)
  note wr = written_pending [OF wfR(1) RA(2,1), of "packet_to_mem ?rep (ke_stack keB)"]
  have "master_up ?A mA s R' r (written RA (packet_to_mem ?rep (ke_stack keB)))"
    using A R' wr(2) wfR mem by (auto simp: master_up_def sends_on_def receives_on_def)
  moreover have "pkt_msg ?rep = MSG_DISCONNECT" "param3 ?rep = ca" "chans ?A ca = Some chA"
    using va chA by (simp_all add: disconnect_packet_def master_packet_def)
  ultimately obtain A' where
    "ihk_ikc_recv_handler (ke_fresh keA) (Some mA) (kernel_handler keA) 0 ?A = Some (0, A')"
    "chans A' ca = Some (chA\<lparr>flag := flag chA OR IKC_FLAG_DESTROY_ACKED\<rparr>)"
    using disconnect_answered [OF _ wr(1) _ _ _ chA(2-4), where fresh = "ke_fresh keA"
      and env = "ke_alloc keA" and g = "ke_stack keA" and hs = "\<lambda>_ _ _ _. None" and arch = "\<lambda>_ _. None"]
    unfolding kernel_handler_def by blast
  moreover have "mchannel st = Some mA"
    using A by (simp add: master_up_def)
  ultimately show ?thesis
    using b B(1) B' by (simp add: peer_answers_def)
qed



text \<open>The two kernels of \<open>demo_pair\<close> with one connection between them.\<close>

definition demo_end :: "u64 \<Rightarrow> u64 \<Rightarrow> u64 \<Rightarrow> ihk_ikc_channel_desc" where
  "demo_end rq sq va = demo_chan\<lparr>remote_channel_va := va,
     recv := zero_queue_desc\<lparr>qd_queue := Some rq\<rparr>, send := zero_queue_desc\<lparr>qd_queue := Some sq\<rparr>\<rparr>"

definition demo_linked :: "ikc ikc_scheme" where
  "demo_linked = (demo_ikc (demo_peer\<lparr>chans := (chans demo_peer)(2048 \<mapsto> demo_end 16384 12288 1024)\<rparr>))
     \<lparr>mchannel := Some 256,
      chans := [256 \<mapsto> demo_chan, 1024 \<mapsto> demo_end 12288 16384 2048],
      qmem := [4096 \<mapsto> demo_ring, 8192 \<mapsto> demo_ring, 12288 \<mapsto> demo_ring, 16384 \<mapsto> demo_ring]\<rparr>"

lemma demo_linked_ok:
  "master_up demo_linked 256 8192 demo_ring 4096 demo_ring"
  "master_up ((ikc.more demo_linked)\<lparr>qmem := qmem demo_linked\<rparr>) 512 4096 demo_ring 8192 demo_ring"
  "connected demo_linked 1024 12288 ((ikc.more demo_linked)\<lparr>qmem := qmem demo_linked\<rparr>) 2048 16384"
  by (simp_all add: master_up_def connected_def sends_on_def receives_on_def demo_ring_wf demo_defs
      demo_linked_def demo_end_def ihk_ikc_channel_enabled_def ikc_flag_defs)
    (simp_all add: demo_ring_def)


section \<open>Refused connections\<close>

lemma master_send_room:
  assumes "mchannel st = Some m" and "sends_on st m s Q" and "0 < queue_slack Q"
  shows "ihk_ikc_master_send g msg ref a1 a2 a3 a4 a5 st =
    Some (0, st\<lparr>qmem := (qmem st)(s \<mapsto> written Q (packet_to_mem (master_packet g msg ref a1 a2 a3 a4 a5) g)),
      irqs := irqs st @ [read_cpu Q]\<rparr>)"
  using send_room [OF assms(2,3), of _ 0] assms(1) by (simp add: ihk_ikc_master_send_def)

text \<open>
  Property C19. A request for a valid port without a listener is answered with a packet from
  which \<open>ihk_ikc_connect\<close> takes the negative error \<open>-ECONNREFUSED\<close>; a request for a port
  number out of range is answered with one from which it takes \<open>+EINVAL\<close>, a positive
  return value. Nothing but the answer is sent in either case.
\<close>

theorem connect_refusals:
  assumes "mchannel st = Some m" and "sends_on st m s Q" and "0 < queue_slack Q"
    and "prt = sint (ucast (param0 pk AND 0xffffffff) :: u32)"
    and "prt < 0 \<or> 512 \<le> prt \<or> listeners st ! nat prt = None"
  shows "\<exists>reply. handle_connect env g pk st =
      Some (0, st\<lparr>qmem := (qmem st)(s \<mapsto> written Q (packet_to_mem reply g)), irqs := irqs st @ [read_cpu Q]\<rparr>) \<and>
    pkt_msg reply = MSG_CONNECT_REPLY \<and> pkt_ref reply = pkt_ref pk \<and>
    connect_error reply = (if 0 \<le> prt \<and> prt < 512 then err ECONNREFUSED else errno_code EINVAL)"
proof (cases "0 \<le> prt \<and> prt < 512")
  case True
  then show ?thesis
    using assms master_send_room [OF assms(1-3)]
    by (intro exI [of _ "master_packet g MSG_CONNECT_REPLY (pkt_ref pk) (of_int (- err ECONNREFUSED)) 0 0 0 0"])
      (simp add: handle_connect_def ihk_ikc_accept_def IHK_IKC_MAX_PORT_def master_packet_def
        connect_error_def err_def)
next
  case False
  then have "prt < 0 \<or> IHK_IKC_MAX_PORT \<le> prt"
    by (auto simp: IHK_IKC_MAX_PORT_def)
  then have "handle_connect env g pk st =
      Some (0, st\<lparr>qmem := (qmem st)(s \<mapsto> written Q (packet_to_mem (master_packet g MSG_CONNECT_REPLY
        (pkt_ref pk) (of_int (- errno_code EINVAL)) 0 0 0 0) g)), irqs := irqs st @ [read_cpu Q]\<rparr>)"
    unfolding handle_connect_def assms(4) [symmetric] Let_def
    using master_send_room [OF assms(1-3)] by simp
  then show ?thesis
    using False by (intro exI, intro conjI) (assumption, auto simp: master_packet_def connect_error_def)
qed

theorem connect_refusals_witness:
  "\<exists>st' reply. handle_connect (ke_alloc (demo_env 1 2)) (\<lambda>_. 0) (zero_packet\<lparr>param0 := 600\<rparr>) demo_pair = Some (0, st') \<and>
    qmem st' 8192 = Some (written demo_ring (packet_to_mem reply (\<lambda>_. 0))) \<and> connect_error reply = 22"
proof -
  have "mchannel demo_pair = Some 256" "sends_on demo_pair 256 8192 demo_ring"
    using demo_master_up by (simp_all add: master_up_def)
  from connect_refusals [OF this demo_ring_wf(6), of 600 "zero_packet\<lparr>param0 := 600\<rparr>"
      "ke_alloc (demo_env 1 2)" "\<lambda>_. 0"] show ?thesis
    by (force simp: zero_packet_def)
qed

end
