(* ===== verification/Page_Alloc.thy ===== *)
theory Page_Alloc
  imports Ihk_Prelude "HOL-Library.Monad_Syntax"
begin

text \<open>
  The bitmap page allocator of \<^verbatim>\<open>linux/core/mem_alloc.c\<close>. One bit per block, 64 blocks to a
  map element; fewer than 32 blocks are taken from inside one element, first fit, and
  more are taken as whole elements.

  A result of \<open>None\<close> means that the code does something C leaves undefined: it shifts an
  \<open>int\<close> by 31 or more, or goes outside the map. The contract of a block allocator is the
  locale \<open>block_allocator\<close>, interpreted here on allocations of 1 to 30 blocks.
\<close>

section \<open>The allocator\<close>

record ihk_page_allocator_desc =
  pa_start :: u64
  pa_last :: nat
  pa_count :: nat
  pa_flag :: nat
  pa_shift :: nat
  pa_map :: "u64 list"

text \<open>\<open>1 << n\<close> with an \<open>int\<close> 1, converted to \<open>unsigned long\<close>.\<close>

definition int_shl1 :: "int \<Rightarrow> u64 option" where
  "int_shl1 n = (if 0 \<le> n \<and> n < 31 then Some (push_bit (nat n) 1) else None)"

text \<open>\<open>index * 64 + bit\<close> is an \<open>unsigned int\<close>, and so is the shifted value.\<close>

definition ADDRESS :: "ihk_page_allocator_desc \<Rightarrow> nat \<Rightarrow> nat \<Rightarrow> u64" where
  "ADDRESS desc index bt =
     pa_start desc + ucast (push_bit (pa_shift desc) (of_nat (index * 64 + bt) :: u32))"

fun reserve_padding :: "u64 list \<Rightarrow> nat \<Rightarrow> nat \<Rightarrow> u64 list option" where
  "reserve_padding m i 0 = Some m"
| "reserve_padding m i (Suc k) = do {
     b \<leftarrow> int_shl1 (int (i mod 64));
     reserve_padding (m[i div 64 := m ! (i div 64) OR b]) (i + 1) k
   }"

definition sizeof_desc :: int where
  "sizeof_desc = 56"

text \<open>
  \<open>alloc_ok\<close> tells whether the pages or the memory for the descriptor could be had. The
  outer option is definedness, the inner one the NULL result.
\<close>

definition ihk_pagealloc_init ::
  "bool \<Rightarrow> u64 \<Rightarrow> u64 \<Rightarrow> u64 \<Rightarrow> ihk_page_allocator_desc option option" where
  "ihk_pagealloc_init alloc_ok start sz unit =
     (if unit = 0 then Some None
      else
        let page_shift = int (fls (unat (ucast unit :: u32))) - 1 in
        if page_shift < 0 then None
        else
          let mapsize = sint (ucast (drop_bit (nat page_shift) sz) :: u32) in
          if mapsize < 0 \<or> mapsize + 63 \<ge> 2 ^ 31 then None
          else
            let mapaligned = (mapsize + 63) div 64 * 8;
                descsize = sizeof_desc + mapaligned;
                pages = (descsize + 4095) div 4096;
                order = int (fls (nat pages)) - 1;
                order = (if 2 ^ nat order < pages then order + 1 else order);
                flg = (if descsize \<ge> 4096 then nat order else 0)
            in if \<not> alloc_ok then Some None
            else do {
              m \<leftarrow> reserve_padding (replicate (nat (mapaligned div 8)) 0) (nat mapsize)
                    (nat (mapaligned * 8 - mapsize));
              Some (Some \<lparr>pa_start = start, pa_last = 0, pa_count = nat (mapaligned div 8),
                pa_flag = flg, pa_shift = nat page_shift, pa_map = m\<rparr>)
            })"

section \<open>Allocating inside one map element\<close>

primrec scan_bits :: "u64 \<Rightarrow> u64 \<Rightarrow> nat \<Rightarrow> nat \<Rightarrow> nat option" where
  "scan_bits v msk j 0 = None"
| "scan_bits v msk j (Suc k) =
     (if v AND push_bit j msk = 0 then Some j else scan_bits v msk (j + 1) k)"

text \<open>The last argument counts the iterations left; the result address 0 means failure.\<close>

fun alloc_loop ::
  "ihk_page_allocator_desc \<Rightarrow> u64 \<Rightarrow> nat \<Rightarrow> nat \<Rightarrow> nat \<Rightarrow> (u64 \<times> ihk_page_allocator_desc) option" where
  "alloc_loop desc msk npages mi 0 = Some (0, desc)"
| "alloc_loop desc msk npages mi (Suc k) =
     (let mi = (if mi > pa_count desc then 0 else mi) in
      if mi \<ge> length (pa_map desc) then None
      else
        let v = pa_map desc ! mi in
        if v = - 1 then alloc_loop desc msk npages (mi + 1) k
        else
          (case scan_bits v msk 0 (65 - npages) of
             Some j \<Rightarrow> Some (ADDRESS desc mi j, desc\<lparr>pa_map := (pa_map desc)[mi := v OR push_bit j msk]\<rparr>)
           | None \<Rightarrow> alloc_loop desc msk npages (mi + 1) k))"

section \<open>Allocating whole map elements\<close>

fun large_loop ::
  "ihk_page_allocator_desc \<Rightarrow> nat \<Rightarrow> nat \<Rightarrow> nat \<Rightarrow> (u64 \<times> ihk_page_allocator_desc) option" where
  "large_loop desc nblocks mi 0 = Some (0, desc)"
| "large_loop desc nblocks mi (Suc k) =
     (let mi = (if mi > pa_count desc then 0 else mi) in
      if mi + nblocks \<ge> pa_count desc then large_loop desc nblocks (mi + 1) k
      else if mi + nblocks > length (pa_map desc) then None
      else if list_all (\<lambda>j. pa_map desc ! j = 0) [mi..<mi + nblocks] then
        Some (ADDRESS desc mi 0,
          desc\<lparr>pa_map := foldl (\<lambda>m j. m[j := - 1]) (pa_map desc) [mi..<mi + nblocks]\<rparr>)
      else large_loop desc nblocks (mi + 1) k)"

definition ihk_pagealloc_large ::
  "ihk_page_allocator_desc \<Rightarrow> nat \<Rightarrow> (u64 \<times> ihk_page_allocator_desc) option" where
  "ihk_pagealloc_large desc nblocks = large_loop desc nblocks (pa_last desc) (pa_count desc)"

definition ihk_pagealloc_alloc ::
  "ihk_page_allocator_desc \<Rightarrow> int \<Rightarrow> (u64 \<times> ihk_page_allocator_desc) option" where
  "ihk_pagealloc_alloc desc npages =
     (if npages \<ge> 32
      then if npages + 63 \<ge> 2 ^ 31 then None
           else ihk_pagealloc_large desc (nat ((npages + 63) div 64))
      else do {
        b \<leftarrow> int_shl1 npages;
        alloc_loop desc (b - 1) (nat npages) (pa_last desc) (pa_count desc)
      })"

definition ihk_pagealloc_alloc_size ::
  "ihk_page_allocator_desc \<Rightarrow> u64 \<Rightarrow> (u64 \<times> ihk_page_allocator_desc) option" where
  "ihk_pagealloc_alloc_size desc sz =
     ihk_pagealloc_alloc desc (sint (ucast (drop_bit (pa_shift desc) sz) :: u32))"

section \<open>Freeing\<close>

fun free_loop :: "u64 list \<Rightarrow> nat \<Rightarrow> nat \<Rightarrow> u64 list option" where
  "free_loop m mi 0 = Some m"
| "free_loop m mi (Suc k) =
     (if mi div 64 < length m
      then free_loop (m[mi div 64 := m ! (mi div 64) AND NOT (push_bit (mi mod 64) 1)]) (mi + 1) k
      else None)"

definition ihk_pagealloc_free ::
  "ihk_page_allocator_desc \<Rightarrow> u64 \<Rightarrow> int \<Rightarrow> ihk_page_allocator_desc option" where
  "ihk_pagealloc_free desc address npages =
     (let mi = unat (ucast (drop_bit (pa_shift desc) (address - pa_start desc)) :: u32) in
      map_option (\<lambda>m. desc\<lparr>pa_map := m\<rparr>) (free_loop (pa_map desc) mi (nat npages)))"

definition ihk_pagealloc_free_size ::
  "ihk_page_allocator_desc \<Rightarrow> u64 \<Rightarrow> u64 \<Rightarrow> ihk_page_allocator_desc option" where
  "ihk_pagealloc_free_size desc address sz =
     ihk_pagealloc_free desc address (sint (ucast (drop_bit (pa_shift desc) sz) :: u32))"

section \<open>The blocks in use\<close>

definition wf_alloc :: "ihk_page_allocator_desc \<Rightarrow> bool" where
  "wf_alloc d \<longleftrightarrow> length (pa_map d) = pa_count d \<and> pa_last d = 0 \<and>
     64 * pa_count d * 2 ^ pa_shift d \<le> 2 ^ 32"

definition used :: "ihk_page_allocator_desc \<Rightarrow> nat \<Rightarrow> bool" where
  "used d n \<longleftrightarrow> n < 64 * pa_count d \<and> bit (pa_map d ! (n div 64)) (n mod 64)"

text \<open>The address of a block, and the block of an address.\<close>

definition block_addr :: "ihk_page_allocator_desc \<Rightarrow> nat \<Rightarrow> u64" where
  "block_addr d n = pa_start d + of_nat (n * 2 ^ pa_shift d)"

lemma block_bytes_lt:
  assumes "wf_alloc d" and "n < 64 * pa_count d"
  shows "n * 2 ^ pa_shift d < 2 ^ 32"
  using assms unfolding wf_alloc_def
  by (meson less_le_trans mult_strict_right_mono zero_less_numeral zero_less_power)

lemma ADDRESS_block:
  assumes "wf_alloc d" and "idx * 64 + bt < 64 * pa_count d"
  shows "ADDRESS d idx bt = block_addr d (idx * 64 + bt)"
proof -
  let ?n = "idx * 64 + bt"
  note lt = block_bytes_lt [OF assms]
  have shift: "push_bit (pa_shift d) (of_nat ?n :: u32) = of_nat (?n * 2 ^ pa_shift d)"
    by (simp add: push_bit_eq_mult)
  have widen: "ucast (of_nat m :: u32) = (of_nat m :: u64)" if "m < 2 ^ 32" for m
    using that by (simp add: word_unat_eq_iff unat_of_nat take_bit_nat_eq_self)
  show ?thesis
    unfolding ADDRESS_def block_addr_def shift widen [OF lt] by (rule refl)
qed

lemma block_of_addr:
  assumes "wf_alloc d" and "n < 64 * pa_count d"
  shows "unat (ucast (drop_bit (pa_shift d) (block_addr d n - pa_start d)) :: u32) = n"
proof -
  note lt = block_bytes_lt [OF assms]
  have "n * 1 \<le> n * 2 ^ pa_shift d"
    by (rule mult_le_mono2) simp
  with lt have n: "n < 2 ^ 32" by linarith
  have off: "block_addr d n - pa_start d = of_nat (n * 2 ^ pa_shift d)"
    by (simp only: block_addr_def add_diff_cancel_left')
  have u: "unat (of_nat m :: u64) = m" if "m < 2 ^ 32" for m
    using that by (simp add: unat_of_nat take_bit_nat_eq_self)
  have "unat (drop_bit (pa_shift d) (block_addr d n - pa_start d)) = n * 2 ^ pa_shift d div 2 ^ pa_shift d"
    unfolding off unat_drop_bit_eq u [OF lt] by (simp add: drop_bit_eq_div)
  then have "unat (drop_bit (pa_shift d) (block_addr d n - pa_start d)) = n"
    by simp
  then show ?thesis
    using n by (subst unat_ucast_down) simp_all
qed


section \<open>Runs of free bits\<close>

lemma scan_bits_Some:
  "scan_bits v m j k = Some i \<Longrightarrow> j \<le> i \<and> i < j + k \<and> v AND push_bit i m = 0"
  by (induction k arbitrary: j) (fastforce split: if_splits)+

lemma scan_bits_None:
  "scan_bits v m j k = None \<Longrightarrow> j \<le> i \<Longrightarrow> i < j + k \<Longrightarrow> v AND push_bit i m \<noteq> 0"
proof (induction k arbitrary: j)
  case (Suc k)
  then show ?case
    by (cases "i = j") (auto split: if_splits)
qed simp

lemma run_free_iff:
  assumes "j + n \<le> 64"
  shows "(v :: u64) AND push_bit j (mask n) = 0 \<longleftrightarrow> (\<forall>i. j \<le> i \<and> i < j + n \<longrightarrow> \<not> bit v i)"
proof
  assume z: "v AND push_bit j (mask n) = 0"
  show "\<forall>i. j \<le> i \<and> i < j + n \<longrightarrow> \<not> bit v i"
  proof (intro allI impI)
    fix i
    assume i: "j \<le> i \<and> i < j + n"
    have "\<not> bit (v AND push_bit j (mask n)) i"
      unfolding z by simp
    with i assms show "\<not> bit v i"
      by (auto simp: bit_and_iff bit_push_bit_iff bit_mask_iff)
  qed
next
  assume "\<forall>i. j \<le> i \<and> i < j + n \<longrightarrow> \<not> bit v i"
  then show "v AND push_bit j (mask n) = 0"
    by (intro bit_word_eqI) (auto simp: bit_and_iff bit_push_bit_iff bit_mask_iff)
qed

lemma bit_or_run:
  assumes "j + n \<le> 64" and "i < 64"
  shows "bit ((v :: u64) OR push_bit j (mask n)) i \<longleftrightarrow> bit v i \<or> (j \<le> i \<and> i < j + n)"
  using assms by (auto simp: bit_or_iff bit_push_bit_iff bit_mask_iff)

text \<open>Block numbers as an element and a bit.\<close>

lemma block_in_element:
  assumes "j + n \<le> 64"
  shows "mi * 64 + j \<le> b \<and> b < mi * 64 + j + n \<longleftrightarrow>
    b div 64 = mi \<and> j \<le> b mod 64 \<and> b mod 64 < j + (n :: nat)"
    (is "?l \<longleftrightarrow> ?r")
proof
  assume l: ?l
  define x where "x = b - mi * 64"
  with l assms have "b = mi * 64 + x" "j \<le> x" "x < j + n" "x < 64" by linarith+
  then show ?r by simp
next
  assume r: ?r
  have "b = b div 64 * 64 + b mod 64" by simp
  with r show ?l by linarith
qed

section \<open>Small allocations\<close>

text \<open>A run of \<open>n\<close> free blocks that does not cross a map element, starting at block \<open>b\<close>.\<close>

definition free_run :: "ihk_page_allocator_desc \<Rightarrow> nat \<Rightarrow> nat \<Rightarrow> bool" where
  "free_run d n b \<longleftrightarrow> b mod 64 + n \<le> 64 \<and> b < 64 * pa_count d \<and> (\<forall>i. b \<le> i \<and> i < b + n \<longrightarrow> \<not> used d i)"

lemma free_run_element:
  assumes "wf_alloc d" and "mi < pa_count d" and "j + n \<le> 64" and "0 < n"
  shows "free_run d n (mi * 64 + j) \<longleftrightarrow> pa_map d ! mi AND push_bit j (mask n) = 0"
proof -
  have j: "j < 64" using assms by linarith
  have "(\<forall>i. mi * 64 + j \<le> i \<and> i < mi * 64 + j + n \<longrightarrow> \<not> used d i) \<longleftrightarrow>
      (\<forall>i. j \<le> i \<and> i < j + n \<longrightarrow> \<not> bit (pa_map d ! mi) i)"
  proof (intro iffI allI impI)
    fix i
    assume u: "\<forall>i. mi * 64 + j \<le> i \<and> i < mi * 64 + j + n \<longrightarrow> \<not> used d i" and i: "j \<le> i \<and> i < j + n"
    with assms have "\<not> used d (mi * 64 + i)" and "i < 64" and "mi * 64 + i < 64 * pa_count d"
      by auto
    then show "\<not> bit (pa_map d ! mi) i" by (simp add: used_def)
  next
    fix b
    assume u: "\<forall>i. j \<le> i \<and> i < j + n \<longrightarrow> \<not> bit (pa_map d ! mi) i"
      and "mi * 64 + j \<le> b \<and> b < mi * 64 + j + n"
    with block_in_element [OF assms(3), of mi b] show "\<not> used d b"
      by (auto simp: used_def)
  qed
  moreover have "(mi * 64 + j) mod 64 = j" and "mi * 64 + j < 64 * pa_count d"
    using j assms(2) by auto
  ultimately show ?thesis
    using assms(3) run_free_iff [OF assms(3), of "pa_map d ! mi"] by (simp add: free_run_def)
qed

definition mark_used :: "ihk_page_allocator_desc \<Rightarrow> nat \<Rightarrow> nat \<Rightarrow> nat \<Rightarrow> ihk_page_allocator_desc" where
  "mark_used d mi j n = d\<lparr>pa_map := (pa_map d)[mi := pa_map d ! mi OR push_bit j (mask n)]\<rparr>"

lemma mark_used_wf [simp]: "wf_alloc (mark_used d mi j n) = wf_alloc d"
  by (simp add: wf_alloc_def mark_used_def)

lemma used_mark_used:
  assumes "wf_alloc d" and "mi < pa_count d" and "j + n \<le> 64"
  shows "used (mark_used d mi j n) b \<longleftrightarrow> used d b \<or> (mi * 64 + j \<le> b \<and> b < mi * 64 + j + n)"
proof (cases "b div 64 = mi")
  case True
  then have "b < 64 * pa_count d" using assms(2) by (metis div_less_iff_less_mult mult.commute zero_less_numeral)
  with True assms block_in_element [OF assms(3), of mi b] bit_or_run [OF assms(3), of "b mod 64"] show ?thesis
    by (auto simp: used_def mark_used_def wf_alloc_def)
next
  case False
  with assms block_in_element [OF assms(3), of mi b] show ?thesis
    by (auto simp: used_def mark_used_def)
qed

lemma full_element: "v = (- 1 :: u64) \<Longrightarrow> j + n \<le> 64 \<Longrightarrow> 0 < n \<Longrightarrow> v AND push_bit j (mask n) \<noteq> 0"
  by (subst run_free_iff) (auto intro!: exI [of _ j])

lemma alloc_loop_spec:
  assumes "wf_alloc d" and "mi + k = pa_count d" and "0 < n" and "n \<le> 64"
  shows "(\<exists>m j. mi \<le> m \<and> m < pa_count d \<and> j + n \<le> 64 \<and> free_run d n (m * 64 + j) \<and>
        alloc_loop d (mask n) n mi k = Some (block_addr d (m * 64 + j), mark_used d m j n)) \<or>
      ((\<forall>m j. mi \<le> m \<and> m < pa_count d \<and> j + n \<le> 64 \<longrightarrow> \<not> free_run d n (m * 64 + j)) \<and>
        alloc_loop d (mask n) n mi k = Some (0, d))"
  using assms(2)
proof (induction k arbitrary: mi)
  case 0
  then show ?case by auto
next
  case (Suc k)
  have mi: "mi < pa_count d" "mi < length (pa_map d)"
    using Suc.prems assms(1) by (auto simp: wf_alloc_def)
  have IH: "\<not> (\<exists>j. j + n \<le> 64 \<and> free_run d n (mi * 64 + j)) \<Longrightarrow>
      alloc_loop d (mask n) n mi (Suc k) = alloc_loop d (mask n) n (Suc mi) k \<Longrightarrow> ?case"
    using Suc.IH [of "Suc mi"] Suc.prems by (metis Suc_leD add_Suc_shift le_antisym not_less_eq_eq)
  show ?case
  proof (cases "pa_map d ! mi = - 1")
    case True
    show ?thesis
    proof (rule IH)
      show "\<not> (\<exists>j. j + n \<le> 64 \<and> free_run d n (mi * 64 + j))"
        using full_element [OF True] assms free_run_element [OF assms(1) mi(1) _ assms(3)] by blast
    qed (use True mi in \<open>simp\<close>)
  next
    case False
    show ?thesis
    proof (cases "scan_bits (pa_map d ! mi) (mask n) 0 (65 - n)")
      case None
      show ?thesis
      proof (rule IH)
        show "\<not> (\<exists>j. j + n \<le> 64 \<and> free_run d n (mi * 64 + j))"
          using scan_bits_None [OF None] assms free_run_element [OF assms(1) mi(1) _ assms(3)] by auto
      qed (use False None mi in \<open>simp\<close>)
    next
      case (Some j)
      from scan_bits_Some [OF this] assms(4) have j: "j + n \<le> 64" "pa_map d ! mi AND push_bit j (mask n) = 0"
        by auto
      then have "free_run d n (mi * 64 + j)"
        using free_run_element [OF assms(1) mi(1) _ assms(3)] by blast
      moreover have "ADDRESS d mi j = block_addr d (mi * 64 + j)"
        using mi j assms(3) by (intro ADDRESS_block [OF assms(1)]) linarith
      ultimately show ?thesis
        using Some False mi j by (intro disjI1 exI [of _ mi] exI [of _ j]) (simp add: mark_used_def)
    qed
  qed
qed

lemma small_alloc:
  assumes "0 \<le> n" and "n < 31"
  shows "ihk_pagealloc_alloc d n = alloc_loop d (mask (nat n)) (nat n) (pa_last d) (pa_count d)"
  using assms by (simp add: ihk_pagealloc_alloc_def int_shl1_def mask_eq_exp_minus_1 push_bit_eq_mult)

text \<open>An allocation of 1 to 30 blocks finds a run inside one map element exactly when there is one.\<close>

lemma alloc_small_spec:
  assumes "wf_alloc d" and "0 < n" and "n < 31"
  shows "(\<exists>b. free_run d n b \<and> (\<exists>d'. ihk_pagealloc_alloc d (int n) = Some (block_addr d b, d') \<and>
        wf_alloc d' \<and> block_addr d' = block_addr d \<and>
        (\<forall>i. used d' i \<longleftrightarrow> used d i \<or> (b \<le> i \<and> i < b + n)))) \<or>
      ((\<nexists>b. free_run d n b) \<and> ihk_pagealloc_alloc d (int n) = Some (0, d))"
proof -
  have al: "ihk_pagealloc_alloc d (int n) = alloc_loop d (mask n) n 0 (pa_count d)"
    using assms small_alloc [of "int n" d] by (simp add: wf_alloc_def)
  have n64: "n \<le> 64" using assms by simp
  from alloc_loop_spec [OF assms(1) _ assms(2) n64, of 0 "pa_count d"]
  consider (found) m j where "m < pa_count d" "j + n \<le> 64" "free_run d n (m * 64 + j)"
      "alloc_loop d (mask n) n 0 (pa_count d) = Some (block_addr d (m * 64 + j), mark_used d m j n)"
    | (none) "\<forall>m j. m < pa_count d \<and> j + n \<le> 64 \<longrightarrow> \<not> free_run d n (m * 64 + j)"
      "alloc_loop d (mask n) n 0 (pa_count d) = Some (0, d)" by auto
  then show ?thesis
  proof cases
    case found
    have "block_addr (mark_used d m j n) = block_addr d"
      by (simp add: block_addr_def mark_used_def fun_eq_iff)
    with found al assms(1) used_mark_used [OF assms(1) found(1,2)] show ?thesis
      by (intro disjI1 exI [of _ "m * 64 + j"]) simp
  next
    case none
    have "\<not> free_run d n b" for b
    proof
      assume fr: "free_run d n b"
      then have "b div 64 < pa_count d" "b mod 64 + n \<le> 64"
        by (auto simp: free_run_def less_mult_imp_div_less mult.commute)
      with none(1) fr show False by (metis div_mult_mod_eq)
    qed
    with none al show ?thesis by simp
  qed
qed

section \<open>Freeing\<close>

lemma free_loop_spec:
  assumes "mi + k \<le> 64 * length m"
  shows "\<exists>m'. free_loop m mi k = Some m' \<and> length m' = length m \<and>
    (\<forall>i < 64 * length m. bit (m' ! (i div 64)) (i mod 64) \<longleftrightarrow>
       bit (m ! (i div 64)) (i mod 64) \<and> \<not> (mi \<le> i \<and> i < mi + k))"
  using assms
proof (induction k arbitrary: m mi)
  case 0
  then show ?case by simp
next
  case (Suc k)
  let ?e = "mi div 64"
  let ?m = "m[?e := m ! ?e AND NOT (push_bit (mi mod 64) 1)]"
  have e: "?e < length m"
    using Suc.prems by (simp add: less_mult_imp_div_less mult.commute)
  from Suc.IH [of "mi + 1" ?m] Suc.prems obtain m' where
    m': "free_loop ?m (mi + 1) k = Some m'" "length m' = length m"
      "\<forall>i < 64 * length m. bit (m' ! (i div 64)) (i mod 64) \<longleftrightarrow>
         bit (?m ! (i div 64)) (i mod 64) \<and> \<not> (mi + 1 \<le> i \<and> i < mi + 1 + k)" by auto
  have clear: "bit (?m ! (i div 64)) (i mod 64) \<longleftrightarrow> bit (m ! (i div 64)) (i mod 64) \<and> i \<noteq> mi"
    if "i < 64 * length m" for i
  proof (cases "i div 64 = ?e")
    case True
    moreover have "i mod 64 = mi mod 64 \<longleftrightarrow> i = mi"
      using True by (metis div_mult_mod_eq)
    ultimately show ?thesis
      using e by (auto simp: bit_and_iff bit_not_iff bit_push_bit_iff bit_exp_iff)
  next
    case False
    then show ?thesis by auto
  qed
  from e m' clear show ?case by (auto simp: Suc_le_eq)
qed

lemma free_spec:
  assumes "wf_alloc d" and "b + n \<le> 64 * pa_count d" and "0 < n"
  shows "\<exists>d'. ihk_pagealloc_free d (block_addr d b) (int n) = Some d' \<and> wf_alloc d' \<and>
    block_addr d' = block_addr d \<and> (\<forall>i. used d' i \<longleftrightarrow> used d i \<and> \<not> (b \<le> i \<and> i < b + n))"
proof -
  have len: "length (pa_map d) = pa_count d"
    using assms(1) by (simp add: wf_alloc_def)
  have "b < 64 * pa_count d" using assms by linarith
  note blk = block_of_addr [OF assms(1) this]
  from free_loop_spec [of b n "pa_map d"] assms(2) len obtain m' where
    m': "free_loop (pa_map d) b n = Some m'" "length m' = pa_count d"
      "\<forall>i < 64 * pa_count d. bit (m' ! (i div 64)) (i mod 64) \<longleftrightarrow>
         bit (pa_map d ! (i div 64)) (i mod 64) \<and> \<not> (b \<le> i \<and> i < b + n)" by auto
  have "ihk_pagealloc_free d (block_addr d b) (int n) = Some (d\<lparr>pa_map := m'\<rparr>)"
    using m'(1) by (simp add: ihk_pagealloc_free_def blk)
  moreover have "block_addr (d\<lparr>pa_map := m'\<rparr>) = block_addr d"
    by (simp add: block_addr_def fun_eq_iff)
  ultimately show ?thesis
    using m' assms(1) by (auto simp: wf_alloc_def used_def)
qed

section \<open>The contract of a block allocator\<close>

text \<open>
  \<open>sizes\<close> are the block counts that clients may ask for. A granted request takes free
  blocks and no others; a freed range is free again. Address 0 is the failure value.
\<close>

locale block_allocator =
  fixes inv :: "'s \<Rightarrow> bool"
    and blocks :: "'s \<Rightarrow> nat set"
    and addr :: "'s \<Rightarrow> nat \<Rightarrow> u64"
    and sizes :: "nat set"
    and alloc :: "'s \<Rightarrow> int \<Rightarrow> (u64 \<times> 's) option"
    and free :: "'s \<Rightarrow> u64 \<Rightarrow> int \<Rightarrow> 's option"
  assumes alloc_law: "inv s \<Longrightarrow> n \<in> sizes \<Longrightarrow>
      (\<exists>b s'. alloc s (int n) = Some (addr s b, s') \<and> inv s' \<and> addr s' = addr s \<and>
         {b..<b + n} \<inter> blocks s = {} \<and> blocks s' = blocks s \<union> {b..<b + n}) \<or>
      alloc s (int n) = Some (0, s)"
    and free_law: "inv s \<Longrightarrow> n \<in> sizes \<Longrightarrow> {b..<b + n} \<subseteq> blocks s \<Longrightarrow>
      \<exists>s'. free s (addr s b) (int n) = Some s' \<and> inv s' \<and> addr s' = addr s \<and>
        blocks s' = blocks s - {b..<b + n}"
begin

text \<open>Sequences of calls from \<open>s0\<close>, with the ranges that are granted and not yet freed.\<close>

inductive session :: "'s \<Rightarrow> 's \<Rightarrow> (nat \<times> nat) list \<Rightarrow> bool" for s0 where
  start: "session s0 s0 []"
| grant: "session s0 s live \<Longrightarrow> n \<in> sizes \<Longrightarrow> alloc s (int n) = Some (addr s b, s') \<Longrightarrow>
    {b..<b + n} \<inter> blocks s = {} \<Longrightarrow> blocks s' = blocks s \<union> {b..<b + n} \<Longrightarrow> session s0 s' ((b, n) # live)"
| refuse: "session s0 s live \<Longrightarrow> n \<in> sizes \<Longrightarrow> alloc s (int n) = Some (0, s) \<Longrightarrow> session s0 s live"
| release: "session s0 s (pre @ (b, n) # post) \<Longrightarrow> free s (addr s b) (int n) = Some s' \<Longrightarrow>
    session s0 s' (pre @ post)"

text \<open>What the caller of a sequence of calls sees.\<close>

definition owned :: "(nat \<times> nat) list \<Rightarrow> nat set" where
  "owned live = (\<Union>(b, n) \<in> set live. {b..<b + n})"

fun separate :: "(nat \<times> nat) list \<Rightarrow> bool" where
  "separate [] = True"
| "separate ((b, n) # live) \<longleftrightarrow> n \<in> sizes \<and> {b..<b + n} \<inter> owned live = {} \<and> separate live"

lemma owned_simps [simp]:
  "owned [] = {}" "owned ((b, n) # live) = {b..<b + n} \<union> owned live" "owned (xs @ ys) = owned xs \<union> owned ys"
  by (auto simp: owned_def)

lemma separate_remove:
  "separate (pre @ (b, n) # post) \<Longrightarrow>
     separate (pre @ post) \<and> n \<in> sizes \<and> {b..<b + n} \<inter> owned (pre @ post) = {}"
proof (induction pre)
  case (Cons p pre)
  then show ?case by (cases p) (simp, blast)
qed simp

lemma session_invariant:
  assumes "session s0 s live" and "inv s0"
  shows "inv s \<and> separate live \<and> owned live \<inter> blocks s0 = {} \<and> blocks s = blocks s0 \<union> owned live"
  using assms
proof induction
  case start
  then show ?case by simp
next
  case (grant s live n b s')
  from alloc_law [of s n] grant have "inv s'" by auto
  with grant show ?case by auto
next
  case (refuse s live n)
  then show ?case by simp
next
  case (release s pre b n post s')
  then have inv: "inv s" and sep: "separate (pre @ (b, n) # post)"
    and ow: "owned (pre @ (b, n) # post) \<inter> blocks s0 = {}" "blocks s = blocks s0 \<union> owned (pre @ (b, n) # post)"
    by auto
  from separate_remove [OF sep] have rm: "separate (pre @ post)" "n \<in> sizes" "{b..<b + n} \<inter> owned (pre @ post) = {}"
    by auto
  have "{b..<b + n} \<subseteq> blocks s" using ow by auto
  from free_law [OF inv rm(2) this] release(2) have "inv s'" "blocks s' = blocks s - {b..<b + n}" by auto
  with rm ow show ?case by auto
qed

end


lemma used_range:
  assumes "{b..<b + n} \<subseteq> {i. used d i}" and "0 < n"
  shows "b + n \<le> 64 * pa_count d"
proof -
  have "b + n - 1 \<in> {b..<b + n}" using assms(2) by auto
  with assms(1) have "used d (b + n - 1)" by blast
  then show ?thesis by (auto simp: used_def)
qed

interpretation pa: block_allocator wf_alloc "\<lambda>d. {i. used d i}" block_addr "{1..<31}"
  ihk_pagealloc_alloc ihk_pagealloc_free
proof
  fix d and n :: nat
  assume wf: "wf_alloc d" and "n \<in> {1..<31}"
  then have n: "0 < n" "n < 31" by auto
  from alloc_small_spec [OF wf n]
  show "(\<exists>b d'. ihk_pagealloc_alloc d (int n) = Some (block_addr d b, d') \<and> wf_alloc d' \<and>
      block_addr d' = block_addr d \<and> {b..<b + n} \<inter> {i. used d i} = {} \<and>
      {i. used d' i} = {i. used d i} \<union> {b..<b + n}) \<or> ihk_pagealloc_alloc d (int n) = Some (0, d)"
  proof (elim disjE exE conjE)
    fix b d'
    assume fr: "free_run d n b" and d': "ihk_pagealloc_alloc d (int n) = Some (block_addr d b, d')" "wf_alloc d'"
      "block_addr d' = block_addr d" "\<forall>i. used d' i \<longleftrightarrow> used d i \<or> (b \<le> i \<and> i < b + n)"
    have "{b..<b + n} \<inter> {i. used d i} = {}"
      using fr by (auto simp: free_run_def)
    with d' show ?thesis by (intro disjI1 exI [of _ b] exI [of _ d']) auto
  qed simp
next
  fix d and n b :: nat
  assume wf: "wf_alloc d" and n: "n \<in> {1..<31}" and sub: "{b..<b + n} \<subseteq> {i. used d i}"
  from free_spec [OF wf used_range [OF sub]] n
  show "\<exists>d'. ihk_pagealloc_free d (block_addr d b) (int n) = Some d' \<and> wf_alloc d' \<and>
      block_addr d' = block_addr d \<and> {i. used d' i} = {i. used d i} - {b..<b + n}"
    by auto
qed

section \<open>Properties\<close>

text \<open>A fresh allocator of 128 blocks of one page.\<close>

definition demo_pa :: ihk_page_allocator_desc where
  "demo_pa = \<lparr>pa_start = 0x100000, pa_last = 0, pa_count = 2, pa_flag = 0, pa_shift = 12, pa_map = [0, 0]\<rparr>"

lemma demo_pa_wf: "wf_alloc demo_pa" "\<not> used demo_pa i"
proof -
  show "wf_alloc demo_pa"
    by (simp add: wf_alloc_def demo_pa_def)
  have "[0, 0 :: u64] ! (i div 64) = 0" if "i < 128"
    using that nth_mem [of "i div 64" "[0, 0 :: u64]"] by (auto simp: less_mult_imp_div_less)
  then show "\<not> used demo_pa i"
    by (auto simp: used_def demo_pa_def)
qed

lemma demo_pa_alloc: "ihk_pagealloc_alloc demo_pa 3 = Some (block_addr demo_pa 0, mark_used demo_pa 0 0 3)"
  by code_simp



text \<open>
  Property C22. An allocation of 1 to 30 blocks succeeds exactly when some map element has that
  many consecutive free blocks, and then returns the address of such a run.
\<close>

theorem alloc_complete:
  assumes "wf_alloc d" and "0 < n" and "n < 31"
  shows "if \<exists>b. free_run d n b
    then \<exists>b d'. free_run d n b \<and> ihk_pagealloc_alloc d (int n) = Some (block_addr d b, d') \<and>
      {i. used d' i} = {i. used d i} \<union> {b..<b + n}
    else ihk_pagealloc_alloc d (int n) = Some (0, d)"
proof (cases "\<exists>b. free_run d n b")
  case True
  from alloc_small_spec [OF assms]
  have "\<exists>b d'. free_run d n b \<and> ihk_pagealloc_alloc d (int n) = Some (block_addr d b, d') \<and>
      {i. used d' i} = {i. used d i} \<union> {b..<b + n}"
  proof (elim disjE exE conjE)
    fix b d'
    assume "free_run d n b" and "ihk_pagealloc_alloc d (int n) = Some (block_addr d b, d')"
      and "\<forall>i. used d' i \<longleftrightarrow> used d i \<or> (b \<le> i \<and> i < b + n)"
    then show ?thesis
      by (intro exI [of _ b] exI [of _ d'] conjI set_eqI) simp_all
  qed (simp add: True)
  then show ?thesis
    unfolding if_P [OF True] .
next
  case False
  from alloc_small_spec [OF assms] have "ihk_pagealloc_alloc d (int n) = Some (0, d)"
  proof (elim disjE exE conjE)
    fix b
    assume "free_run d n b"
    with False show ?thesis
      by simp
  qed
  then show ?thesis
    unfolding if_not_P [OF False] .
qed

theorem alloc_complete_witness:
  "\<exists>b d'. free_run demo_pa 30 b \<and> ihk_pagealloc_alloc demo_pa 30 = Some (block_addr demo_pa b, d') \<and>
    {i. used d' i} = {b..<b + 30}"
proof -
  have "free_run demo_pa 30 0"
    by (simp add: free_run_def demo_pa_wf) (simp add: demo_pa_def)
  then have "\<exists>b. free_run demo_pa 30 b" ..
  with alloc_complete [OF demo_pa_wf(1), of 30] obtain b d' where
    "free_run demo_pa 30 b" "ihk_pagealloc_alloc demo_pa (int 30) = Some (block_addr demo_pa b, d')"
    "{i. used d' i} = {i. used demo_pa i} \<union> {b..<b + 30}"
    by (simp only: if_True) fastforce
  then show ?thesis
    by (auto simp: demo_pa_wf)
qed

lemma reserve_padding_None:
  assumes "0 < k" and "(i + k) mod 64 = 0"
  shows "reserve_padding m i k = None"
  using assms
proof (induction k arbitrary: m i)
  case (Suc k)
  show ?case
  proof (cases k)
    case 0
    with Suc.prems have "i mod 64 = 63"
      by (auto simp: mod_Suc split: if_splits)
    then show ?thesis by (simp add: int_shl1_def)
  next
    case (Suc k')
    with Suc.IH Suc.prems show ?thesis
      by (cases "int_shl1 (int (i mod 64))") simp_all
  qed
qed simp

lemma fls_exp: "fls (2 ^ k) = Suc k"
  by (rule fls_unique) simp_all

section \<open>Whole elements\<close>

definition take_elements :: "ihk_page_allocator_desc \<Rightarrow> nat \<Rightarrow> nat \<Rightarrow> ihk_page_allocator_desc" where
  "take_elements d m nb = d\<lparr>pa_map := foldl (\<lambda>m j. m[j := - 1]) (pa_map d) [m..<m + nb]\<rparr>"

lemma fill_nth:
  "length (foldl (\<lambda>m j. m[j := v]) xs js) = length xs"
  "i < length xs \<Longrightarrow> foldl (\<lambda>m j. m[j := v]) xs js ! i = (if i \<in> set js then v else xs ! i)"
proof -
  have "length (foldl (\<lambda>m j. m[j := v]) xs js) = length xs \<and>
      (\<forall>i < length xs. foldl (\<lambda>m j. m[j := v]) xs js ! i = (if i \<in> set js then v else xs ! i))"
    by (induction js arbitrary: xs) auto
  then show "length (foldl (\<lambda>m j. m[j := v]) xs js) = length xs"
    "i < length xs \<Longrightarrow> foldl (\<lambda>m j. m[j := v]) xs js ! i = (if i \<in> set js then v else xs ! i)"
    by auto
qed

lemma take_elements_simps [simp]:
  "block_addr (take_elements d m nb) = block_addr d" "pa_count (take_elements d m nb) = pa_count d"
  "wf_alloc (take_elements d m nb) = wf_alloc d"
  by (simp_all add: take_elements_def block_addr_def wf_alloc_def fill_nth fun_eq_iff)

lemma div_range: "m * 64 \<le> i \<and> i < (m + nb) * 64 \<longleftrightarrow> m \<le> i div 64 \<and> i div 64 < m + (nb :: nat)"
  by (simp add: less_eq_div_iff_mult_less_eq div_less_iff_less_mult)

lemma used_take_elements:
  assumes "wf_alloc d" and "m + nb \<le> pa_count d"
  shows "used (take_elements d m nb) i \<longleftrightarrow> used d i \<or> (m * 64 \<le> i \<and> i < (m + nb) * 64)"
proof (cases "i < 64 * pa_count d")
  case True
  then have "i div 64 < length (pa_map d)"
    using assms(1) by (simp add: wf_alloc_def less_mult_imp_div_less mult.commute)
  with True show ?thesis
    unfolding div_range by (auto simp: used_def take_elements_def fill_nth)
next
  case False
  with assms(2) show ?thesis
    by (auto simp: used_def take_elements_def)
qed

lemma large_loop_spec:
  assumes "wf_alloc d" and "mi + k = pa_count d" and "0 < nb"
  shows "(\<exists>m. mi \<le> m \<and> m + nb < pa_count d \<and> (\<forall>j. m \<le> j \<and> j < m + nb \<longrightarrow> pa_map d ! j = 0) \<and>
        large_loop d nb mi k = Some (block_addr d (m * 64), take_elements d m nb)) \<or>
      ((\<forall>m. mi \<le> m \<and> m + nb < pa_count d \<longrightarrow> (\<exists>j. m \<le> j \<and> j < m + nb \<and> pa_map d ! j \<noteq> 0)) \<and>
        large_loop d nb mi k = Some (0, d))"
  using assms(2)
proof (induction k arbitrary: mi)
  case 0
  then show ?case by auto
next
  case (Suc k)
  let ?zero = "\<forall>j. mi \<le> j \<and> j < mi + nb \<longrightarrow> pa_map d ! j = 0"
  have wrap: "\<not> mi > pa_count d" using Suc.prems by simp
  show ?case
  proof (cases "mi + nb < pa_count d \<and> ?zero")
    case True
    have "ADDRESS d mi 0 = block_addr d (mi * 64)"
      using ADDRESS_block [OF assms(1), of mi 0] True by simp
    with True wrap assms(1) show ?thesis
      by (intro disjI1 exI [of _ mi]) (simp add: list_all_iff take_elements_def wf_alloc_def)
  next
    case False
    then have "large_loop d nb mi (Suc k) = large_loop d nb (Suc mi) k"
      using wrap assms(1) by (auto simp: list_all_iff wf_alloc_def)
    moreover have "Suc mi + k = pa_count d"
      using Suc.prems by simp
    note Suc.IH [OF this]
    moreover have "\<exists>j. m \<le> j \<and> j < m + nb \<and> pa_map d ! j \<noteq> 0"
      if "mi \<le> m" "m + nb < pa_count d"
        "\<forall>m. Suc mi \<le> m \<and> m + nb < pa_count d \<longrightarrow> (\<exists>j. m \<le> j \<and> j < m + nb \<and> pa_map d ! j \<noteq> 0)" for m
      using that False by (cases "m = mi") auto
    ultimately show ?thesis
    proof (elim disjE exE conjE, goal_cases)
      case (1 m)
      then show ?case by (intro disjI1 exI [of _ m]) simp
    next
      case 2
      then show ?case by (intro disjI2 conjI allI impI) (simp_all only:)
    qed
  qed
qed

lemma element_zero:
  assumes "wf_alloc d" and "m < pa_count d"
  shows "pa_map d ! m = 0 \<longleftrightarrow> (\<forall>i. i div 64 = m \<longrightarrow> \<not> used d i)"
proof
  assume "pa_map d ! m = 0"
  then show "\<forall>i. i div 64 = m \<longrightarrow> \<not> used d i"
    by (auto simp: used_def)
next
  assume free: "\<forall>i. i div 64 = m \<longrightarrow> \<not> used d i"
  show "pa_map d ! m = 0"
  proof (rule bit_eqI)
    fix b
    assume "possible_bit TYPE(u64) b"
    then have b: "b < 64" by (simp add: possible_bit_word)
    with free [rule_format, of "m * 64 + b"] assms(2) show "bit (pa_map d ! m) b = bit 0 b"
      by (auto simp: used_def)
  qed
qed

lemma elements_free:
  assumes "wf_alloc d" and "m + nb \<le> pa_count d"
  shows "(\<forall>j. m \<le> j \<and> j < m + nb \<longrightarrow> pa_map d ! j = 0) \<longleftrightarrow> {i. used d i} \<inter> {m * 64..<(m + nb) * 64} = {}"
proof -
  have "pa_map d ! j = 0 \<longleftrightarrow> (\<forall>i. i div 64 = j \<longrightarrow> \<not> used d i)" if "m \<le> j \<and> j < m + nb" for j
    using element_zero [OF assms(1)] that assms(2) by simp
  then have "(\<forall>j. m \<le> j \<and> j < m + nb \<longrightarrow> pa_map d ! j = 0) \<longleftrightarrow>
      (\<forall>i. m \<le> i div 64 \<and> i div 64 < m + nb \<longrightarrow> \<not> used d i)"
    by blast
  also have "\<dots> \<longleftrightarrow> (\<forall>i. m * 64 \<le> i \<and> i < (m + nb) * 64 \<longrightarrow> \<not> used d i)"
    unfolding div_range ..
  also have "\<dots> \<longleftrightarrow> {i. used d i} \<inter> {m * 64..<(m + nb) * 64} = {}"
    by (simp add: set_eq_iff) blast
  finally show ?thesis .
qed

text \<open>
  Property C23. An allocation of 32 or more blocks takes whole map elements and
  succeeds exactly when enough adjacent elements, the last one of the map apart,
  are entirely free. Freeing the same number of blocks gives back that number only: when it is not a multiple
  of 64 the blocks behind it stay in use.
\<close>

theorem large_alloc_free:
  assumes "wf_alloc d" and "32 \<le> n" and "n + 63 < 2 ^ 31" and "nb = (n + 63) div 64"
  shows "(\<exists>m d' d''. (m + nb) * 64 < 64 * pa_count d \<and> {i. used d i} \<inter> {m * 64..<(m + nb) * 64} = {} \<and>
        ihk_pagealloc_alloc d (int n) = Some (block_addr d (m * 64), d') \<and>
        {i. used d' i} = {i. used d i} \<union> {m * 64..<(m + nb) * 64} \<and>
        ihk_pagealloc_free d' (block_addr d (m * 64)) (int n) = Some d'' \<and>
        {i. used d'' i} = {i. used d i} \<union> {m * 64 + n..<(m + nb) * 64}) \<or>
      ((\<nexists>m. (m + nb) * 64 < 64 * pa_count d \<and> {i. used d i} \<inter> {m * 64..<(m + nb) * 64} = {}) \<and>
        ihk_pagealloc_alloc d (int n) = Some (0, d))"
proof -
  have "nat ((int n + 63) div 64) = nb"
    using assms(4) by (simp add: nat_div_distrib nat_add_distrib)
  then have al: "ihk_pagealloc_alloc d (int n) = large_loop d nb 0 (pa_count d)"
    using assms(1-3) by (simp add: ihk_pagealloc_alloc_def ihk_pagealloc_large_def wf_alloc_def)
  have nb: "0 < nb" "n \<le> nb * 64"
    using assms(2,4) by auto
  have runs: "(\<forall>j. m \<le> j \<and> j < m + nb \<longrightarrow> pa_map d ! j = 0) \<longleftrightarrow> {i. used d i} \<inter> {m * 64..<(m + nb) * 64} = {}"
    if "m + nb < pa_count d" for m
    using elements_free [OF assms(1)] that by simp
  consider (found) m where "m + nb < pa_count d" "\<forall>j. m \<le> j \<and> j < m + nb \<longrightarrow> pa_map d ! j = 0"
      "large_loop d nb 0 (pa_count d) = Some (block_addr d (m * 64), take_elements d m nb)"
    | (none) "\<forall>m. m + nb < pa_count d \<longrightarrow> (\<exists>j. m \<le> j \<and> j < m + nb \<and> pa_map d ! j \<noteq> 0)"
      "large_loop d nb 0 (pa_count d) = Some (0, d)"
    using large_loop_spec [OF assms(1) add_0 nb(1)]
    by (elim disjE exE conjE) (simp_all only: le0 simp_thms)
  then show ?thesis
  proof cases
    case found
    let ?d = "take_elements d m nb"
    note us = used_take_elements [OF assms(1) less_imp_le [OF found(1)]]
    have free: "{i. used d i} \<inter> {m * 64..<(m + nb) * 64} = {}"
      using runs found by blast
    have "m * 64 + n \<le> 64 * pa_count ?d" "wf_alloc ?d" "0 < n"
      using found(1) nb(2) assms(1,2) by simp_all
    from free_spec [OF this(2,1,3)] obtain d'' where
      d'': "ihk_pagealloc_free ?d (block_addr d (m * 64)) (int n) = Some d''"
        "\<forall>i. used d'' i \<longleftrightarrow> used ?d i \<and> \<not> (m * 64 \<le> i \<and> i < m * 64 + n)" by auto
    have "{i. used d'' i} = {i. used d i} \<union> {m * 64 + n..<(m + nb) * 64}"
    proof (rule set_eqI)
      fix i
      have "used d i \<Longrightarrow> \<not> (m * 64 \<le> i \<and> i < (m + nb) * 64)"
        using free by auto
      then show "i \<in> {i. used d'' i} \<longleftrightarrow> i \<in> {i. used d i} \<union> {m * 64 + n..<(m + nb) * 64}"
        using nb(2) by (cases "used d i") (simp_all add: d''(2) us, linarith+)
    qed
    moreover have "{i. used ?d i} = {i. used d i} \<union> {m * 64..<(m + nb) * 64}"
      by (intro set_eqI) (simp add: us)
    ultimately show ?thesis
      using found(1,3) free d''(1) al
      by (intro disjI1 exI [of _ m] exI [of _ ?d] exI [of _ d''] conjI) (simp_all only:, simp_all)
  next
    case none
    have "{i. used d i} \<inter> {m * 64..<(m + nb) * 64} \<noteq> {}" if "m + nb < pa_count d" for m
      using none(1) runs [OF that] that by blast
    with none(2) al show ?thesis by auto
  qed
qed


theorem large_alloc_free_witness:
  "\<exists>d' d'' a. ihk_pagealloc_alloc demo_pa 40 = Some (a, d') \<and> ihk_pagealloc_free d' a 40 = Some d'' \<and>
     {i. used d'' i} = {40..<64}"
proof -
  have none: "{i. used demo_pa i} = {}"
    by (simp add: demo_pa_wf)
  have "\<exists>m. (m + 1) * 64 < 64 * pa_count demo_pa \<and> {i. used demo_pa i} \<inter> {m * 64..<(m + 1) * 64} = {}"
    unfolding none by (intro exI [of _ 0]) (simp add: demo_pa_def)
  with large_alloc_free [OF demo_pa_wf(1), of 40 1] obtain m d' d'' where
    m: "(m + 1) * 64 < 64 * pa_count demo_pa" "ihk_pagealloc_alloc demo_pa 40 = Some (block_addr demo_pa (m * 64), d')"
      "ihk_pagealloc_free d' (block_addr demo_pa (m * 64)) 40 = Some d''"
      "{i. used d'' i} = {m * 64 + 40..<(m + 1) * 64}"
    by (simp add: none) blast
  moreover from m(1) have "m = 0"
    by (simp add: demo_pa_def)
  ultimately show ?thesis
    by auto
qed

section \<open>Creating an allocator\<close>

lemma init_shift:
  assumes "k < 32"
  shows "int (fls (unat (ucast (2 ^ k :: u64) :: u32))) - 1 = int k"
proof -
  have "unat (2 ^ k :: u64) = 2 ^ k"
    using assms power_strict_increasing [of k 64 "2 :: nat"] unat_of_nat [of "2 ^ k", where 'a = 64]
    by (simp add: take_bit_nat_eq_self)
  then have "unat (ucast (2 ^ k :: u64) :: u32) = 2 ^ k"
    using assms power_strict_increasing [of k 32 "2 :: nat"] by (subst unat_ucast_down) simp_all
  then show ?thesis
    by (simp add: fls_exp)
qed

lemma init_mapsize:
  assumes "unat sz div 2 ^ k < 2 ^ 31"
  shows "sint (ucast (drop_bit k (sz :: u64)) :: u32) = int (unat sz div 2 ^ k)"
proof -
  have "unat (drop_bit k sz) = unat sz div 2 ^ k"
    by (simp add: unat_drop_bit_eq flip: drop_bit_eq_div)
  then have "unat (ucast (drop_bit k sz) :: u32) = unat sz div 2 ^ k"
    using assms by (subst unat_ucast_down) simp_all
  then show ?thesis
    using assms sint_nonneg [of "ucast (drop_bit k sz) :: u32"] by simp
qed

lemma map_elems:
  "nat ((int n + 63) div 64 * 8 div 8) = (n + 63) div 64"
  "nat ((int n + 63) div 64 * 8 * 8 - int n) = (n + 63) div 64 * 64 - n"
proof -
  have "(int n + 63) div 64 = int ((n + 63) div 64)"
    by (simp add: zdiv_int)
  then show "nat ((int n + 63) div 64 * 8 div 8) = (n + 63) div 64"
    "nat ((int n + 63) div 64 * 8 * 8 - int n) = (n + 63) div 64 * 64 - n"
    by linarith+
qed

lemma padding_size:
  assumes "\<not> 64 dvd n"
  shows "0 < (n + 63) div 64 * 64 - n" "(n + ((n + 63) div 64 * 64 - n)) mod 64 = (0 :: nat)"
proof -
  show "0 < (n + 63) div 64 * 64 - n"
    using assms by presburger
  then have "n + ((n + 63) div 64 * 64 - n) = (n + 63) div 64 * 64"
    by simp
  then show "(n + ((n + 63) div 64 * 64 - n)) mod 64 = 0"
    by simp
qed

text \<open>
  Property C24. With a block size of two to the \<open>k\<close>, creating an allocator is free of undefined
  behaviour exactly when the number of blocks is a multiple of 64: otherwise the
  loop that reserves the padding bits shifts an \<open>int\<close> by more than 30. In the defined
  case every block is free, and none lies outside the area.
\<close>

theorem init_defined_iff:
  assumes "k < 32" and "unat sz div 2 ^ k < 2 ^ 31 - 63"
  shows "if 64 dvd unat sz div 2 ^ k
    then \<exists>d. ihk_pagealloc_init True start sz (2 ^ k) = Some (Some d) \<and> length (pa_map d) = pa_count d \<and>
      64 * pa_count d = unat sz div 2 ^ k \<and> pa_start d = start \<and> pa_shift d = k \<and> {i. used d i} = {}
    else ihk_pagealloc_init True start sz (2 ^ k) = None"
proof -
  let ?n = "unat sz div 2 ^ k"
  have ms: "sint (ucast (drop_bit k sz) :: u32) = int ?n"
    using assms(2) by (intro init_mapsize) simp
  have unit: "(2 ^ k :: u64) \<noteq> 0"
    using assms(1) by (simp add: exp_eq_zero_iff)
  obtain flg where init: "ihk_pagealloc_init True start sz (2 ^ k) = (do {
      m \<leftarrow> reserve_padding (replicate ((?n + 63) div 64) 0) ?n ((?n + 63) div 64 * 64 - ?n);
      Some (Some \<lparr>pa_start = start, pa_last = 0, pa_count = (?n + 63) div 64, pa_flag = flg, pa_shift = k, pa_map = m\<rparr>)
    })"
    using assms(2) unit map_elems [of ?n]
    unfolding ihk_pagealloc_init_def Let_def init_shift [OF assms(1)] nat_int ms
    by (simp only: if_False) force
  show ?thesis
  proof (cases "64 dvd ?n")
    case True
    then obtain c where "?n = 64 * c" ..
    then have "(?n + 63) div 64 = c" "?n = 64 * c" by simp_all
    then show ?thesis
      unfolding if_P [OF True] init by (auto simp: used_def less_mult_imp_div_less)
  next
    case False
    have "reserve_padding (replicate ((?n + 63) div 64) 0) ?n ((?n + 63) div 64 * 64 - ?n) = None"
      by (rule reserve_padding_None [OF padding_size [OF False]])
    then show ?thesis
      unfolding if_not_P [OF False] init by simp
  qed
qed

theorem init_defined_iff_witness:
  "ihk_pagealloc_init True 0x100000 0x63000 (2 ^ 12) = None \<and>
   (\<exists>d. ihk_pagealloc_init True 0x100000 0x40000 (2 ^ 12) = Some (Some d) \<and> pa_count d = 1)"
proof
  have "unat (0x63000 :: u64) div 2 ^ 12 = 99" "unat (0x40000 :: u64) div 2 ^ 12 = 64"
    by simp_all
  with init_defined_iff [of 12 "0x63000" "0x100000"] init_defined_iff [of 12 "0x40000" "0x100000"]
  show "ihk_pagealloc_init True 0x100000 0x63000 (2 ^ 12) = None"
    and "\<exists>d. ihk_pagealloc_init True 0x100000 0x40000 (2 ^ 12) = Some (Some d) \<and> pa_count d = 1"
    by fastforce+
qed

text \<open>
  The address of a block is computed in 32 bits: in an allocator for more
  than 4 GiB, blocks that lie 4 GiB apart have the same address.
\<close>

theorem address_wraps:
  assumes "pa_shift d \<le> 26"
  shows "ADDRESS d (idx + 2 ^ (26 - pa_shift d)) bt = ADDRESS d idx bt"
proof -
  have "(2 :: u32) ^ pa_shift d * (2 ^ (26 - pa_shift d) * 64) = 2 ^ (pa_shift d + (26 - pa_shift d)) * 64"
    by (simp add: power_add)
  also have "\<dots> = 0"
    using assms by simp
  finally have "(of_nat ((idx + 2 ^ (26 - pa_shift d)) * 64 + bt) * 2 ^ pa_shift d :: u32) =
      of_nat (idx * 64 + bt) * 2 ^ pa_shift d"
    by (simp add: algebra_simps)
  then show ?thesis
    unfolding ADDRESS_def push_bit_eq_mult by simp
qed

text \<open>Two allocations of 30 blocks of 2 MiB, both live, at the same address.\<close>

definition wrap_pa :: ihk_page_allocator_desc where
  "wrap_pa = \<lparr>pa_start = 0x100000, pa_last = 0, pa_count = 33, pa_flag = 0, pa_shift = 21,
     pa_map = push_bit 30 (- 1) # replicate 31 (- 1) @ [0]\<rparr>"

theorem address_wraps_witness:
  "\<exists>d1 d2 a. ihk_pagealloc_alloc wrap_pa 30 = Some (a, d1) \<and> ihk_pagealloc_alloc d1 30 = Some (a, d2)"
proof -
  have "pa_shift wrap_pa = 21"
    by (simp add: wrap_pa_def)
  with address_wraps [of wrap_pa 0 0] have "ADDRESS wrap_pa 32 0 = ADDRESS wrap_pa 0 0"
    by simp
  moreover have "map_option fst (ihk_pagealloc_alloc wrap_pa 30) = Some (ADDRESS wrap_pa 0 0)"
    "(do { (a, d1) \<leftarrow> ihk_pagealloc_alloc wrap_pa 30; map_option fst (ihk_pagealloc_alloc d1 30) }) =
       Some (ADDRESS wrap_pa 32 0)"
    by code_simp+
  ultimately show ?thesis
    by (auto split: Option.bind_splits prod.splits)
qed

end
