(* ===== verification/Partition.thy ===== *)
theory Partition
  imports Ihk_Prelude
begin

text \<open>
  What the partitioning of a machine promises. A resource (a CPU, a byte of memory) is
  outside the driver, in the driver's pool, or given to one kernel instance. The locale
  states which moves an operation may make, according to who asks for it; it is
  interpreted on the CPU operations and on the memory operations of the SMP driver.
\<close>

text \<open>Handles of kernel instances; the null handle is the \<open>None\<close> of an option.\<close>

type_synonym ihk_os = nat

datatype place = Outside | Pool | Os ihk_os

datatype actor = Host | Inst ihk_os

text \<open>A resource that an operation of \<open>a\<close> moves does not belong, before or after, to another instance.\<close>

fun may_move :: "actor \<Rightarrow> place \<Rightarrow> place \<Rightarrow> bool" where
  "may_move Host p q \<longleftrightarrow> (\<forall>h. p \<noteq> Os h \<and> q \<noteq> Os h)"
| "may_move (Inst h) p q \<longleftrightarrow> (\<forall>h'. h' \<noteq> h \<longrightarrow> p \<noteq> Os h' \<and> q \<noteq> Os h') \<and> p \<noteq> Outside"

locale partition =
  fixes inv :: "'s \<Rightarrow> bool"
    and place :: "'s \<Rightarrow> 'r \<Rightarrow> place"
    and step :: "actor \<Rightarrow> 's \<Rightarrow> 's \<Rightarrow> bool"
  assumes step_inv: "inv s \<Longrightarrow> step a s s' \<Longrightarrow> inv s'"
    and step_moves: "inv s \<Longrightarrow> step a s s' \<Longrightarrow> place s' r \<noteq> place s r \<Longrightarrow> may_move a (place s r) (place s' r)"
begin

text \<open>Sequences of operations, with who asked for each.\<close>

inductive run :: "'s \<Rightarrow> actor list \<Rightarrow> 's \<Rightarrow> bool" where
  run_Nil: "run s [] s"
| run_Cons: "step a s s' \<Longrightarrow> run s' as s'' \<Longrightarrow> run s (a # as) s''"

lemma run_inv: "run s as s' \<Longrightarrow> inv s \<Longrightarrow> inv s'"
  by (induction rule: run.induct) (auto intro: step_inv)

text \<open>What is given to an instance changes only by its own operations.\<close>

lemma step_isolation:
  assumes "inv s" and "step a s s'" and "a \<noteq> Inst h"
  shows "place s' r = Os h \<longleftrightarrow> place s r = Os h"
  using step_moves [OF assms(1,2), of r] assms(3) by (cases "place s' r = place s r"; cases a) auto

lemma run_isolation:
  assumes "run s as s'" and "inv s" and "Inst h \<notin> set as"
  shows "place s' r = Os h \<longleftrightarrow> place s r = Os h"
  using assms
proof (induction rule: run.induct)
  case (run_Cons a s s' as s'')
  then have "place s' r = Os h \<longleftrightarrow> place s r = Os h"
    by (intro step_isolation) auto
  with run_Cons show ?case
    by (auto intro: step_inv)
qed simp

text \<open>Nothing goes from one instance to another without an operation of each.\<close>

lemma run_transfer:
  assumes "run s as s'" and "inv s" and "place s r = Os h" and "place s' r = Os h'" and "h \<noteq> h'"
  shows "Inst h \<in> set as \<and> Inst h' \<in> set as"
  using run_isolation [OF assms(1,2), of h r] run_isolation [OF assms(1,2), of h' r] assms(3-5) by auto

text \<open>The host reclaims only what the instances have given back.\<close>

lemma run_host:
  assumes "run s as s'" and "inv s" and "set as \<subseteq> {Host}"
  shows "(place s' r = Os h) = (place s r = Os h)"
  using run_isolation [OF assms(1,2), of h r] assms(3) by auto

end

end
