(* ===== verification/Smp_Cpu.thy ===== *)
theory Smp_Cpu
  imports Partition "HOL-Library.Monad_Syntax"
begin

text \<open>
  The processors of the SMP driver, \<^verbatim>\<open>linux/driver/smp/smp-driver.c\<close>: reserving CPUs from Linux and
  giving them back, assigning them to a kernel instance and releasing them, the
  queries, and the routing of inter-kernel interrupts.

  A request is read from user space; \<open>None\<close> stands for an address that cannot be read.
  The result \<open>None\<close> of an operation is an access outside an array.
\<close>

section \<open>Data\<close>

definition SMP_MAX_CPUS :: nat where
  "SMP_MAX_CPUS = 512"

datatype cpu_status =
    IHK_SMP_CPU_NONE | IHK_SMP_CPU_ONLINE | IHK_SMP_CPU_AVAILABLE | IHK_SMP_CPU_ASSIGNED
  | IHK_SMP_CPU_TO_OFFLINE | IHK_SMP_CPU_OFFLINED | IHK_SMP_CPU_TO_ONLINE

datatype os_status =
    BUILTIN_OS_STATUS_INITIAL | BUILTIN_OS_STATUS_LOADING | BUILTIN_OS_STATUS_BOOTING
  | BUILTIN_OS_STATUS_SHUTDOWN | BUILTIN_OS_STATUS_HUNGUP


record ihk_smp_cpu =
  c_id :: int
  c_hw_id :: int
  c_status :: cpu_status
  c_os :: "ihk_os option"
  c_ikc_map_cpu :: nat

text \<open>
  The driver's CPU table, together with what it drives: which CPUs run Linux, and the
  hardware ids that were reset, the latest first.
\<close>

record smp =
  ihk_smp_cpus :: "nat \<Rightarrow> ihk_smp_cpu"
  cpu_online :: "nat \<Rightarrow> bool"
  resets :: "int list"

text \<open>Hardware ids and NUMA nodes are bits of fixed-size maps in the code, sets here.\<close>

record smp_os_data =
  os_status :: os_status
  os_cpu_hw_ids_map :: "int set"
  os_numa_mask :: "int set"
  os_cpu_hw_ids :: "nat \<Rightarrow> int"
  os_cpu_mapping :: "nat \<Rightarrow> nat"
  os_nr_cpus :: nat
  os_cpu_ikc_mapped :: bool
  os_mem_start :: nat
  os_mem_end :: nat

text \<open>What Linux and the machine answer.\<close>

record lnx =
  nr_cpu_ids :: nat
  cpu_present :: "nat \<Rightarrow> bool"
  hw_id_of :: "nat \<Rightarrow> int"
  cpu_to_node :: "nat \<Rightarrow> int"
  kmalloc_ok :: "nat \<Rightarrow> bool"
  sysfs_ok :: "nat \<Rightarrow> bool \<Rightarrow> bool"

record ihk_cpu_req =
  req_cpus :: "int list option"
  req_num_cpus :: int

record ihk_ikc_req =
  req_src_cpus :: "int list option"
  req_dst_cpus :: "int list option"
  req_num_ikc :: int

section \<open>Requests\<close>

definition validate_cpu_req :: "ihk_cpu_req \<Rightarrow> int" where
  "validate_cpu_req req =
     (if req_num_cpus req < 0 \<or> req_num_cpus req > int SMP_MAX_CPUS then err EINVAL
      else if req_num_cpus req > 0 \<and> req_cpus req = None then err EINVAL
      else 0)"

definition validate_ikc_req :: "ihk_ikc_req \<Rightarrow> int" where
  "validate_ikc_req req =
     (if req_num_ikc req < 0 \<or> req_num_ikc req > int SMP_MAX_CPUS then err EINVAL
      else if req_num_ikc req > 0 \<and> (req_src_cpus req = None \<or> req_dst_cpus req = None) then err EINVAL
      else 0)"

text \<open>
  The first part of the four requests that name CPUs: \<open>Inl\<close> is an early return, \<open>Inr\<close> the
  array of CPUs.
\<close>

definition get_cpu_req :: "lnx \<Rightarrow> ihk_cpu_req option \<Rightarrow> int + int list" where
  "get_cpu_req L arg =
     (case arg of
        None \<Rightarrow> Inl (err EFAULT)
      | Some req \<Rightarrow>
          if validate_cpu_req req \<noteq> 0 then Inl (err EINVAL)
          else if req_num_cpus req = 0 then Inl 0
          else if \<not> kmalloc_ok L 0 then Inl (err EINVAL)
          else
            (case copy_from_user (the (req_cpus req)) (nat (req_num_cpus req)) of
               None \<Rightarrow> Inl (err EFAULT)
             | Some cpus \<Rightarrow> Inr cpus))"

text \<open>The CPU msk of a request, or the refusal of a CPU that is out of range.\<close>

fun build_mask :: "nat \<Rightarrow> int list \<Rightarrow> nat set \<Rightarrow> nat set option" where
  "build_mask n [] msk = Some msk"
| "build_mask n (c # cs) msk =
     (if c < 0 \<or> c \<ge> int n then None else build_mask n cs (insert (nat c) msk))"

definition for_each_cpu :: "lnx \<Rightarrow> nat set \<Rightarrow> nat list" where
  "for_each_cpu L msk = filter (\<lambda>c. c \<in> msk) [0..<nr_cpu_ids L]"

section \<open>The CPU table\<close>

definition set_cpu :: "nat \<Rightarrow> (ihk_smp_cpu \<Rightarrow> ihk_smp_cpu) \<Rightarrow> 'a smp_scheme \<Rightarrow> 'a smp_scheme" where
  "set_cpu i f s = s\<lparr>ihk_smp_cpus := (ihk_smp_cpus s)(i := f (ihk_smp_cpus s i))\<rparr>"

abbreviation status_of :: "'a smp_scheme \<Rightarrow> nat \<Rightarrow> cpu_status" where
  "status_of s i \<equiv> c_status (ihk_smp_cpus s i)"

abbreviation os_of :: "'a smp_scheme \<Rightarrow> nat \<Rightarrow> ihk_os option" where
  "os_of s i \<equiv> c_os (ihk_smp_cpus s i)"

definition ihk_smp_reset_cpu :: "int \<Rightarrow> 'a smp_scheme \<Rightarrow> 'a smp_scheme" where
  "ihk_smp_reset_cpu hw s = s\<lparr>resets := hw # resets s\<rparr>"

text \<open>The loops that turn one status into another, over the whole table.\<close>

definition change_status :: "cpu_status \<Rightarrow> cpu_status \<Rightarrow> 'a smp_scheme \<Rightarrow> 'a smp_scheme" where
  "change_status st st' s =
     fold (\<lambda>cpu s. if status_of s cpu \<noteq> st then s else set_cpu cpu (c_status_update (\<lambda>_. st')) s)
       [0..<SMP_MAX_CPUS] s"

section \<open>Reserving CPUs\<close>

definition smp_ihk_write_cpu_sys_file :: "lnx \<Rightarrow> nat \<Rightarrow> bool \<Rightarrow> 'a smp_scheme \<Rightarrow> int \<times> 'a smp_scheme" where
  "smp_ihk_write_cpu_sys_file L cpu val s =
     (if sysfs_ok L cpu val then (0, s\<lparr>cpu_online := (cpu_online s)(cpu := val)\<rparr>) else (- 1, s))"

definition smp_ihk_offline_cpu :: "lnx \<Rightarrow> nat \<Rightarrow> 'a smp_scheme \<Rightarrow> int \<times> 'a smp_scheme" where
  "smp_ihk_offline_cpu L cpu s = smp_ihk_write_cpu_sys_file L cpu False s"

definition smp_ihk_online_cpu :: "lnx \<Rightarrow> nat \<Rightarrow> 'a smp_scheme \<Rightarrow> int \<times> 'a smp_scheme" where
  "smp_ihk_online_cpu L cpu s = smp_ihk_write_cpu_sys_file L cpu True s"

fun collect_offline :: "lnx \<Rightarrow> nat list \<Rightarrow> 'a smp_scheme \<Rightarrow> (int \<times> 'a smp_scheme) option" where
  "collect_offline L [] s = Some (0, s)"
| "collect_offline L (cpu # cpus) s =
     (if cpu > SMP_MAX_CPUS then Some (err EINVAL, s)
      else if \<not> cpu_present L cpu then Some (err EINVAL, s)
      else if cpu \<ge> SMP_MAX_CPUS then None
      else if \<not> cpu_online s cpu then Some (err EINVAL, s)
      else if status_of s cpu \<noteq> IHK_SMP_CPU_ONLINE then Some (err EINVAL, s)
      else collect_offline L cpus (set_cpu cpu (\<lambda>c. c\<lparr>c_id := int cpu, c_hw_id := hw_id_of L cpu,
             c_status := IHK_SMP_CPU_TO_OFFLINE, c_os := None\<rparr>) s))"

fun offline_loop :: "lnx \<Rightarrow> nat list \<Rightarrow> 'a smp_scheme \<Rightarrow> int \<times> 'a smp_scheme" where
  "offline_loop L [] s = (0, s)"
| "offline_loop L (cpu # cpus) s =
     (if status_of s cpu \<noteq> IHK_SMP_CPU_TO_OFFLINE then offline_loop L cpus s
      else
        case smp_ihk_offline_cpu L cpu s of (ret, s) \<Rightarrow>
        if ret \<noteq> 0 then (ret, s)
        else offline_loop L cpus (ihk_smp_reset_cpu (hw_id_of L cpu)
               (set_cpu cpu (\<lambda>c. c\<lparr>c_hw_id := hw_id_of L cpu, c_status := IHK_SMP_CPU_OFFLINED, c_os := None\<rparr>) s)))"

text \<open>\<open>err_during_offline\<close>: the CPUs already taken go back to Linux; a failure is ignored.\<close>

definition reonline :: "lnx \<Rightarrow> 'a smp_scheme \<Rightarrow> 'a smp_scheme" where
  "reonline L s =
     fold (\<lambda>cpu s. if status_of s cpu \<noteq> IHK_SMP_CPU_OFFLINED then s
                   else set_cpu cpu (c_status_update (\<lambda>_. IHK_SMP_CPU_ONLINE)) (snd (smp_ihk_online_cpu L cpu s)))
       [0..<SMP_MAX_CPUS] s"

text \<open>
  The test for requested CPUs above \<open>nr_cpu_ids\<close>, which the loop that builds the msk has
  already refused, is left out.
\<close>

definition smp_ihk_reserve_cpu :: "lnx \<Rightarrow> ihk_cpu_req option \<Rightarrow> 'a smp_scheme \<Rightarrow> (int \<times> 'a smp_scheme) option" where
  "smp_ihk_reserve_cpu L arg s =
     (case get_cpu_req L arg of
        Inl ret \<Rightarrow> Some (ret, s)
      | Inr cpus \<Rightarrow>
          (case build_mask (nr_cpu_ids L) cpus {} of
             None \<Rightarrow> Some (err EINVAL, s)
           | Some msk \<Rightarrow> do {
               (ret, s) \<leftarrow> collect_offline L (for_each_cpu L msk) s;
               if ret \<noteq> 0 then Some (ret, change_status IHK_SMP_CPU_TO_OFFLINE IHK_SMP_CPU_ONLINE s)
               else case offline_loop L [0..<SMP_MAX_CPUS] s of (ret, s) \<Rightarrow>
                 if ret \<noteq> 0 then Some (ret, change_status IHK_SMP_CPU_TO_OFFLINE IHK_SMP_CPU_ONLINE (reonline L s))
                 else Some (0, change_status IHK_SMP_CPU_OFFLINED IHK_SMP_CPU_AVAILABLE s)
             }))"

section \<open>Giving CPUs back to Linux\<close>

fun collect_online :: "lnx \<Rightarrow> nat list \<Rightarrow> 'a smp_scheme \<Rightarrow> (int \<times> 'a smp_scheme) option" where
  "collect_online L [] s = Some (0, s)"
| "collect_online L (cpu # cpus) s =
     (if cpu > SMP_MAX_CPUS then Some (err EINVAL, s)
      else if \<not> cpu_present L cpu then Some (err EINVAL, s)
      else if cpu_online s cpu then Some (err EINVAL, s)
      else if cpu \<ge> SMP_MAX_CPUS then None
      else if status_of s cpu \<noteq> IHK_SMP_CPU_AVAILABLE then Some (err EINVAL, s)
      else collect_online L cpus (set_cpu cpu (\<lambda>c. c\<lparr>c_id := int cpu, c_hw_id := hw_id_of L cpu,
             c_status := IHK_SMP_CPU_TO_ONLINE, c_os := None\<rparr>) s))"

fun online_loop :: "lnx \<Rightarrow> nat list \<Rightarrow> 'a smp_scheme \<Rightarrow> int \<times> 'a smp_scheme" where
  "online_loop L [] s = (0, s)"
| "online_loop L (cpu # cpus) s =
     (if status_of s cpu \<noteq> IHK_SMP_CPU_TO_ONLINE then online_loop L cpus s
      else
        case smp_ihk_online_cpu L cpu s of (ret, s) \<Rightarrow>
        if ret \<noteq> 0 then (ret, s)
        else online_loop L cpus (set_cpu cpu (\<lambda>c. c\<lparr>c_status := IHK_SMP_CPU_ONLINE, c_os := None\<rparr>) s))"

definition smp_ihk_release_cpu :: "lnx \<Rightarrow> ihk_cpu_req option \<Rightarrow> 'a smp_scheme \<Rightarrow> (int \<times> 'a smp_scheme) option" where
  "smp_ihk_release_cpu L arg s =
     (case get_cpu_req L arg of
        Inl ret \<Rightarrow> Some (ret, s)
      | Inr cpus \<Rightarrow>
          (case build_mask (nr_cpu_ids L) cpus {} of
             None \<Rightarrow> Some (err EINVAL, s)
           | Some msk \<Rightarrow> do {
               (ret, s) \<leftarrow> collect_online L (for_each_cpu L msk) s;
               if ret \<noteq> 0 then Some (ret, change_status IHK_SMP_CPU_TO_ONLINE IHK_SMP_CPU_AVAILABLE s)
               else case online_loop L [0..<SMP_MAX_CPUS] s of (ret, s) \<Rightarrow>
                 if ret \<noteq> 0 then Some (ret, change_status IHK_SMP_CPU_TO_ONLINE IHK_SMP_CPU_AVAILABLE s)
                 else Some (0, s)
             }))"

definition smp_ihk_get_num_cpus :: "'a smp_scheme \<Rightarrow> int" where
  "smp_ihk_get_num_cpus s = int (length (filter (\<lambda>cpu. status_of s cpu = IHK_SMP_CPU_AVAILABLE) [0..<SMP_MAX_CPUS]))"

text \<open>The queries give the return code and the request as it is left in user space.\<close>

definition smp_ihk_query_cpu ::
  "lnx \<Rightarrow> ihk_cpu_req option \<Rightarrow> 'a smp_scheme \<Rightarrow> int \<times> ihk_cpu_req option" where
  "smp_ihk_query_cpu L arg s =
     (case arg of
        None \<Rightarrow> (err EFAULT, arg)
      | Some req \<Rightarrow>
          let res = filter (\<lambda>cpu. status_of s cpu = IHK_SMP_CPU_AVAILABLE) [0..<SMP_MAX_CPUS] in
          if validate_cpu_req req \<noteq> 0 then (err EINVAL, arg)
          else if int (length res) \<noteq> req_num_cpus req then (err EINVAL, arg)
          else if \<not> kmalloc_ok L 0 then (err ENOMEM, arg)
          else if req_num_cpus req > 0
          then (case copy_to_user (the (req_cpus req)) (map int res) of
                  None \<Rightarrow> (err EFAULT, arg)
                | Some arr \<Rightarrow> (0, Some (req\<lparr>req_cpus := Some arr\<rparr>)))
          else (0, arg))"

section \<open>CPUs of a kernel instance\<close>

text \<open>The state of an operation on an instance: the driver's tables and the instance's own data.\<close>

fun assign_cpus ::
  "lnx \<Rightarrow> ihk_os \<Rightarrow> nat list \<Rightarrow> 'a smp_scheme \<times> 'b smp_os_data_scheme \<Rightarrow> ('a smp_scheme \<times> 'b smp_os_data_scheme) option" where
  "assign_cpus L h [] st = Some st"
| "assign_cpus L h (cpu # cpus) (s, d) =
     (if cpu \<ge> SMP_MAX_CPUS \<or> os_nr_cpus d \<ge> SMP_MAX_CPUS then None
      else
        let hw = c_hw_id (ihk_smp_cpus s cpu);
            n = os_nr_cpus d;
            s = set_cpu cpu (\<lambda>c. c\<lparr>c_status := IHK_SMP_CPU_ASSIGNED, c_os := Some h, c_ikc_map_cpu := 0\<rparr>) s;
            d = d\<lparr>os_cpu_hw_ids_map := insert hw (os_cpu_hw_ids_map d),
                   os_numa_mask := insert (cpu_to_node L cpu) (os_numa_mask d),
                   os_cpu_hw_ids := (os_cpu_hw_ids d)(n := hw),
                   os_cpu_mapping := (os_cpu_mapping d)(n := cpu),
                   os_nr_cpus := n + 1\<rparr>
        in assign_cpus L h cpus (s, d))"

text \<open>A test of the requested CPUs, in ascending order: whether all pass.\<close>

fun check_cpus :: "(ihk_smp_cpu \<Rightarrow> bool) \<Rightarrow> nat list \<Rightarrow> 'a smp_scheme \<Rightarrow> bool option" where
  "check_cpus P [] s = Some True"
| "check_cpus P (cpu # cpus) s =
     (if cpu \<ge> SMP_MAX_CPUS then None
      else if \<not> P (ihk_smp_cpus s cpu) then Some False
      else check_cpus P cpus s)"

definition smp_ihk_os_assign_cpu ::
  "lnx \<Rightarrow> ihk_os \<Rightarrow> ihk_cpu_req option \<Rightarrow> 'a smp_scheme \<times> 'b smp_os_data_scheme \<Rightarrow>
     (int \<times> 'a smp_scheme \<times> 'b smp_os_data_scheme) option" where
  "smp_ihk_os_assign_cpu L h arg st =
     (if os_status (snd st) \<noteq> BUILTIN_OS_STATUS_INITIAL then Some (err EBUSY, st)
      else
        (case get_cpu_req L arg of
           Inl ret \<Rightarrow> Some (ret, st)
         | Inr cpus \<Rightarrow>
             (case build_mask (nr_cpu_ids L) cpus {} of
                None \<Rightarrow> Some (err EINVAL, st)
              | Some msk \<Rightarrow> do {
                  ok \<leftarrow> check_cpus (\<lambda>c. c_status c = IHK_SMP_CPU_AVAILABLE) (for_each_cpu L msk) (fst st);
                  if \<not> ok then Some (err EINVAL, st)
                  else do {
                    st \<leftarrow> assign_cpus L h (map nat cpus) st;
                    Some (0, st)
                  }
                })))"

text \<open>The loop that moves the entries behind position \<open>i - 1\<close> down by one.\<close>

fun shift_down :: "nat \<Rightarrow> nat \<Rightarrow> 'b smp_os_data_scheme \<Rightarrow> 'b smp_os_data_scheme" where
  "shift_down i 0 d = d"
| "shift_down i (Suc k) d =
     shift_down (i + 1) k
       (d\<lparr>os_cpu_hw_ids := (os_cpu_hw_ids d)(i - 1 := os_cpu_hw_ids d i),
          os_cpu_mapping := (os_cpu_mapping d)(i - 1 := os_cpu_mapping d i)\<rparr>)"

text \<open>The first argument counts the entries left to look at, from \<open>lwk_cpu\<close> on.\<close>

fun drop_mapping :: "nat \<Rightarrow> nat \<Rightarrow> nat \<Rightarrow> 'b smp_os_data_scheme \<Rightarrow> 'b smp_os_data_scheme" where
  "drop_mapping 0 lwk_cpu cpu d = d"
| "drop_mapping (Suc k) lwk_cpu cpu d =
     (if os_cpu_mapping d lwk_cpu \<noteq> cpu then drop_mapping k (lwk_cpu + 1) cpu d
      else (shift_down (lwk_cpu + 1) k d)\<lparr>os_nr_cpus := os_nr_cpus d - 1\<rparr>)"

definition release_one ::
  "nat \<Rightarrow> 'a smp_scheme \<times> 'b smp_os_data_scheme \<Rightarrow> 'a smp_scheme \<times> 'b smp_os_data_scheme" where
  "release_one cpu = (\<lambda>(s, d).
     let hw = c_hw_id (ihk_smp_cpus s cpu);
         s = ihk_smp_reset_cpu hw s;
         d = d\<lparr>os_cpu_hw_ids_map := os_cpu_hw_ids_map d - {hw}\<rparr>;
         s = set_cpu cpu (\<lambda>c. c\<lparr>c_status := IHK_SMP_CPU_AVAILABLE, c_os := None\<rparr>) s
     in (s, drop_mapping (os_nr_cpus d) 0 cpu d))"

definition smp_ihk_os_release_cpu ::
  "lnx \<Rightarrow> ihk_os \<Rightarrow> ihk_cpu_req option \<Rightarrow> 'a smp_scheme \<times> 'b smp_os_data_scheme \<Rightarrow>
     (int \<times> 'a smp_scheme \<times> 'b smp_os_data_scheme) option" where
  "smp_ihk_os_release_cpu L h arg st =
     (if os_status (snd st) \<noteq> BUILTIN_OS_STATUS_INITIAL then Some (err EBUSY, st)
      else
        (case get_cpu_req L arg of
           Inl ret \<Rightarrow> Some (ret, st)
         | Inr cpus \<Rightarrow>
             (case build_mask (nr_cpu_ids L) cpus {} of
                None \<Rightarrow> Some (err EINVAL, st)
              | Some msk \<Rightarrow> do {
                  ok \<leftarrow> check_cpus (\<lambda>c. c_status c = IHK_SMP_CPU_ASSIGNED \<and> c_os c = Some h) (for_each_cpu L msk) (fst st);
                  if \<not> ok then Some (err EINVAL, st)
                  else Some (0, fold release_one (for_each_cpu L msk) st)
                })))"

definition smp_ihk_os_get_num_cpus :: "'b smp_os_data_scheme \<Rightarrow> int" where
  "smp_ihk_os_get_num_cpus d = int (os_nr_cpus d)"

definition smp_ihk_os_query_cpu ::
  "lnx \<Rightarrow> ihk_cpu_req option \<Rightarrow> 'b smp_os_data_scheme \<Rightarrow> int \<times> ihk_cpu_req option" where
  "smp_ihk_os_query_cpu L arg d =
     (case arg of
        None \<Rightarrow> (err EFAULT, arg)
      | Some req \<Rightarrow>
          if validate_cpu_req req \<noteq> 0 then (err EINVAL, arg)
          else if req_num_cpus req \<noteq> int (os_nr_cpus d) then (err EINVAL, arg)
          else if \<not> kmalloc_ok L 0 then (err ENOMEM, arg)
          else if req_num_cpus req > 0
          then (case copy_to_user (the (req_cpus req)) (map (\<lambda>i. int (os_cpu_mapping d i)) [0..<os_nr_cpus d]) of
                  None \<Rightarrow> (err EFAULT, arg)
                | Some arr \<Rightarrow> (0, Some (req\<lparr>req_cpus := Some arr\<rparr>)))
          else (0, arg))"

text \<open>The CPU part of shutting an instance down.\<close>

definition reset_os_cpus ::
  "ihk_os \<Rightarrow> 'a smp_scheme \<times> 'b smp_os_data_scheme \<Rightarrow> 'a smp_scheme \<times> 'b smp_os_data_scheme" where
  "reset_os_cpus h = (\<lambda>(s, d).
     (fold (\<lambda>i s. if os_of s i \<noteq> Some h then s
                  else set_cpu i (\<lambda>c. c\<lparr>c_status := IHK_SMP_CPU_AVAILABLE, c_os := None\<rparr>)
                         (ihk_smp_reset_cpu (c_hw_id (ihk_smp_cpus s i)) s))
        [0..<SMP_MAX_CPUS] s,
      d\<lparr>os_nr_cpus := 0\<rparr>))"

section \<open>Routing of inter-kernel interrupts\<close>

fun set_map_loop :: "lnx \<Rightarrow> (int \<times> int) list \<Rightarrow> 'a smp_scheme \<Rightarrow> int \<times> 'a smp_scheme" where
  "set_map_loop L [] s = (0, s)"
| "set_map_loop L ((src_cpu, dst_cpu) # ps) s =
     (if src_cpu < 0 \<or> src_cpu \<ge> int SMP_MAX_CPUS then (err EINVAL, s)
      else if status_of s (nat src_cpu) \<noteq> IHK_SMP_CPU_ASSIGNED then (err EINVAL, s)
      else if dst_cpu < 0 \<or> dst_cpu \<ge> int SMP_MAX_CPUS then (err EINVAL, s)
      else if status_of s (nat dst_cpu) = IHK_SMP_CPU_ASSIGNED then (err EINVAL, s)
      else if \<not> cpu_present L (nat dst_cpu) then (err EINVAL, s)
      else if \<not> cpu_online s (nat dst_cpu) then (err EINVAL, s)
      else set_map_loop L ps (set_cpu (nat src_cpu) (c_ikc_map_cpu_update (\<lambda>_. nat dst_cpu)) s))"

text \<open>Without a complete mapping every CPU of the instance interrupts CPU 0.\<close>

definition default_map :: "ihk_os \<Rightarrow> 'a smp_scheme \<Rightarrow> 'a smp_scheme" where
  "default_map h s =
     fold (\<lambda>i s. if status_of s i \<noteq> IHK_SMP_CPU_ASSIGNED \<or> os_of s i \<noteq> Some h then s
                 else set_cpu i (c_ikc_map_cpu_update (\<lambda>_. 0)) s)
       [0..<SMP_MAX_CPUS] s"

text \<open>The distinct interrupt targets of an instance must fit the interrupt lines the driver has.\<close>

definition smp_ihk_os_check_ikc_map :: "nat \<Rightarrow> ihk_os \<Rightarrow> 'a smp_scheme \<Rightarrow> int" where
  "smp_ihk_os_check_ikc_map ihk_nr_irq h s =
     (let mine = (\<lambda>i. status_of s i = IHK_SMP_CPU_ASSIGNED \<and> os_of s i = Some h);
          (checkers, mn, cpu_count) =
            fold (\<lambda>i (checkers, mn, cpu_count).
                    if \<not> mine i \<or> checkers i then (checkers, mn, cpu_count)
                    else ((\<lambda>j. checkers j \<or> (j < SMP_MAX_CPUS \<and> mine j \<and>
                             c_ikc_map_cpu (ihk_smp_cpus s i) = c_ikc_map_cpu (ihk_smp_cpus s j))),
                          min mn (c_ikc_map_cpu (ihk_smp_cpus s i)), cpu_count + 1))
              [0..<SMP_MAX_CPUS] ((\<lambda>_. False), 2 ^ 31 - 1, 0);
          cpu_count = (if mn \<noteq> 0 then cpu_count + 1 else cpu_count)
      in if ihk_nr_irq < cpu_count then 1 else 0)"

text \<open>\<open>check\<close> is the architecture's \<open>smp_ihk_os_check_ikc_map\<close>; on x86 it is constantly 0.\<close>

definition set_ikc_map_body ::
  "('a smp_scheme \<Rightarrow> int) \<Rightarrow> lnx \<Rightarrow> ihk_ikc_req option \<Rightarrow> 'a smp_scheme \<times> 'b smp_os_data_scheme \<Rightarrow>
     int \<times> 'a smp_scheme \<times> 'b smp_os_data_scheme" where
  "set_ikc_map_body check L arg = (\<lambda>(s, d).
     case arg of
       None \<Rightarrow> (err EFAULT, s, d)
     | Some req \<Rightarrow>
         let n = nat (req_num_ikc req) in
         if validate_ikc_req req \<noteq> 0 then (err EINVAL, s, d)
         else if os_status d \<noteq> BUILTIN_OS_STATUS_INITIAL then (err EBUSY, s, d)
         else if \<not> kmalloc_ok L 0 then (err ENOMEM, s, d)
         else
           (case copy_from_user (case_option [] (\<lambda>xs. xs) (req_src_cpus req)) n of
              None \<Rightarrow> (err EFAULT, s, d)
            | Some srcs \<Rightarrow>
                if \<not> kmalloc_ok L 1 then (err ENOMEM, s, d)
                else
                  (case copy_from_user (case_option [] (\<lambda>xs. xs) (req_dst_cpus req)) n of
                     None \<Rightarrow> (err EFAULT, s, d)
                   | Some dsts \<Rightarrow>
                       (case set_map_loop L (zip srcs dsts) s of (ret, s) \<Rightarrow>
                        if ret \<noteq> 0 then (ret, s, d)
                        else if check s = 0 then (0, s, d\<lparr>os_cpu_ikc_mapped := True\<rparr>)
                        else (0, s, d)))))"

definition smp_ihk_os_set_ikc_map ::
  "('a smp_scheme \<Rightarrow> int) \<Rightarrow> lnx \<Rightarrow> ihk_os \<Rightarrow> ihk_ikc_req option \<Rightarrow> 'a smp_scheme \<times> 'b smp_os_data_scheme \<Rightarrow>
     int \<times> 'a smp_scheme \<times> 'b smp_os_data_scheme" where
  "smp_ihk_os_set_ikc_map check L h arg st =
     (case set_ikc_map_body check L arg st of (ret, s, d) \<Rightarrow>
        if os_cpu_ikc_mapped d then (ret, s, d) else (ret, default_map h s, d))"

text \<open>The array written is the kernel's copy, of \<open>num\<close> elements: writing behind it is \<open>None\<close>.\<close>

fun collect_map ::
  "ihk_os \<Rightarrow> nat \<Rightarrow> nat list \<Rightarrow> 'a smp_scheme \<Rightarrow> (int \<times> int) list \<Rightarrow> (int + (int \<times> int) list) option" where
  "collect_map h num [] s res = Some (Inr res)"
| "collect_map h num (src # srcs) s res =
     (if status_of s src \<noteq> IHK_SMP_CPU_ASSIGNED \<or> os_of s src \<noteq> Some h then collect_map h num srcs s res
      else if length res \<ge> num then None
      else
        let res = res @ [(int src, int (c_ikc_map_cpu (ihk_smp_cpus s src)))] in
        if length res > num then Some (Inl (err EINVAL)) else collect_map h num srcs s res)"

definition smp_ihk_os_get_ikc_map ::
  "lnx \<Rightarrow> ihk_os \<Rightarrow> ihk_ikc_req option \<Rightarrow> 'a smp_scheme \<Rightarrow> (int \<times> ihk_ikc_req option) option" where
  "smp_ihk_os_get_ikc_map L h arg s =
     (case arg of
        None \<Rightarrow> Some (err EFAULT, arg)
      | Some req \<Rightarrow>
          let n = nat (req_num_ikc req);
              srcs = case_option [] (\<lambda>xs. xs) (req_src_cpus req);
              dsts = case_option [] (\<lambda>xs. xs) (req_dst_cpus req)
          in
          if validate_ikc_req req \<noteq> 0 then Some (err EINVAL, arg)
          else if \<not> kmalloc_ok L 0 \<or> \<not> kmalloc_ok L 1 then Some (err ENOMEM, arg)
          else if copy_from_user srcs n = None \<or> copy_from_user dsts n = None then Some (err EFAULT, arg)
          else do {
            res \<leftarrow> collect_map h n [0..<SMP_MAX_CPUS] s [];
            case res of
              Inl ret \<Rightarrow> Some (ret, arg)
            | Inr ps \<Rightarrow>
                if ps = [] then Some (0, Some (req\<lparr>req_num_ikc := 0\<rparr>))
                else
                  (case copy_to_user srcs (map fst ps) of
                     None \<Rightarrow> Some (err EFAULT, arg)
                   | Some arr \<Rightarrow>
                       (case copy_to_user dsts (map snd ps) of
                          None \<Rightarrow> Some (err EFAULT, Some (req\<lparr>req_src_cpus := Some arr\<rparr>))
                        | Some arr' \<Rightarrow>
                            Some (0, Some (req\<lparr>req_src_cpus := Some arr, req_dst_cpus := Some arr',
                              req_num_ikc := int (length ps)\<rparr>))))
          })"

section \<open>The loops over the table\<close>

lemma set_cpu_simps [simp]:
  "ihk_smp_cpus (set_cpu i f s) = (ihk_smp_cpus s)(i := f (ihk_smp_cpus s i))"
  "cpu_online (set_cpu i f s) = cpu_online s" "resets (set_cpu i f s) = resets s" "smp.more (set_cpu i f s) = smp.more s"
  by (simp_all add: set_cpu_def)

lemma reset_cpu_simps [simp]:
  "ihk_smp_cpus (ihk_smp_reset_cpu hw s) = ihk_smp_cpus s" "cpu_online (ihk_smp_reset_cpu hw s) = cpu_online s"
  "resets (ihk_smp_reset_cpu hw s) = hw # resets s" "smp.more (ihk_smp_reset_cpu hw s) = smp.more s"
  by (simp_all add: ihk_smp_reset_cpu_def)

lemma sysfs_simps [simp]:
  "ihk_smp_cpus (snd (smp_ihk_write_cpu_sys_file L cpu v s)) = ihk_smp_cpus s"
  "resets (snd (smp_ihk_write_cpu_sys_file L cpu v s)) = resets s"
  "smp.more (snd (smp_ihk_write_cpu_sys_file L cpu v s)) = smp.more s"
  by (simp_all add: smp_ihk_write_cpu_sys_file_def)

lemma change_status_cpus:
  "ihk_smp_cpus (change_status st st' s) =
     (\<lambda>j. if j < SMP_MAX_CPUS \<and> status_of s j = st then (ihk_smp_cpus s j)\<lparr>c_status := st'\<rparr> else ihk_smp_cpus s j)"
  "cpu_online (change_status st st' s) = cpu_online s"
  "resets (change_status st st' s) = resets s"
  "smp.more (change_status st st' s) = smp.more s"
proof -
  have "distinct is \<Longrightarrow>
      ihk_smp_cpus (fold (\<lambda>cpu s. if status_of s cpu \<noteq> st then s else set_cpu cpu (c_status_update (\<lambda>_. st')) s) is s) j =
        (if j \<in> set is \<and> status_of s j = st then (ihk_smp_cpus s j)\<lparr>c_status := st'\<rparr> else ihk_smp_cpus s j) \<and>
      cpu_online (fold (\<lambda>cpu s. if status_of s cpu \<noteq> st then s else set_cpu cpu (c_status_update (\<lambda>_. st')) s) is s) = cpu_online s \<and>
      resets (fold (\<lambda>cpu s. if status_of s cpu \<noteq> st then s else set_cpu cpu (c_status_update (\<lambda>_. st')) s) is s) = resets s \<and>
      smp.more (fold (\<lambda>cpu s. if status_of s cpu \<noteq> st then s else set_cpu cpu (c_status_update (\<lambda>_. st')) s) is s) = smp.more s"
    for "is" j
    by (induction "is" arbitrary: s) auto
  from this [of "[0..<SMP_MAX_CPUS]"] show
    "ihk_smp_cpus (change_status st st' s) =
       (\<lambda>j. if j < SMP_MAX_CPUS \<and> status_of s j = st then (ihk_smp_cpus s j)\<lparr>c_status := st'\<rparr> else ihk_smp_cpus s j)"
    "cpu_online (change_status st st' s) = cpu_online s"
    "resets (change_status st st' s) = resets s" "smp.more (change_status st st' s) = smp.more s"
    by (auto simp: change_status_def fun_eq_iff)
qed

lemma reonline_cpus:
  "ihk_smp_cpus (reonline L s) =
     (\<lambda>j. if j < SMP_MAX_CPUS \<and> status_of s j = IHK_SMP_CPU_OFFLINED then (ihk_smp_cpus s j)\<lparr>c_status := IHK_SMP_CPU_ONLINE\<rparr>
          else ihk_smp_cpus s j)"
  "cpu_online (reonline L s) =
     (\<lambda>j. if j < SMP_MAX_CPUS \<and> status_of s j = IHK_SMP_CPU_OFFLINED \<and> sysfs_ok L j True then True else cpu_online s j)"
proof -
  let ?f = "\<lambda>cpu s. if status_of s cpu \<noteq> IHK_SMP_CPU_OFFLINED then s
     else set_cpu cpu (c_status_update (\<lambda>_. IHK_SMP_CPU_ONLINE)) (snd (smp_ihk_online_cpu L cpu s))"
  have "distinct is \<Longrightarrow>
      ihk_smp_cpus (fold ?f is s) j =
        (if j \<in> set is \<and> status_of s j = IHK_SMP_CPU_OFFLINED then (ihk_smp_cpus s j)\<lparr>c_status := IHK_SMP_CPU_ONLINE\<rparr>
         else ihk_smp_cpus s j) \<and>
      cpu_online (fold ?f is s) j =
        (if j \<in> set is \<and> status_of s j = IHK_SMP_CPU_OFFLINED \<and> sysfs_ok L j True then True else cpu_online s j)"
    for "is" j
    by (induction "is" arbitrary: s) (auto simp: smp_ihk_online_cpu_def smp_ihk_write_cpu_sys_file_def)
  from this [of "[0..<SMP_MAX_CPUS]"] show
    "ihk_smp_cpus (reonline L s) =
       (\<lambda>j. if j < SMP_MAX_CPUS \<and> status_of s j = IHK_SMP_CPU_OFFLINED then (ihk_smp_cpus s j)\<lparr>c_status := IHK_SMP_CPU_ONLINE\<rparr>
            else ihk_smp_cpus s j)"
    "cpu_online (reonline L s) =
       (\<lambda>j. if j < SMP_MAX_CPUS \<and> status_of s j = IHK_SMP_CPU_OFFLINED \<and> sysfs_ok L j True then True else cpu_online s j)"
    by (auto simp: reonline_def fun_eq_iff)
qed

lemma build_mask_eq:
  "build_mask n cs m = (if \<forall>c \<in> set cs. 0 \<le> c \<and> c < int n then Some (m \<union> nat ` set cs) else None)"
  by (induction cs arbitrary: m) auto

lemma for_each_cpu_simps [simp]:
  "distinct (for_each_cpu L m)" "set (for_each_cpu L m) = {c \<in> m. c < nr_cpu_ids L}"
  by (auto simp: for_each_cpu_def)

section \<open>Reserving and releasing\<close>

definition to_offline :: "lnx \<Rightarrow> nat \<Rightarrow> ihk_smp_cpu \<Rightarrow> ihk_smp_cpu" where
  "to_offline L j c = c\<lparr>c_id := int j, c_hw_id := hw_id_of L j, c_status := IHK_SMP_CPU_TO_OFFLINE, c_os := None\<rparr>"

definition reservable :: "lnx \<Rightarrow> 'a smp_scheme \<Rightarrow> nat \<Rightarrow> bool" where
  "reservable L s c \<longleftrightarrow> cpu_present L c \<and> cpu_online s c \<and> status_of s c = IHK_SMP_CPU_ONLINE"

text \<open>A table with the entries of the CPUs in \<open>A\<close> replaced.\<close>

definition upd_cpus :: "nat set \<Rightarrow> (nat \<Rightarrow> ihk_smp_cpu \<Rightarrow> ihk_smp_cpu) \<Rightarrow> 'a smp_scheme \<Rightarrow> 'a smp_scheme" where
  "upd_cpus A f s = s\<lparr>ihk_smp_cpus := (\<lambda>j. if j \<in> A then f j (ihk_smp_cpus s j) else ihk_smp_cpus s j)\<rparr>"

lemma upd_cpus_simps [simp]:
  "ihk_smp_cpus (upd_cpus A f s) = (\<lambda>j. if j \<in> A then f j (ihk_smp_cpus s j) else ihk_smp_cpus s j)"
  "cpu_online (upd_cpus A f s) = cpu_online s" "resets (upd_cpus A f s) = resets s"
  "smp.more (upd_cpus A f s) = smp.more s"
  by (simp_all add: upd_cpus_def)

lemma upd_cpus_empty [simp]: "upd_cpus {} f s = s"
  by (simp add: upd_cpus_def)

lemma upd_cpus_set_cpu: "c \<notin> A \<Longrightarrow> upd_cpus A f (set_cpu c (f c) s) = upd_cpus (insert c A) f s"
  by (auto simp: upd_cpus_def set_cpu_def fun_eq_iff intro!: arg_cong [where f = "\<lambda>x. s\<lparr>ihk_smp_cpus := x\<rparr>"])

lemma collect_offline_eq:
  assumes "distinct cs" and "\<forall>c \<in> set cs. c < SMP_MAX_CPUS"
  shows "collect_offline L cs s =
    Some (if \<forall>c \<in> set cs. reservable L s c then 0 else err EINVAL,
      upd_cpus (set (takeWhile (reservable L s) cs)) (to_offline L) s)"
  using assms
proof (induction cs arbitrary: s)
  case (Cons c cs)
  show ?case
  proof (cases "reservable L s c")
    case False
    then show ?thesis
      using Cons.prems by (auto simp: reservable_def)
  next
    case True
    let ?s = "set_cpu c (to_offline L c) s"
    have "reservable L ?s d = reservable L s d" if "d \<in> set cs" for d
      using that Cons.prems by (auto simp: reservable_def)
    then have keep: "takeWhile (reservable L ?s) cs = takeWhile (reservable L s) cs"
        "(\<forall>c \<in> set cs. reservable L ?s c) \<longleftrightarrow> (\<forall>c \<in> set cs. reservable L s c)"
      by (auto intro: takeWhile_cong)
    have "c \<notin> set (takeWhile (reservable L s) cs)"
      using Cons.prems by (auto dest: set_takeWhileD)
    note upd = upd_cpus_set_cpu [OF this, of "to_offline L" s]
    have "collect_offline L (c # cs) s = collect_offline L cs ?s"
      using True Cons.prems by (simp add: reservable_def to_offline_def [abs_def])
    also have "\<dots> = Some (if \<forall>c \<in> set cs. reservable L ?s c then 0 else err EINVAL,
        upd_cpus (set (takeWhile (reservable L ?s) cs)) (to_offline L) ?s)"
      using Cons.prems by (intro Cons.IH) auto
    finally show ?thesis
      unfolding keep upd using True by simp
  qed
qed simp

definition offlined :: "lnx \<Rightarrow> nat \<Rightarrow> ihk_smp_cpu \<Rightarrow> ihk_smp_cpu" where
  "offlined L j c = c\<lparr>c_hw_id := hw_id_of L j, c_status := IHK_SMP_CPU_OFFLINED, c_os := None\<rparr>"

text \<open>The CPUs a loop gets through before Linux refuses one.\<close>

definition taken :: "lnx \<Rightarrow> bool \<Rightarrow> cpu_status \<Rightarrow> nat list \<Rightarrow> 'a smp_scheme \<Rightarrow> nat list" where
  "taken L v st js s = takeWhile (\<lambda>j. sysfs_ok L j v) (filter (\<lambda>j. status_of s j = st) js)"

lemma taken_Nil [simp]: "taken L v st [] s = []"
  by (simp add: taken_def)

lemma taken_Cons:
  "taken L v st (j # js) s =
     (if status_of s j \<noteq> st then taken L v st js s
      else if sysfs_ok L j v then j # taken L v st js s else [])"
  by (simp add: taken_def)

lemma taken_cong: "(\<And>i. i \<in> set js \<Longrightarrow> status_of s i = status_of s' i) \<Longrightarrow> taken L v st js s = taken L v st js s'"
  by (simp add: taken_def cong: filter_cong)

lemma taken_subset: "j \<in> set (taken L v st js s) \<Longrightarrow> j \<in> set js \<and> status_of s j = st \<and> sysfs_ok L j v"
  by (auto simp: taken_def dest: set_takeWhileD)

lemma taken_all:
  "\<forall>j \<in> set js. status_of s j = st \<longrightarrow> sysfs_ok L j v \<Longrightarrow> taken L v st js s = filter (\<lambda>j. status_of s j = st) js"
  by (simp add: taken_def takeWhile_eq_all_conv)

lemma offline_loop_eq:
  assumes "distinct js" and "Q = taken L False IHK_SMP_CPU_TO_OFFLINE js s" and "offline_loop L js s = (r, s')"
  shows "r = (if \<forall>j \<in> set js. status_of s j = IHK_SMP_CPU_TO_OFFLINE \<longrightarrow> sysfs_ok L j False then 0 else - 1) \<and>
    ihk_smp_cpus s' = (\<lambda>j. if j \<in> set Q then offlined L j (ihk_smp_cpus s j) else ihk_smp_cpus s j) \<and>
    cpu_online s' = (\<lambda>j. if j \<in> set Q then False else cpu_online s j) \<and>
    resets s' = rev (map (hw_id_of L) Q) @ resets s \<and> smp.more s' = smp.more s"
  using assms
proof (induction js arbitrary: s Q)
  case (Cons j js)
  consider (skip) "status_of s j \<noteq> IHK_SMP_CPU_TO_OFFLINE"
    | (fail) "status_of s j = IHK_SMP_CPU_TO_OFFLINE" "\<not> sysfs_ok L j False"
    | (ok) "status_of s j = IHK_SMP_CPU_TO_OFFLINE" "sysfs_ok L j False" by blast
  then show ?case
  proof cases
    case skip
    with Cons show ?thesis by (simp add: taken_Cons)
  next
    case fail
    with Cons.prems show ?thesis
      by (auto simp: smp_ihk_offline_cpu_def smp_ihk_write_cpu_sys_file_def taken_Cons)
  next
    case ok
    let ?s = "ihk_smp_reset_cpu (hw_id_of L j)
      (set_cpu j (offlined L j) (s\<lparr>cpu_online := (cpu_online s)(j := False)\<rparr>))"
    let ?Q = "taken L False IHK_SMP_CPU_TO_OFFLINE js s"
    have j: "j \<notin> set js" using Cons.prems by simp
    then have keep: "\<And>i. i \<in> set js \<Longrightarrow> status_of ?s i = status_of s i" by auto
    have Q: "Q = j # ?Q" "?Q = taken L False IHK_SMP_CPU_TO_OFFLINE js ?s" "j \<notin> set ?Q"
      using Cons.prems(2) ok taken_cong [of js ?s s] keep j by (auto simp: taken_Cons dest: taken_subset)
    have "offline_loop L (j # js) s = offline_loop L js ?s"
      using ok by (simp add: smp_ihk_offline_cpu_def smp_ihk_write_cpu_sys_file_def offlined_def [abs_def])
    with Cons.prems have "offline_loop L js ?s = (r, s')" "distinct js" by simp_all
    from Cons.IH [OF this(2) Q(2) this(1)] keep ok Q(3) show ?thesis
      unfolding Q(1) by (auto simp: fun_eq_iff)
  qed
qed simp

definition to_online :: "lnx \<Rightarrow> nat \<Rightarrow> ihk_smp_cpu \<Rightarrow> ihk_smp_cpu" where
  "to_online L j c = c\<lparr>c_id := int j, c_hw_id := hw_id_of L j, c_status := IHK_SMP_CPU_TO_ONLINE, c_os := None\<rparr>"

definition releasable :: "lnx \<Rightarrow> 'a smp_scheme \<Rightarrow> nat \<Rightarrow> bool" where
  "releasable L s c \<longleftrightarrow> cpu_present L c \<and> \<not> cpu_online s c \<and> status_of s c = IHK_SMP_CPU_AVAILABLE"

lemma collect_online_eq:
  assumes "distinct cs" and "\<forall>c \<in> set cs. c < SMP_MAX_CPUS"
  shows "collect_online L cs s =
    Some (if \<forall>c \<in> set cs. releasable L s c then 0 else err EINVAL,
      upd_cpus (set (takeWhile (releasable L s) cs)) (to_online L) s)"
  using assms
proof (induction cs arbitrary: s)
  case (Cons c cs)
  show ?case
  proof (cases "releasable L s c")
    case False
    then show ?thesis
      using Cons.prems by (auto simp: releasable_def)
  next
    case True
    let ?s = "set_cpu c (to_online L c) s"
    have "releasable L ?s d = releasable L s d" if "d \<in> set cs" for d
      using that Cons.prems by (auto simp: releasable_def)
    then have keep: "takeWhile (releasable L ?s) cs = takeWhile (releasable L s) cs"
        "(\<forall>c \<in> set cs. releasable L ?s c) \<longleftrightarrow> (\<forall>c \<in> set cs. releasable L s c)"
      by (auto intro: takeWhile_cong)
    have "c \<notin> set (takeWhile (releasable L s) cs)"
      using Cons.prems by (auto dest: set_takeWhileD)
    note upd = upd_cpus_set_cpu [OF this, of "to_online L" s]
    have "collect_online L (c # cs) s = collect_online L cs ?s"
      using True Cons.prems by (simp add: releasable_def to_online_def [abs_def])
    also have "\<dots> = Some (if \<forall>c \<in> set cs. releasable L ?s c then 0 else err EINVAL,
        upd_cpus (set (takeWhile (releasable L ?s) cs)) (to_online L) ?s)"
      using Cons.prems by (intro Cons.IH) auto
    finally show ?thesis
      unfolding keep upd using True by simp
  qed
qed simp

definition onlined :: "ihk_smp_cpu \<Rightarrow> ihk_smp_cpu" where
  "onlined c = c\<lparr>c_status := IHK_SMP_CPU_ONLINE, c_os := None\<rparr>"

lemma online_loop_eq:
  assumes "distinct js" and "Q = taken L True IHK_SMP_CPU_TO_ONLINE js s" and "online_loop L js s = (r, s')"
  shows "r = (if \<forall>j \<in> set js. status_of s j = IHK_SMP_CPU_TO_ONLINE \<longrightarrow> sysfs_ok L j True then 0 else - 1) \<and>
    ihk_smp_cpus s' = (\<lambda>j. if j \<in> set Q then onlined (ihk_smp_cpus s j) else ihk_smp_cpus s j) \<and>
    cpu_online s' = (\<lambda>j. if j \<in> set Q then True else cpu_online s j) \<and>
    resets s' = resets s \<and> smp.more s' = smp.more s"
  using assms
proof (induction js arbitrary: s Q)
  case (Cons j js)
  consider (skip) "status_of s j \<noteq> IHK_SMP_CPU_TO_ONLINE"
    | (fail) "status_of s j = IHK_SMP_CPU_TO_ONLINE" "\<not> sysfs_ok L j True"
    | (ok) "status_of s j = IHK_SMP_CPU_TO_ONLINE" "sysfs_ok L j True" by blast
  then show ?case
  proof cases
    case skip
    with Cons show ?thesis by (simp add: taken_Cons)
  next
    case fail
    with Cons.prems show ?thesis
      by (auto simp: smp_ihk_online_cpu_def smp_ihk_write_cpu_sys_file_def taken_Cons)
  next
    case ok
    let ?s = "set_cpu j onlined (s\<lparr>cpu_online := (cpu_online s)(j := True)\<rparr>)"
    let ?Q = "taken L True IHK_SMP_CPU_TO_ONLINE js s"
    have j: "j \<notin> set js" using Cons.prems by simp
    then have keep: "\<And>i. i \<in> set js \<Longrightarrow> status_of ?s i = status_of s i" by auto
    have Q: "Q = j # ?Q" "?Q = taken L True IHK_SMP_CPU_TO_ONLINE js ?s" "j \<notin> set ?Q"
      using Cons.prems(2) ok taken_cong [of js ?s s] keep j by (auto simp: taken_Cons dest: taken_subset)
    have "online_loop L (j # js) s = online_loop L js ?s"
      using ok by (simp add: smp_ihk_online_cpu_def smp_ihk_write_cpu_sys_file_def onlined_def [abs_def])
    with Cons.prems have "online_loop L js ?s = (r, s')" "distinct js" by simp_all
    from Cons.IH [OF this(2) Q(2) this(1)] keep ok Q(3) show ?thesis
      unfolding Q(1) by (auto simp: fun_eq_iff)
  qed
qed simp

section \<open>Where a CPU is\<close>

definition place_cpu :: "'a smp_scheme \<Rightarrow> nat \<Rightarrow> place" where
  "place_cpu s i =
     (if status_of s i = IHK_SMP_CPU_AVAILABLE then Pool
      else if status_of s i = IHK_SMP_CPU_ASSIGNED then Os (the (os_of s i))
      else Outside)"

text \<open>
  The table between two operations: no CPU is in a transient state, the owner is set for
  assigned CPUs only, and a CPU in the pool or with an instance does not run Linux.
\<close>

definition settled :: "ihk_smp_cpu \<Rightarrow> bool \<Rightarrow> bool" where
  "settled c online \<longleftrightarrow>
     c_status c \<in> {IHK_SMP_CPU_NONE, IHK_SMP_CPU_ONLINE, IHK_SMP_CPU_AVAILABLE, IHK_SMP_CPU_ASSIGNED} \<and>
     (c_os c \<noteq> None \<longleftrightarrow> c_status c = IHK_SMP_CPU_ASSIGNED) \<and>
     (c_status c \<in> {IHK_SMP_CPU_AVAILABLE, IHK_SMP_CPU_ASSIGNED} \<longrightarrow> \<not> online)"

definition cpu_wf :: "'a smp_scheme \<Rightarrow> bool" where
  "cpu_wf s \<longleftrightarrow> (\<forall>i < SMP_MAX_CPUS. settled (ihk_smp_cpus s i) (cpu_online s i))"

lemma cpu_wfD: "cpu_wf s \<Longrightarrow> i < SMP_MAX_CPUS \<Longrightarrow> settled (ihk_smp_cpus s i) (cpu_online s i)"
  by (simp add: cpu_wf_def)

lemma settled_stable:
  assumes "cpu_wf s" and "i < SMP_MAX_CPUS"
  shows "status_of s i \<noteq> IHK_SMP_CPU_TO_OFFLINE" "status_of s i \<noteq> IHK_SMP_CPU_OFFLINED"
    "status_of s i \<noteq> IHK_SMP_CPU_TO_ONLINE"
  using cpu_wfD [OF assms] by (auto simp: settled_def)

text \<open>The CPUs a request names.\<close>

definition requested :: "int list \<Rightarrow> nat set" where
  "requested cpus = nat ` set cpus"

lemma requested_mask:
  "\<forall>c \<in> set cpus. 0 \<le> c \<and> c < int (nr_cpu_ids L) \<Longrightarrow> set (for_each_cpu L (nat ` set cpus)) = requested cpus"
  by (auto simp: requested_def)

lemma requested_lt:
  "\<forall>c \<in> set cpus. 0 \<le> c \<and> c < int n \<Longrightarrow> n \<le> m \<Longrightarrow> c \<in> requested cpus \<Longrightarrow> c < m"
  by (auto simp: requested_def)

lemma place_cpu_eqI:
  "status_of s' i = status_of s i \<Longrightarrow> os_of s' i = os_of s i \<Longrightarrow> place_cpu s' i = place_cpu s i"
  by (simp add: place_cpu_def)

section \<open>What the requests do\<close>

text \<open>Reserving is all or nothing.\<close>

lemma reserve_cpu_cases:
  assumes wf: "cpu_wf s" and nr: "nr_cpu_ids L \<le> SMP_MAX_CPUS" and req: "get_cpu_req L arg = Inr cpus"
    and rng: "\<forall>c \<in> set cpus. 0 \<le> c \<and> c < int (nr_cpu_ids L)"
  shows "\<exists>r s'. smp_ihk_reserve_cpu L arg s = Some (r, s') \<and> cpu_wf s' \<and>
    (\<forall>i < SMP_MAX_CPUS. status_of s i = IHK_SMP_CPU_ASSIGNED \<longrightarrow> c_hw_id (ihk_smp_cpus s' i) = c_hw_id (ihk_smp_cpus s i)) \<and>
    (if \<forall>c \<in> requested cpus. reservable L s c \<and> sysfs_ok L c False
     then r = 0 \<and> (\<forall>i < SMP_MAX_CPUS. place_cpu s' i = (if i \<in> requested cpus then Pool else place_cpu s i))
     else r < 0 \<and> (\<forall>i < SMP_MAX_CPUS. place_cpu s' i = place_cpu s i))"
proof -
  define cs R where "cs = for_each_cpu L (nat ` set cpus)" and "R = requested cpus"
  define s1 where "s1 = upd_cpus (set (takeWhile (reservable L s) cs)) (to_offline L) s"
  have cs: "set cs = R" "distinct cs" "\<forall>c \<in> set cs. c < SMP_MAX_CPUS"
    using requested_mask [OF rng] requested_lt [OF rng nr] by (auto simp: cs_def R_def)
  then have R: "c \<in> R \<Longrightarrow> c < SMP_MAX_CPUS" for c by auto
  have P: "c \<in> set (takeWhile (reservable L s) cs) \<Longrightarrow> c \<in> R \<and> reservable L s c" for c
    using cs by (auto dest: set_takeWhileD)
  have unf: "smp_ihk_reserve_cpu L arg s = do {
      (ret, s) \<leftarrow> collect_offline L cs s;
      if ret \<noteq> 0 then Some (ret, change_status IHK_SMP_CPU_TO_OFFLINE IHK_SMP_CPU_ONLINE s)
      else case offline_loop L [0..<SMP_MAX_CPUS] s of (ret, s) \<Rightarrow>
        if ret \<noteq> 0 then Some (ret, change_status IHK_SMP_CPU_TO_OFFLINE IHK_SMP_CPU_ONLINE (reonline L s))
        else Some (0, change_status IHK_SMP_CPU_OFFLINED IHK_SMP_CPU_AVAILABLE s)
    }"
    using rng by (simp add: smp_ihk_reserve_cpu_def req build_mask_eq cs_def)
  have col: "collect_offline L cs s = Some (if \<forall>c \<in> R. reservable L s c then 0 else err EINVAL, s1)"
    using collect_offline_eq [OF cs(2,3), of L s] by (simp add: s1_def cs(1))
  note stable = settled_stable [OF wf]
  have "\<exists>r s'. smp_ihk_reserve_cpu L arg s = Some (r, s') \<and> cpu_wf s' \<and>
    (\<forall>i < SMP_MAX_CPUS. status_of s i = IHK_SMP_CPU_ASSIGNED \<longrightarrow> c_hw_id (ihk_smp_cpus s' i) = c_hw_id (ihk_smp_cpus s i)) \<and>
    (if \<forall>c \<in> R. reservable L s c \<and> sysfs_ok L c False
     then r = 0 \<and> (\<forall>i < SMP_MAX_CPUS. place_cpu s' i = (if i \<in> R then Pool else place_cpu s i))
     else r < 0 \<and> (\<forall>i < SMP_MAX_CPUS. place_cpu s' i = place_cpu s i))"
  proof (cases "\<forall>c \<in> R. reservable L s c")
    case False
    let ?s2 = "change_status IHK_SMP_CPU_TO_OFFLINE IHK_SMP_CPU_ONLINE s1"
    have "settled (ihk_smp_cpus ?s2 i) (cpu_online ?s2 i) \<and>
          (status_of s i = IHK_SMP_CPU_ASSIGNED \<longrightarrow> c_hw_id (ihk_smp_cpus ?s2 i) = c_hw_id (ihk_smp_cpus s i)) \<and> place_cpu ?s2 i = place_cpu s i" if "i < SMP_MAX_CPUS" for i
      using that stable [OF that] cpu_wfD [OF wf that] P [of i]
      by (auto simp: change_status_cpus settled_def to_offline_def place_cpu_def reservable_def s1_def)
    moreover have "smp_ihk_reserve_cpu L arg s = Some (err EINVAL, ?s2)"
      unfolding unf col if_not_P [OF False] by simp
    ultimately show ?thesis
      using False by (intro exI [of _ "err EINVAL"] exI [of _ ?s2]) (auto simp: cpu_wf_def)
  next
    case True
    then have tw: "takeWhile (reservable L s) cs = cs"
      using cs(1) by simp
    have s1: "ihk_smp_cpus s1 = (\<lambda>j. if j \<in> R then to_offline L j (ihk_smp_cpus s j) else ihk_smp_cpus s j)"
      "cpu_online s1 = cpu_online s"
      unfolding s1_def tw cs(1) by simp_all
    have onl: "c \<in> R \<Longrightarrow> status_of s c = IHK_SMP_CPU_ONLINE" for c
      using True by (simp add: reservable_def)
    obtain r s2 where loop: "offline_loop L [0..<SMP_MAX_CPUS] s1 = (r, s2)"
      by fastforce
    define Q where "Q = set (taken L False IHK_SMP_CPU_TO_OFFLINE [0..<SMP_MAX_CPUS] s1)"
    have st1: "status_of s1 i = IHK_SMP_CPU_TO_OFFLINE \<longleftrightarrow> i \<in> R" if "i < SMP_MAX_CPUS" for i
      using that stable [OF that] by (simp add: s1 to_offline_def)
    from offline_loop_eq [OF distinct_upt refl loop] have
      s2: "r = (if \<forall>j \<in> R. sysfs_ok L j False then 0 else - 1)"
        "ihk_smp_cpus s2 = (\<lambda>j. if j \<in> Q then offlined L j (ihk_smp_cpus s1 j) else ihk_smp_cpus s1 j)"
        "cpu_online s2 = (\<lambda>j. if j \<in> Q then False else cpu_online s j)"
      using st1 R by (auto simp: Q_def s1(2))
    have Q: "c \<in> Q \<Longrightarrow> c \<in> R" for c
      using st1 by (auto simp: Q_def dest!: taken_subset)
    show ?thesis
    proof (cases "\<forall>c \<in> R. sysfs_ok L c False")
      case ok: True
      let ?s3 = "change_status IHK_SMP_CPU_OFFLINED IHK_SMP_CPU_AVAILABLE s2"
      have "Q = R"
        unfolding Q_def using ok st1 R by (subst taken_all) auto
      then have "settled (ihk_smp_cpus ?s3 i) (cpu_online ?s3 i) \<and>
          (status_of s i = IHK_SMP_CPU_ASSIGNED \<longrightarrow> c_hw_id (ihk_smp_cpus ?s3 i) = c_hw_id (ihk_smp_cpus s i)) \<and>
          place_cpu ?s3 i = (if i \<in> R then Pool else place_cpu s i)" if "i < SMP_MAX_CPUS" for i
        using that stable [OF that] cpu_wfD [OF wf that] onl [of i]
        by (cases "i \<in> R") (simp_all add: change_status_cpus s2 s1 settled_def to_offline_def offlined_def place_cpu_def)
      moreover have "smp_ihk_reserve_cpu L arg s = Some (0, ?s3)"
        unfolding unf col if_P [OF True] using ok by (simp add: loop s2(1))
      ultimately show ?thesis
        using ok True by (intro exI [of _ 0] exI [of _ ?s3]) (simp add: cpu_wf_def)
    next
      case fail: False
      let ?s3 = "change_status IHK_SMP_CPU_TO_OFFLINE IHK_SMP_CPU_ONLINE (reonline L s2)"
      have "settled (ihk_smp_cpus ?s3 i) (cpu_online ?s3 i) \<and>
          (status_of s i = IHK_SMP_CPU_ASSIGNED \<longrightarrow> c_hw_id (ihk_smp_cpus ?s3 i) = c_hw_id (ihk_smp_cpus s i)) \<and> place_cpu ?s3 i = place_cpu s i" if "i < SMP_MAX_CPUS" for i
        using that stable [OF that] cpu_wfD [OF wf that] Q [of i] onl [of i]
        by (cases "i \<in> R"; cases "i \<in> Q")
          (simp_all add: change_status_cpus reonline_cpus s2 s1 settled_def to_offline_def offlined_def place_cpu_def)
      moreover have "smp_ihk_reserve_cpu L arg s = Some (- 1, ?s3)"
        unfolding unf col if_P [OF True] using fail by (simp add: loop s2(1))
      ultimately show ?thesis
        using fail by (intro exI [of _ "- 1"] exI [of _ ?s3]) (auto simp: cpu_wf_def)
    qed
  qed
  then show ?thesis
    unfolding R_def .
qed

text \<open>Giving back to Linux can stop half way; what was given back until then stays with Linux.\<close>

lemma release_cpu_cases:
  assumes wf: "cpu_wf s" and nr: "nr_cpu_ids L \<le> SMP_MAX_CPUS" and req: "get_cpu_req L arg = Inr cpus"
    and rng: "\<forall>c \<in> set cpus. 0 \<le> c \<and> c < int (nr_cpu_ids L)"
  shows "\<exists>r s'. smp_ihk_release_cpu L arg s = Some (r, s') \<and> cpu_wf s' \<and>
    (\<forall>i < SMP_MAX_CPUS. status_of s i = IHK_SMP_CPU_ASSIGNED \<longrightarrow> c_hw_id (ihk_smp_cpus s' i) = c_hw_id (ihk_smp_cpus s i)) \<and>
    (if \<forall>c \<in> requested cpus. releasable L s c \<and> sysfs_ok L c True
     then r = 0 \<and> (\<forall>i < SMP_MAX_CPUS. place_cpu s' i = (if i \<in> requested cpus then Outside else place_cpu s i))
     else r < 0 \<and> (\<forall>i < SMP_MAX_CPUS. place_cpu s' i = place_cpu s i \<or>
       (i \<in> requested cpus \<and> place_cpu s i = Pool \<and> place_cpu s' i = Outside)))"
proof -
  define cs R where "cs = for_each_cpu L (nat ` set cpus)" and "R = requested cpus"
  define s1 where "s1 = upd_cpus (set (takeWhile (releasable L s) cs)) (to_online L) s"
  have cs: "set cs = R" "distinct cs" "\<forall>c \<in> set cs. c < SMP_MAX_CPUS"
    using requested_mask [OF rng] requested_lt [OF rng nr] by (auto simp: cs_def R_def)
  then have R: "c \<in> R \<Longrightarrow> c < SMP_MAX_CPUS" for c by auto
  have P: "c \<in> set (takeWhile (releasable L s) cs) \<Longrightarrow> c \<in> R \<and> releasable L s c" for c
    using cs by (auto dest: set_takeWhileD)
  have unf: "smp_ihk_release_cpu L arg s = do {
      (ret, s) \<leftarrow> collect_online L cs s;
      if ret \<noteq> 0 then Some (ret, change_status IHK_SMP_CPU_TO_ONLINE IHK_SMP_CPU_AVAILABLE s)
      else case online_loop L [0..<SMP_MAX_CPUS] s of (ret, s) \<Rightarrow>
        if ret \<noteq> 0 then Some (ret, change_status IHK_SMP_CPU_TO_ONLINE IHK_SMP_CPU_AVAILABLE s)
        else Some (0, s)
    }"
    using rng by (simp add: smp_ihk_release_cpu_def req build_mask_eq cs_def)
  have col: "collect_online L cs s = Some (if \<forall>c \<in> R. releasable L s c then 0 else err EINVAL, s1)"
    using collect_online_eq [OF cs(2,3), of L s] by (simp add: s1_def cs(1))
  note stable = settled_stable [OF wf]
  have "\<exists>r s'. smp_ihk_release_cpu L arg s = Some (r, s') \<and> cpu_wf s' \<and>
    (\<forall>i < SMP_MAX_CPUS. status_of s i = IHK_SMP_CPU_ASSIGNED \<longrightarrow> c_hw_id (ihk_smp_cpus s' i) = c_hw_id (ihk_smp_cpus s i)) \<and>
    (if \<forall>c \<in> R. releasable L s c \<and> sysfs_ok L c True
     then r = 0 \<and> (\<forall>i < SMP_MAX_CPUS. place_cpu s' i = (if i \<in> R then Outside else place_cpu s i))
     else r < 0 \<and> (\<forall>i < SMP_MAX_CPUS. place_cpu s' i = place_cpu s i \<or>
       (i \<in> R \<and> place_cpu s i = Pool \<and> place_cpu s' i = Outside)))"
  proof (cases "\<forall>c \<in> R. releasable L s c")
    case False
    let ?s2 = "change_status IHK_SMP_CPU_TO_ONLINE IHK_SMP_CPU_AVAILABLE s1"
    have "settled (ihk_smp_cpus ?s2 i) (cpu_online ?s2 i) \<and>
          (status_of s i = IHK_SMP_CPU_ASSIGNED \<longrightarrow> c_hw_id (ihk_smp_cpus ?s2 i) = c_hw_id (ihk_smp_cpus s i)) \<and> place_cpu ?s2 i = place_cpu s i" if "i < SMP_MAX_CPUS" for i
      using that stable [OF that] cpu_wfD [OF wf that] P [of i]
      by (auto simp: change_status_cpus settled_def to_online_def place_cpu_def releasable_def s1_def)
    moreover have "smp_ihk_release_cpu L arg s = Some (err EINVAL, ?s2)"
      unfolding unf col if_not_P [OF False] by simp
    ultimately show ?thesis
      using False by (intro exI [of _ "err EINVAL"] exI [of _ ?s2]) (auto simp: cpu_wf_def)
  next
    case True
    then have tw: "takeWhile (releasable L s) cs = cs"
      using cs(1) by simp
    have s1: "ihk_smp_cpus s1 = (\<lambda>j. if j \<in> R then to_online L j (ihk_smp_cpus s j) else ihk_smp_cpus s j)"
      "cpu_online s1 = cpu_online s"
      unfolding s1_def tw cs(1) by simp_all
    have av: "c \<in> R \<Longrightarrow> status_of s c = IHK_SMP_CPU_AVAILABLE \<and> \<not> cpu_online s c" for c
      using True by (simp add: releasable_def)
    obtain r s2 where loop: "online_loop L [0..<SMP_MAX_CPUS] s1 = (r, s2)"
      by fastforce
    define Q where "Q = set (taken L True IHK_SMP_CPU_TO_ONLINE [0..<SMP_MAX_CPUS] s1)"
    have st1: "status_of s1 i = IHK_SMP_CPU_TO_ONLINE \<longleftrightarrow> i \<in> R" if "i < SMP_MAX_CPUS" for i
      using that stable [OF that] by (simp add: s1 to_online_def)
    from online_loop_eq [OF distinct_upt refl loop] have
      s2: "r = (if \<forall>j \<in> R. sysfs_ok L j True then 0 else - 1)"
        "ihk_smp_cpus s2 = (\<lambda>j. if j \<in> Q then onlined (ihk_smp_cpus s1 j) else ihk_smp_cpus s1 j)"
        "cpu_online s2 = (\<lambda>j. if j \<in> Q then True else cpu_online s j)"
      using st1 R by (auto simp: Q_def s1(2))
    have Q: "c \<in> Q \<Longrightarrow> c \<in> R" for c
      using st1 by (auto simp: Q_def dest!: taken_subset)
    show ?thesis
    proof (cases "\<forall>c \<in> R. sysfs_ok L c True")
      case ok: True
      have "Q = R"
        unfolding Q_def using ok st1 R by (subst taken_all) auto
      then have "settled (ihk_smp_cpus s2 i) (cpu_online s2 i) \<and>
          (status_of s i = IHK_SMP_CPU_ASSIGNED \<longrightarrow> c_hw_id (ihk_smp_cpus s2 i) = c_hw_id (ihk_smp_cpus s i)) \<and>
          place_cpu s2 i = (if i \<in> R then Outside else place_cpu s i)" if "i < SMP_MAX_CPUS" for i
        using that cpu_wfD [OF wf that] av [of i]
        by (cases "i \<in> R") (simp_all add: s2 s1 settled_def to_online_def onlined_def place_cpu_def)
      moreover have "smp_ihk_release_cpu L arg s = Some (0, s2)"
        unfolding unf col if_P [OF True] using ok by (simp add: loop s2(1))
      ultimately show ?thesis
        using ok True by (intro exI [of _ 0] exI [of _ s2]) (simp add: cpu_wf_def)
    next
      case fail: False
      let ?s3 = "change_status IHK_SMP_CPU_TO_ONLINE IHK_SMP_CPU_AVAILABLE s2"
      have "settled (ihk_smp_cpus ?s3 i) (cpu_online ?s3 i) \<and>
          (status_of s i = IHK_SMP_CPU_ASSIGNED \<longrightarrow> c_hw_id (ihk_smp_cpus ?s3 i) = c_hw_id (ihk_smp_cpus s i)) \<and> (place_cpu ?s3 i = place_cpu s i \<or>
          (i \<in> R \<and> place_cpu s i = Pool \<and> place_cpu ?s3 i = Outside))" if "i < SMP_MAX_CPUS" for i
        using that stable [OF that] cpu_wfD [OF wf that] Q [of i] av [of i]
        by (cases "i \<in> R"; cases "i \<in> Q")
          (simp_all add: change_status_cpus s2 s1 settled_def to_online_def onlined_def place_cpu_def)
      moreover have "smp_ihk_release_cpu L arg s = Some (- 1, ?s3)"
        unfolding unf col if_P [OF True] using fail by (simp add: loop s2(1))
      ultimately show ?thesis
        using fail by (intro exI [of _ "- 1"] exI [of _ ?s3]) (auto simp: cpu_wf_def)
    qed
  qed
  then show ?thesis
    unfolding R_def .
qed

text \<open>Requests that stop before the table is touched.\<close>

lemma request_refused:
  assumes "get_cpu_req L arg = Inl r \<or> (get_cpu_req L arg = Inr cpus \<and> build_mask (nr_cpu_ids L) cpus {} = None)"
  shows "\<exists>r. smp_ihk_reserve_cpu L arg s = Some (r, s)" "\<exists>r. smp_ihk_release_cpu L arg s = Some (r, s)"
    "\<exists>r. smp_ihk_os_assign_cpu L h arg st = Some (r, st)" "\<exists>r. smp_ihk_os_release_cpu L h arg st = Some (r, st)"
  using assms
  by (auto simp: smp_ihk_reserve_cpu_def smp_ihk_release_cpu_def smp_ihk_os_assign_cpu_def smp_ihk_os_release_cpu_def)

section \<open>The CPUs of an instance, in the order they were assigned\<close>

definition lwk_cpus :: "'b smp_os_data_scheme \<Rightarrow> nat list" where
  "lwk_cpus d = map (os_cpu_mapping d) [0..<os_nr_cpus d]"

definition lwk_hw_ids :: "'b smp_os_data_scheme \<Rightarrow> int list" where
  "lwk_hw_ids d = map (os_cpu_hw_ids d) [0..<os_nr_cpus d]"

definition assigned :: "ihk_os \<Rightarrow> ihk_smp_cpu \<Rightarrow> ihk_smp_cpu" where
  "assigned h c = c\<lparr>c_status := IHK_SMP_CPU_ASSIGNED, c_os := Some h, c_ikc_map_cpu := 0\<rparr>"

lemma assign_cpus_spec:
  assumes "\<forall>c \<in> set cs. c < SMP_MAX_CPUS" and "os_nr_cpus d + length cs \<le> SMP_MAX_CPUS"
  shows "\<exists>s' d'. assign_cpus L h cs (s, d) = Some (s', d') \<and>
    ihk_smp_cpus s' = (\<lambda>j. if j \<in> set cs then assigned h (ihk_smp_cpus s j) else ihk_smp_cpus s j) \<and>
    cpu_online s' = cpu_online s \<and> smp.more s' = smp.more s \<and>
    os_status d' = os_status d \<and> lwk_cpus d' = lwk_cpus d @ cs \<and>
    lwk_hw_ids d' = lwk_hw_ids d @ map (\<lambda>c. c_hw_id (ihk_smp_cpus s c)) cs"
  using assms
proof (induction cs arbitrary: s d)
  case (Cons c cs)
  let ?s = "set_cpu c (assigned h) s" and ?hw = "c_hw_id (ihk_smp_cpus s c)"
  let ?d = "d\<lparr>os_cpu_hw_ids_map := insert ?hw (os_cpu_hw_ids_map d), os_numa_mask := insert (cpu_to_node L c) (os_numa_mask d),
    os_cpu_hw_ids := (os_cpu_hw_ids d)(os_nr_cpus d := ?hw), os_cpu_mapping := (os_cpu_mapping d)(os_nr_cpus d := c),
    os_nr_cpus := os_nr_cpus d + 1\<rparr>"
  have step: "assign_cpus L h (c # cs) (s, d) = assign_cpus L h cs (?s, ?d)"
    using Cons.prems by (simp add: Let_def assigned_def [abs_def])
  have lwk: "lwk_cpus ?d = lwk_cpus d @ [c]" "lwk_hw_ids ?d = lwk_hw_ids d @ [?hw]"
    by (auto simp: lwk_cpus_def lwk_hw_ids_def)
  have hw: "c_hw_id (ihk_smp_cpus ?s j) = c_hw_id (ihk_smp_cpus s j)" for j
    by (simp add: assigned_def)
  have idem: "assigned h (assigned h x) = assigned h x" for x
    by (simp add: assigned_def)
  from Cons.IH [of ?d ?s] Cons.prems obtain s' d' where
    IH: "assign_cpus L h cs (?s, ?d) = Some (s', d')"
      "ihk_smp_cpus s' = (\<lambda>j. if j \<in> set cs then assigned h (ihk_smp_cpus ?s j) else ihk_smp_cpus ?s j)"
      "cpu_online s' = cpu_online ?s" "smp.more s' = smp.more ?s" "os_status d' = os_status ?d"
      "lwk_cpus d' = lwk_cpus ?d @ cs" "lwk_hw_ids d' = lwk_hw_ids ?d @ map (\<lambda>c. c_hw_id (ihk_smp_cpus ?s c)) cs"
    by auto
  show ?case
    unfolding step IH(1) using IH(2-7) unfolding lwk hw by (intro exI [of _ s'] exI [of _ d']) (auto simp: idem fun_eq_iff)
qed (simp add: lwk_cpus_def)

lemma assign_cpus_overflow:
  assumes "\<forall>c \<in> set cs. c < SMP_MAX_CPUS" and "os_nr_cpus d \<le> SMP_MAX_CPUS"
    and "SMP_MAX_CPUS < os_nr_cpus d + length cs"
  shows "assign_cpus L h cs (s, d) = None"
  using assms by (induction cs arbitrary: s d) (auto simp: Let_def)

lemma check_cpus_eq:
  "\<forall>c \<in> set cs. c < SMP_MAX_CPUS \<Longrightarrow> check_cpus P cs s = Some (\<forall>c \<in> set cs. P (ihk_smp_cpus s c))"
  by (induction cs) auto

lemma shift_down_simps:
  "os_nr_cpus (shift_down i k d) = os_nr_cpus d" "os_status (shift_down i k d) = os_status d"
  "os_cpu_hw_ids_map (shift_down i k d) = os_cpu_hw_ids_map d"
  by (induction k arbitrary: i d) simp_all

lemma shift_down_arrays:
  assumes "0 < i"
  shows "os_cpu_mapping (shift_down i k d) j = (if i - 1 \<le> j \<and> j < i - 1 + k then os_cpu_mapping d (j + 1) else os_cpu_mapping d j)"
    "os_cpu_hw_ids (shift_down i k d) j = (if i - 1 \<le> j \<and> j < i - 1 + k then os_cpu_hw_ids d (j + 1) else os_cpu_hw_ids d j)"
  using assms by (induction k arbitrary: i d) auto

lemma drop_mapping_simps [simp]: "os_status (drop_mapping k i cpu d) = os_status d"
  by (induction k arbitrary: i d) (auto simp: shift_down_simps)

lemma map_upt_shift: "map g [Suc i..<n] = map (\<lambda>j. g (Suc j)) [i..<n - 1]"
  by (intro nth_equalityI) auto

text \<open>Releasing a CPU takes its first entry out of the arrays and keeps the order of the others.\<close>

lemma drop_mapping_arrays:
  assumes "i + k = os_nr_cpus d" and "\<forall>j. i \<le> j \<and> j < os_nr_cpus d \<longrightarrow> os_cpu_hw_ids d j = f (os_cpu_mapping d j)"
    and "d' = drop_mapping k i cpu d"
  shows "map (os_cpu_mapping d') [i..<os_nr_cpus d'] = remove1 cpu (map (os_cpu_mapping d) [i..<os_nr_cpus d]) \<and>
    map (os_cpu_hw_ids d') [i..<os_nr_cpus d'] = map f (remove1 cpu (map (os_cpu_mapping d) [i..<os_nr_cpus d])) \<and>
    (\<forall>j < i. os_cpu_mapping d' j = os_cpu_mapping d j \<and> os_cpu_hw_ids d' j = os_cpu_hw_ids d j) \<and>
    i \<le> os_nr_cpus d' \<and> os_nr_cpus d' \<le> os_nr_cpus d"
  using assms
proof (induction k arbitrary: i)
  case 0
  then show ?case by simp
next
  case (Suc k)
  have upt: "[i..<os_nr_cpus d] = i # [Suc i..<os_nr_cpus d]"
    using Suc.prems(1) by (simp add: upt_conv_Cons)
  show ?case
  proof (cases "os_cpu_mapping d i = cpu")
    case True
    then have d': "d' = (shift_down (i + 1) k d)\<lparr>os_nr_cpus := os_nr_cpus d - 1\<rparr>"
      using Suc.prems(3) by simp
    have "map (os_cpu_mapping d') [i..<os_nr_cpus d'] = map (os_cpu_mapping d) [Suc i..<os_nr_cpus d]"
      "map (os_cpu_hw_ids d') [i..<os_nr_cpus d'] = map (os_cpu_hw_ids d) [Suc i..<os_nr_cpus d]"
      unfolding map_upt_shift using Suc.prems(1) by (auto simp: d' shift_down_arrays)
    moreover have "map (os_cpu_hw_ids d) [Suc i..<os_nr_cpus d] = map f (map (os_cpu_mapping d) [Suc i..<os_nr_cpus d])"
      using Suc.prems(2) by simp
    moreover have "\<forall>j < i. os_cpu_mapping d' j = os_cpu_mapping d j \<and> os_cpu_hw_ids d' j = os_cpu_hw_ids d j"
      "i \<le> os_nr_cpus d'" "os_nr_cpus d' \<le> os_nr_cpus d"
      using Suc.prems(1) by (auto simp: d' shift_down_arrays)
    ultimately show ?thesis
      unfolding upt using True by simp
  next
    case False
    then have "d' = drop_mapping k (Suc i) cpu d"
      using Suc.prems(3) by simp
    from Suc.IH [OF _ _ this] Suc.prems(1,2) have IH:
      "map (os_cpu_mapping d') [Suc i..<os_nr_cpus d'] = remove1 cpu (map (os_cpu_mapping d) [Suc i..<os_nr_cpus d])"
      "map (os_cpu_hw_ids d') [Suc i..<os_nr_cpus d'] = map f (remove1 cpu (map (os_cpu_mapping d) [Suc i..<os_nr_cpus d]))"
      "\<forall>j < Suc i. os_cpu_mapping d' j = os_cpu_mapping d j \<and> os_cpu_hw_ids d' j = os_cpu_hw_ids d j"
      "Suc i \<le> os_nr_cpus d'" "os_nr_cpus d' \<le> os_nr_cpus d"
      by auto
    have "[i..<os_nr_cpus d'] = i # [Suc i..<os_nr_cpus d']"
      using IH(4) by (simp add: upt_conv_Cons)
    with IH False Suc.prems(1,2) show ?thesis
      unfolding upt by auto
  qed
qed

lemma lwk_hw_ids_eq:
  "lwk_hw_ids d = map f (lwk_cpus d) \<longleftrightarrow> (\<forall>j < os_nr_cpus d. os_cpu_hw_ids d j = f (os_cpu_mapping d j))"
  by (auto simp: lwk_hw_ids_def lwk_cpus_def)

lemma drop_mapping_lwk:
  assumes "lwk_hw_ids d = map f (lwk_cpus d)" and "d' = drop_mapping (os_nr_cpus d) 0 cpu d"
  shows "lwk_cpus d' = remove1 cpu (lwk_cpus d)" "lwk_hw_ids d' = map f (lwk_cpus d')" "os_nr_cpus d' \<le> os_nr_cpus d"
proof -
  have "\<forall>j. 0 \<le> j \<and> j < os_nr_cpus d \<longrightarrow> os_cpu_hw_ids d j = f (os_cpu_mapping d j)"
    using assms(1) by (simp add: lwk_hw_ids_eq)
  note arr = drop_mapping_arrays [OF add_0 this assms(2)]
  then show "lwk_cpus d' = remove1 cpu (lwk_cpus d)" "os_nr_cpus d' \<le> os_nr_cpus d"
    by (simp_all add: lwk_cpus_def)
  with arr show "lwk_hw_ids d' = map f (lwk_cpus d')"
    by (simp add: lwk_cpus_def lwk_hw_ids_def)
qed

section \<open>Instances and the table agree\<close>

text \<open>
  The instance's own list names exactly the CPUs the table gives to it, each once, with
  their hardware ids.
\<close>

definition agrees :: "ihk_os \<Rightarrow> 'a smp_scheme \<Rightarrow> 'b smp_os_data_scheme \<Rightarrow> bool" where
  "agrees h s d \<longleftrightarrow> distinct (lwk_cpus d) \<and> set (lwk_cpus d) = {i. i < SMP_MAX_CPUS \<and> place_cpu s i = Os h} \<and>
     lwk_hw_ids d = map (\<lambda>c. c_hw_id (ihk_smp_cpus s c)) (lwk_cpus d)"

lemma length_lwk_cpus [simp]: "length (lwk_cpus d) = os_nr_cpus d"
  by (simp add: lwk_cpus_def)

lemma agrees_room:
  assumes "agrees h s d" and "distinct cs" and "\<forall>c \<in> set cs. c < SMP_MAX_CPUS \<and> place_cpu s c = Pool"
  shows "os_nr_cpus d + length cs \<le> SMP_MAX_CPUS"
proof -
  have dj: "distinct (lwk_cpus d @ cs)"
    using assms by (auto simp: agrees_def)
  have "set (lwk_cpus d @ cs) \<subseteq> {0..<SMP_MAX_CPUS}"
    using assms by (auto simp: agrees_def)
  then have "card (set (lwk_cpus d @ cs)) \<le> SMP_MAX_CPUS"
    by (metis card_atLeastLessThan card_mono diff_zero finite_atLeastLessThan)
  then show ?thesis
    unfolding distinct_card [OF dj] by simp
qed

lemma os_assign_cpu_cases:
  assumes wf: "cpu_wf s" and nr: "nr_cpu_ids L \<le> SMP_MAX_CPUS" and req: "get_cpu_req L arg = Inr cpus"
    and rng: "\<forall>c \<in> set cpus. 0 \<le> c \<and> c < int (nr_cpu_ids L)" and ini: "os_status d = BUILTIN_OS_STATUS_INITIAL"
  shows "smp_ihk_os_assign_cpu L h arg (s, d) =
    (if \<forall>c \<in> requested cpus. place_cpu s c = Pool
     then map_option (Pair 0) (assign_cpus L h (map nat cpus) (s, d)) else Some (err EINVAL, s, d))"
proof -
  let ?cs = "for_each_cpu L (nat ` set cpus)"
  have cs: "set ?cs = requested cpus" "\<forall>c \<in> set ?cs. c < SMP_MAX_CPUS"
    using requested_mask [OF rng] requested_lt [OF rng nr] by auto
  have "build_mask (nr_cpu_ids L) cpus {} = Some (nat ` set cpus)"
    using rng by (simp add: build_mask_eq)
  moreover have "check_cpus (\<lambda>c. c_status c = IHK_SMP_CPU_AVAILABLE) ?cs s = Some (\<forall>c \<in> requested cpus. place_cpu s c = Pool)"
    unfolding check_cpus_eq [OF cs(2)] cs(1) by (auto simp: place_cpu_def)
  ultimately show ?thesis
    unfolding smp_ihk_os_assign_cpu_def req using ini
    by (cases "assign_cpus L h (map nat cpus) (s, d)") (simp_all only: sum.case option.case fst_conv snd_conv bind.simps, auto)
qed

definition released :: "ihk_smp_cpu \<Rightarrow> ihk_smp_cpu" where
  "released c = c\<lparr>c_status := IHK_SMP_CPU_AVAILABLE, c_os := None\<rparr>"

lemma fold_release_one:
  assumes "distinct cs" and "fold release_one cs (s, d) = (s', d')"
  shows "ihk_smp_cpus s' = (\<lambda>j. if j \<in> set cs then released (ihk_smp_cpus s j) else ihk_smp_cpus s j) \<and>
    cpu_online s' = cpu_online s \<and> resets s' = rev (map (\<lambda>c. c_hw_id (ihk_smp_cpus s c)) cs) @ resets s \<and>
    smp.more s' = smp.more s \<and> os_status d' = os_status d"
  using assms
proof (induction cs arbitrary: s d)
  case (Cons c cs)
  have "released (released x) = released x" "c_hw_id (released x) = c_hw_id x" for x
    by (simp_all add: released_def)
  with Cons show ?case
    by (auto simp: release_one_def Let_def released_def [abs_def] fun_eq_iff)
qed auto

lemma fold_release_lwk:
  assumes "lwk_hw_ids d = map (\<lambda>c. c_hw_id (ihk_smp_cpus s c)) (lwk_cpus d)" and "fold release_one cs (s, d) = (s', d')"
  shows "lwk_cpus d' = fold remove1 cs (lwk_cpus d)" "lwk_hw_ids d' = map (\<lambda>c. c_hw_id (ihk_smp_cpus s c)) (lwk_cpus d')"
proof -
  have "lwk_cpus d' = fold remove1 cs (lwk_cpus d) \<and> lwk_hw_ids d' = map (\<lambda>c. c_hw_id (ihk_smp_cpus s c)) (lwk_cpus d')"
    using assms
  proof (induction cs arbitrary: s d)
    case (Cons c cs)
    let ?s = "set_cpu c released (ihk_smp_reset_cpu (c_hw_id (ihk_smp_cpus s c)) s)"
    let ?d = "d\<lparr>os_cpu_hw_ids_map := os_cpu_hw_ids_map d - {c_hw_id (ihk_smp_cpus s c)}\<rparr>"
    let ?d' = "drop_mapping (os_nr_cpus ?d) 0 c ?d"
    have step: "release_one c (s, d) = (?s, ?d')"
      by (simp add: release_one_def Let_def released_def [abs_def])
    have same: "lwk_cpus ?d = lwk_cpus d" "lwk_hw_ids ?d = lwk_hw_ids d"
      by (simp_all add: lwk_cpus_def lwk_hw_ids_def)
    have "lwk_hw_ids ?d = map (\<lambda>c. c_hw_id (ihk_smp_cpus s c)) (lwk_cpus ?d)"
      unfolding same by (rule Cons.prems)
    note lwk = drop_mapping_lwk [OF this refl, unfolded same(1)]
    have hw: "c_hw_id (ihk_smp_cpus ?s j) = c_hw_id (ihk_smp_cpus s j)" for j
      by (simp add: released_def)
    have "fold release_one cs (?s, ?d') = (s', d')"
      using Cons.prems(2) by (simp only: fold.simps comp_apply step)
    from Cons.IH [OF _ this, unfolded hw, OF lwk(2)] show ?case
      unfolding lwk(1) by simp
  qed auto
  then show "lwk_cpus d' = fold remove1 cs (lwk_cpus d)" "lwk_hw_ids d' = map (\<lambda>c. c_hw_id (ihk_smp_cpus s c)) (lwk_cpus d')"
    by simp_all
qed

lemma fold_remove1_distinct: "distinct xs \<Longrightarrow> fold remove1 cs xs = filter (\<lambda>c. c \<notin> set cs) xs"
  by (induction cs arbitrary: xs) (auto simp: distinct_remove1_removeAll removeAll_filter_not_eq intro!: filter_cong)

lemma os_release_cpu_cases:
  assumes nr: "nr_cpu_ids L \<le> SMP_MAX_CPUS" and req: "get_cpu_req L arg = Inr cpus" and wf: "cpu_wf s"
    and rng: "\<forall>c \<in> set cpus. 0 \<le> c \<and> c < int (nr_cpu_ids L)" and ini: "os_status d = BUILTIN_OS_STATUS_INITIAL"
  shows "\<exists>cs. distinct cs \<and> set cs = requested cpus \<and> (\<forall>c \<in> set cs. c < SMP_MAX_CPUS) \<and>
    smp_ihk_os_release_cpu L h arg (s, d) =
     (if \<forall>c \<in> requested cpus. place_cpu s c = Os h
      then Some (0, fold release_one cs (s, d)) else Some (err EINVAL, s, d))"
proof -
  let ?cs = "for_each_cpu L (nat ` set cpus)"
  have cs: "set ?cs = requested cpus" "\<forall>c \<in> set ?cs. c < SMP_MAX_CPUS"
    using requested_mask [OF rng] requested_lt [OF rng nr] by auto
  have owned: "c_status (ihk_smp_cpus s c) = IHK_SMP_CPU_ASSIGNED \<and> c_os (ihk_smp_cpus s c) = Some h \<longleftrightarrow> place_cpu s c = Os h"
    if "c \<in> requested cpus" for c
    using cpu_wfD [OF wf requested_lt [OF rng nr that]] by (auto simp: place_cpu_def settled_def)
  have "build_mask (nr_cpu_ids L) cpus {} = Some (nat ` set cpus)"
    using rng by (simp add: build_mask_eq)
  moreover have "check_cpus (\<lambda>c. c_status c = IHK_SMP_CPU_ASSIGNED \<and> c_os c = Some h) ?cs s =
      Some (\<forall>c \<in> requested cpus. place_cpu s c = Os h)"
    unfolding check_cpus_eq [OF cs(2)] cs(1) using owned by (simp cong: ball_cong)
  ultimately have "smp_ihk_os_release_cpu L h arg (s, d) =
     (if \<forall>c \<in> requested cpus. place_cpu s c = Os h
      then Some (0, fold release_one ?cs (s, d)) else Some (err EINVAL, s, d))"
    unfolding smp_ihk_os_release_cpu_def req using ini
    by (simp_all only: sum.case option.case fst_conv snd_conv bind.simps) simp
  with cs show ?thesis
    by (intro exI [of _ ?cs]) simp
qed

lemma reset_os_cpus_spec:
  assumes "reset_os_cpus h (s, d) = (s', d')"
  shows "ihk_smp_cpus s' = (\<lambda>j. if j < SMP_MAX_CPUS \<and> os_of s j = Some h then released (ihk_smp_cpus s j) else ihk_smp_cpus s j)"
    "cpu_online s' = cpu_online s" "smp.more s' = smp.more s" "d' = d\<lparr>os_nr_cpus := 0\<rparr>"
proof -
  let ?f = "\<lambda>i s. if os_of s i \<noteq> Some h then s
     else set_cpu i (\<lambda>c. c\<lparr>c_status := IHK_SMP_CPU_AVAILABLE, c_os := None\<rparr>)
            (ihk_smp_reset_cpu (c_hw_id (ihk_smp_cpus s i)) s)"
  have "distinct is \<Longrightarrow>
      ihk_smp_cpus (fold ?f is s) j =
        (if j \<in> set is \<and> os_of s j = Some h then released (ihk_smp_cpus s j) else ihk_smp_cpus s j) \<and>
      cpu_online (fold ?f is s) = cpu_online s \<and> smp.more (fold ?f is s) = smp.more s" for "is" j
    by (induction "is" arbitrary: s) (auto simp: released_def)
  from this [of "[0..<SMP_MAX_CPUS]"] assms show
    "ihk_smp_cpus s' = (\<lambda>j. if j < SMP_MAX_CPUS \<and> os_of s j = Some h then released (ihk_smp_cpus s j) else ihk_smp_cpus s j)"
    "cpu_online s' = cpu_online s" "smp.more s' = smp.more s" "d' = d\<lparr>os_nr_cpus := 0\<rparr>"
    by (auto simp: reset_os_cpus_def fun_eq_iff)
qed

lemma default_map_cpus:
  "ihk_smp_cpus (default_map h s) =
     (\<lambda>j. if j < SMP_MAX_CPUS \<and> status_of s j = IHK_SMP_CPU_ASSIGNED \<and> os_of s j = Some h
          then (ihk_smp_cpus s j)\<lparr>c_ikc_map_cpu := 0\<rparr> else ihk_smp_cpus s j)"
  "cpu_online (default_map h s) = cpu_online s"
proof -
  let ?f = "\<lambda>i s. if status_of s i \<noteq> IHK_SMP_CPU_ASSIGNED \<or> os_of s i \<noteq> Some h then s
     else set_cpu i (c_ikc_map_cpu_update (\<lambda>_. 0)) s"
  have "distinct is \<Longrightarrow>
      ihk_smp_cpus (fold ?f is s) j =
        (if j \<in> set is \<and> status_of s j = IHK_SMP_CPU_ASSIGNED \<and> os_of s j = Some h
         then (ihk_smp_cpus s j)\<lparr>c_ikc_map_cpu := 0\<rparr> else ihk_smp_cpus s j) \<and>
      cpu_online (fold ?f is s) = cpu_online s" for "is" j
    by (induction "is" arbitrary: s) auto
  from this [of "[0..<SMP_MAX_CPUS]"] show
    "ihk_smp_cpus (default_map h s) =
       (\<lambda>j. if j < SMP_MAX_CPUS \<and> status_of s j = IHK_SMP_CPU_ASSIGNED \<and> os_of s j = Some h
            then (ihk_smp_cpus s j)\<lparr>c_ikc_map_cpu := 0\<rparr> else ihk_smp_cpus s j)"
    "cpu_online (default_map h s) = cpu_online s"
    by (auto simp: default_map_def fun_eq_iff)
qed

text \<open>Setting the interrupt routing touches nothing but the routing.\<close>

lemma set_map_loop_keeps:
  assumes "set_map_loop L ps s = (r, s')"
  shows "status_of s' i = status_of s i \<and> os_of s' i = os_of s i \<and> c_hw_id (ihk_smp_cpus s' i) = c_hw_id (ihk_smp_cpus s i) \<and>
    cpu_online s' = cpu_online s"
  using assms
  by (induction L ps s rule: set_map_loop.induct) (fastforce split: if_splits)+

lemma set_ikc_map_keeps:
  assumes "smp_ihk_os_set_ikc_map check L h arg (s, d) = (r, s', d')"
  shows "status_of s' i = status_of s i \<and> os_of s' i = os_of s i \<and> c_hw_id (ihk_smp_cpus s' i) = c_hw_id (ihk_smp_cpus s i) \<and>
    cpu_online s' = cpu_online s \<and> lwk_cpus d' = lwk_cpus d \<and> lwk_hw_ids d' = lwk_hw_ids d"
proof -
  obtain r1 s1 d1 where body: "set_ikc_map_body check L arg (s, d) = (r1, s1, d1)"
    by (metis prod_cases3)
  then have "status_of s1 i = status_of s i \<and> os_of s1 i = os_of s i \<and> c_hw_id (ihk_smp_cpus s1 i) = c_hw_id (ihk_smp_cpus s i) \<and>
      cpu_online s1 = cpu_online s \<and> lwk_cpus d1 = lwk_cpus d \<and> lwk_hw_ids d1 = lwk_hw_ids d"
    by (auto simp: set_ikc_map_body_def Let_def lwk_cpus_def lwk_hw_ids_def
        split: option.splits if_splits prod.splits dest!: set_map_loop_keeps [where i = i])
  with assms body show ?thesis
    by (auto simp: smp_ihk_os_set_ikc_map_def default_map_cpus split: if_splits)
qed

section \<open>Sequences of CPU operations\<close>

text \<open>The table after the driver is loaded, and the data of a new instance.\<close>

definition smp_ihk_init_cpus :: "(nat \<Rightarrow> bool) \<Rightarrow> smp" where
  "smp_ihk_init_cpus online =
     \<lparr>ihk_smp_cpus = (\<lambda>cpu. \<lparr>c_id = 0, c_hw_id = 0, c_status = (if online cpu then IHK_SMP_CPU_ONLINE else IHK_SMP_CPU_NONE),
        c_os = None, c_ikc_map_cpu = 0\<rparr>),
      cpu_online = online, resets = []\<rparr>"

definition new_os_data :: smp_os_data where
  "new_os_data = \<lparr>os_status = BUILTIN_OS_STATUS_INITIAL, os_cpu_hw_ids_map = {}, os_numa_mask = {},
     os_cpu_hw_ids = (\<lambda>_. 0), os_cpu_mapping = (\<lambda>_. 0), os_nr_cpus = 0, os_cpu_ikc_mapped = False,
     os_mem_start = 0, os_mem_end = 0\<rparr>"

type_synonym cpu_state = "smp \<times> (ihk_os \<Rightarrow> smp_os_data)"

definition nodup_req :: "lnx \<Rightarrow> ihk_cpu_req option \<Rightarrow> bool" where
  "nodup_req L arg \<longleftrightarrow> (case get_cpu_req L arg of Inl _ \<Rightarrow> True | Inr cpus \<Rightarrow> distinct cpus)"

text \<open>
  One operation, on a machine whose CPU numbers fit the table. With \<open>nodup\<close> no assignment names a CPU
  twice.
\<close>

inductive cpu_step :: "bool \<Rightarrow> actor \<Rightarrow> cpu_state \<Rightarrow> cpu_state \<Rightarrow> bool" for nodup where
  reserve: "nr_cpu_ids L \<le> SMP_MAX_CPUS \<Longrightarrow> smp_ihk_reserve_cpu L arg s = Some (r, s') \<Longrightarrow>
    cpu_step nodup Host (s, D) (s', D)"
| release: "nr_cpu_ids L \<le> SMP_MAX_CPUS \<Longrightarrow> smp_ihk_release_cpu L arg s = Some (r, s') \<Longrightarrow>
    cpu_step nodup Host (s, D) (s', D)"
| os_assign: "nr_cpu_ids L \<le> SMP_MAX_CPUS \<Longrightarrow> (nodup \<Longrightarrow> nodup_req L arg) \<Longrightarrow>
    smp_ihk_os_assign_cpu L h arg (s, D h) = Some (r, s', d') \<Longrightarrow> cpu_step nodup (Inst h) (s, D) (s', D(h := d'))"
| os_release: "nr_cpu_ids L \<le> SMP_MAX_CPUS \<Longrightarrow>
    smp_ihk_os_release_cpu L h arg (s, D h) = Some (r, s', d') \<Longrightarrow> cpu_step nodup (Inst h) (s, D) (s', D(h := d'))"
| os_set_ikc_map: "smp_ihk_os_set_ikc_map check L h ikc (s, D h) = (r, s', d') \<Longrightarrow>
    cpu_step nodup (Inst h) (s, D) (s', D(h := d'))"
| os_shutdown: "reset_os_cpus h (s, D h) = (s', d') \<Longrightarrow> cpu_step nodup (Inst h) (s, D) (s', D(h := d'))"

definition cpu_place :: "cpu_state \<Rightarrow> nat \<Rightarrow> place" where
  "cpu_place S i = (if i < SMP_MAX_CPUS then place_cpu (fst S) i else Outside)"

text \<open>A request either leaves the state alone or names CPUs in range.\<close>

lemma request_split:
  fixes st :: "'a smp_scheme \<times> 'b smp_os_data_scheme"
  obtains (refused) r1 r2 r3 r4 where "smp_ihk_reserve_cpu L arg s = Some (r1, s)" "smp_ihk_release_cpu L arg s = Some (r2, s)"
      "smp_ihk_os_assign_cpu L h arg st = Some (r3, st)" "smp_ihk_os_release_cpu L h arg st = Some (r4, st)"
    | (cpus) cpus where "get_cpu_req L arg = Inr cpus" "\<forall>c \<in> set cpus. 0 \<le> c \<and> c < int (nr_cpu_ids L)"
proof (cases "\<exists>cpus. get_cpu_req L arg = Inr cpus \<and> (\<forall>c \<in> set cpus. 0 \<le> c \<and> c < int (nr_cpu_ids L))")
  case True
  then show thesis using cpus by blast
next
  case False
  then have "(\<exists>r. get_cpu_req L arg = Inl r) \<or> (\<exists>cpus. get_cpu_req L arg = Inr cpus \<and> build_mask (nr_cpu_ids L) cpus {} = None)"
    by (cases "get_cpu_req L arg") (auto simp: build_mask_eq)
  then obtain r cpus where
    "get_cpu_req L arg = Inl r \<or> (get_cpu_req L arg = Inr cpus \<and> build_mask (nr_cpu_ids L) cpus {} = None)" by blast
  from request_refused [OF this] show thesis using refused by metis
qed

lemma not_initial:
  assumes "os_status d \<noteq> BUILTIN_OS_STATUS_INITIAL"
  shows "smp_ihk_os_assign_cpu L h arg (s, d) = Some (err EBUSY, s, d)"
    "smp_ihk_os_release_cpu L h arg (s, d) = Some (err EBUSY, s, d)"
  using assms by (simp_all add: smp_ihk_os_assign_cpu_def smp_ihk_os_release_cpu_def)

text \<open>Places and well-formedness only depend on some of the fields.\<close>

lemma upd_wf_place:
  assumes "cpu_wf s" and "cpu_online s' = cpu_online s"
    and "ihk_smp_cpus s' = (\<lambda>j. if j \<in> A then f (ihk_smp_cpus s j) else ihk_smp_cpus s j)"
    and "\<And>j. j \<in> A \<Longrightarrow> j < SMP_MAX_CPUS \<Longrightarrow> settled (f (ihk_smp_cpus s j)) (cpu_online s j)"
  shows "cpu_wf s'" "j \<notin> A \<Longrightarrow> place_cpu s' j = place_cpu s j"
  using assms by (auto simp: cpu_wf_def place_cpu_def)

lemma settled_assigned: "settled c onl \<Longrightarrow> c_status c = IHK_SMP_CPU_AVAILABLE \<Longrightarrow> settled (assigned h c) onl"
  by (simp add: settled_def assigned_def)

lemma settled_released: "settled c onl \<Longrightarrow> c_status c = IHK_SMP_CPU_ASSIGNED \<Longrightarrow> settled (released c) onl"
  by (simp add: settled_def released_def)

lemma place_Pool: "place_cpu s i = Pool \<longleftrightarrow> status_of s i = IHK_SMP_CPU_AVAILABLE"
  by (auto simp: place_cpu_def)

lemma place_Os:
  "cpu_wf s \<Longrightarrow> i < SMP_MAX_CPUS \<Longrightarrow> place_cpu s i = Os h \<longleftrightarrow> status_of s i = IHK_SMP_CPU_ASSIGNED \<and> os_of s i = Some h"
  by (drule (1) cpu_wfD) (auto simp: place_cpu_def settled_def)

lemma os_of_place: "cpu_wf s \<Longrightarrow> i < SMP_MAX_CPUS \<Longrightarrow> os_of s i = Some h \<longleftrightarrow> place_cpu s i = Os h"
  by (drule (1) cpu_wfD) (auto simp: place_cpu_def settled_def)

lemma assign_cpus_updates:
  assumes "assign_cpus L h cs (s, d) = Some (s', d')"
  shows "ihk_smp_cpus s' = (\<lambda>j. if j \<in> set cs then assigned h (ihk_smp_cpus s j) else ihk_smp_cpus s j) \<and>
    cpu_online s' = cpu_online s \<and> lwk_cpus d' = lwk_cpus d @ cs \<and>
    lwk_hw_ids d' = lwk_hw_ids d @ map (\<lambda>c. c_hw_id (ihk_smp_cpus s c)) cs"
proof (cases "cs = []")
  case False
  have "(\<forall>c \<in> set cs. c < SMP_MAX_CPUS) \<and> os_nr_cpus d + length cs \<le> SMP_MAX_CPUS"
    using assms False
  proof (induction cs arbitrary: s d)
    case (Cons c cs)
    then show ?case
      by (cases "cs = []") (fastforce simp: Let_def split: if_splits)+
  qed simp
  with assign_cpus_spec [of cs d L h s] assms show ?thesis
    by auto
qed (use assms in simp)

text \<open>The three operations of an instance that move CPUs.\<close>

lemma os_assign_moves:
  assumes "cpu_wf s" and "nr_cpu_ids L \<le> SMP_MAX_CPUS" and "smp_ihk_os_assign_cpu L h arg (s, d) = Some (r, s', d')"
  shows "(s', d') = (s, d) \<or> (\<exists>cpus. get_cpu_req L arg = Inr cpus \<and> (\<forall>c \<in> set cpus. 0 \<le> c) \<and>
    (\<forall>c \<in> requested cpus. c < SMP_MAX_CPUS \<and> place_cpu s c = Pool \<and> place_cpu s' c = Os h) \<and>
    (\<forall>i. i \<notin> requested cpus \<longrightarrow> place_cpu s' i = place_cpu s i) \<and> cpu_wf s' \<and>
    (\<forall>i. c_hw_id (ihk_smp_cpus s' i) = c_hw_id (ihk_smp_cpus s i)) \<and>
    lwk_cpus d' = lwk_cpus d @ map nat cpus \<and> lwk_hw_ids d' = lwk_hw_ids d @ map (\<lambda>c. c_hw_id (ihk_smp_cpus s (nat c))) cpus)"
proof (cases "(s', d') = (s, d)")
  case False
  from request_split [of L arg s h "(s, d)"] False assms(3) obtain cpus where
    req: "get_cpu_req L arg = Inr cpus" "\<forall>c \<in> set cpus. 0 \<le> c \<and> c < int (nr_cpu_ids L)" by auto
  have "os_status d = BUILTIN_OS_STATUS_INITIAL"
    using False assms(3) not_initial(1) [of d L h arg s] by auto
  note cas = os_assign_cpu_cases [OF assms(1,2) req this, of h]
  have pool: "\<forall>c \<in> requested cpus. place_cpu s c = Pool"
    using cas assms(3) False by (auto split: if_splits)
  with cas assms(3) have "assign_cpus L h (map nat cpus) (s, d) = Some (s', d')"
    by (cases "assign_cpus L h (map nat cpus) (s, d)") simp_all
  from assign_cpus_updates [OF this]
  have upd: "ihk_smp_cpus s' = (\<lambda>j. if j \<in> requested cpus then assigned h (ihk_smp_cpus s j) else ihk_smp_cpus s j)"
    "cpu_online s' = cpu_online s" "lwk_cpus d' = lwk_cpus d @ map nat cpus"
    "lwk_hw_ids d' = lwk_hw_ids d @ map (\<lambda>c. c_hw_id (ihk_smp_cpus s (nat c))) cpus"
    by (simp_all add: requested_def comp_def)
  have "cpu_wf s'"
    using upd_wf_place(1) [OF assms(1) upd(2,1)] pool settled_assigned cpu_wfD [OF assms(1)] by (simp add: place_Pool)
  moreover have "place_cpu s' i = (if i \<in> requested cpus then Os h else place_cpu s i)" for i
    by (simp add: place_cpu_def upd assigned_def)
  moreover have "c_hw_id (ihk_smp_cpus s' i) = c_hw_id (ihk_smp_cpus s i)" for i
    by (simp add: upd assigned_def)
  ultimately show ?thesis
    using pool req requested_lt [OF req(2) assms(2)] upd(3,4) by (intro disjI2 exI [of _ cpus]) simp
qed simp

lemma os_release_moves:
  assumes "cpu_wf s" and "nr_cpu_ids L \<le> SMP_MAX_CPUS" and "smp_ihk_os_release_cpu L h arg (s, d) = Some (r, s', d')"
  shows "\<exists>cs. distinct cs \<and> (\<forall>c \<in> set cs. c < SMP_MAX_CPUS \<and> place_cpu s c = Os h \<and> place_cpu s' c = Pool) \<and>
    (\<forall>i. i \<notin> set cs \<longrightarrow> place_cpu s' i = place_cpu s i) \<and> cpu_wf s' \<and>
    (\<forall>i. c_hw_id (ihk_smp_cpus s' i) = c_hw_id (ihk_smp_cpus s i)) \<and>
    (lwk_hw_ids d = map (\<lambda>c. c_hw_id (ihk_smp_cpus s c)) (lwk_cpus d) \<longrightarrow>
       lwk_cpus d' = fold remove1 cs (lwk_cpus d) \<and> lwk_hw_ids d' = map (\<lambda>c. c_hw_id (ihk_smp_cpus s c)) (lwk_cpus d'))"
proof (cases "(s', d') = (s, d)")
  case True
  with assms show ?thesis by (intro exI [of _ "[]"]) simp
next
  case False
  from request_split [of L arg s h "(s, d)"] False assms(3) obtain cpus where
    req: "get_cpu_req L arg = Inr cpus" "\<forall>c \<in> set cpus. 0 \<le> c \<and> c < int (nr_cpu_ids L)" by auto
  have "os_status d = BUILTIN_OS_STATUS_INITIAL"
    using False assms(3) not_initial(2) [of d L h arg s] by auto
  from os_release_cpu_cases [OF assms(2) req(1) assms(1) req(2) this, of h] obtain cs where
    cs: "distinct cs" "set cs = requested cpus" "\<forall>c \<in> set cs. c < SMP_MAX_CPUS"
      "smp_ihk_os_release_cpu L h arg (s, d) =
        (if \<forall>c \<in> requested cpus. place_cpu s c = Os h
         then Some (0, fold release_one cs (s, d)) else Some (err EINVAL, s, d))" by auto
  from cs(4) assms(3) False have own: "\<forall>c \<in> set cs. place_cpu s c = Os h" and
    fold: "fold release_one cs (s, d) = (s', d')"
    unfolding cs(2) by (auto split: if_splits)
  note upd = fold_release_one [OF cs(1) fold]
  have "status_of s c = IHK_SMP_CPU_ASSIGNED" if "c \<in> set cs" for c
    using own that by (auto simp: place_cpu_def split: if_splits)
  then have "cpu_wf s'"
    using upd upd_wf_place(1) [OF assms(1), of s' "set cs" released] settled_released cpu_wfD [OF assms(1)] by simp
  moreover have "place_cpu s' i = (if i \<in> set cs then Pool else place_cpu s i)" "c_hw_id (ihk_smp_cpus s' i) = c_hw_id (ihk_smp_cpus s i)" for i
    using upd by (simp_all add: place_cpu_def released_def)
  ultimately show ?thesis
    using cs(1,3) own fold_release_lwk [OF _ fold] by (intro exI [of _ cs]) simp
qed

lemma shutdown_moves:
  assumes "cpu_wf s" and "reset_os_cpus h (s, d) = (s', d')"
  shows "cpu_wf s' \<and> (\<forall>i < SMP_MAX_CPUS. place_cpu s' i = (if place_cpu s i = Os h then Pool else place_cpu s i)) \<and>
    (\<forall>i. c_hw_id (ihk_smp_cpus s' i) = c_hw_id (ihk_smp_cpus s i)) \<and> lwk_cpus d' = [] \<and> lwk_hw_ids d' = []"
proof -
  note upd = reset_os_cpus_spec [OF assms(2)]
  let ?A = "{j. j < SMP_MAX_CPUS \<and> os_of s j = Some h}"
  have cp: "ihk_smp_cpus s' = (\<lambda>j. if j \<in> ?A then released (ihk_smp_cpus s j) else ihk_smp_cpus s j)"
    by (simp add: upd(1))
  have "settled (released (ihk_smp_cpus s j)) (cpu_online s j)" if "j \<in> ?A" for j
    using that cpu_wfD [OF assms(1), of j] by (auto simp: settled_def released_def)
  then have "cpu_wf s'"
    by (rule upd_wf_place(1) [OF assms(1) upd(2) cp])
  moreover have "place_cpu s' i = (if place_cpu s i = Os h then Pool else place_cpu s i)" if "i < SMP_MAX_CPUS" for i
    using that os_of_place [OF assms(1) that, of h] by (simp add: upd(1) place_cpu_def released_def)
  ultimately show ?thesis
    by (simp add: upd released_def lwk_cpus_def lwk_hw_ids_def)
qed

lemma settled_place_cong:
  assumes "\<forall>i. status_of s' i = status_of s i \<and> os_of s' i = os_of s i" and "cpu_online s' = cpu_online s"
  shows "cpu_wf s' = cpu_wf s" "place_cpu s' = place_cpu s"
  using assms by (auto simp: cpu_wf_def settled_def place_cpu_def fun_eq_iff)

lemma reservable_place: "reservable L s c \<Longrightarrow> place_cpu s c = Outside"
  by (simp add: reservable_def place_cpu_def)

lemma releasable_place: "releasable L s c \<Longrightarrow> place_cpu s c = Pool"
  by (simp add: releasable_def place_cpu_def)

text \<open>Every operation keeps the table well formed and moves CPUs only as its actor may.\<close>

lemma cpu_step_moves:
  assumes "cpu_step nodup a S S'" and "cpu_wf (fst S)"
  shows "cpu_wf (fst S') \<and> (\<forall>i. cpu_place S' i \<noteq> cpu_place S i \<longrightarrow> may_move a (cpu_place S i) (cpu_place S' i))"
  using assms
proof (induction rule: cpu_step.induct)
  case (reserve L arg s r s' D)
  have wf: "cpu_wf s" using reserve.prems by simp
  show ?case
  proof (cases rule: request_split [of L arg s 0 "(s, new_os_data)"])
    case refused
    with reserve show ?thesis by simp
  next
    case (cpus cpus)
    from reserve_cpu_cases [OF wf reserve.hyps(1) cpus] reserve.hyps(2)
    have "cpu_wf s'" "(\<forall>i < SMP_MAX_CPUS. place_cpu s' i = (if i \<in> requested cpus then Pool else place_cpu s i)) \<and>
        (\<forall>c \<in> requested cpus. reservable L s c) \<or> (\<forall>i < SMP_MAX_CPUS. place_cpu s' i = place_cpu s i)"
      by (auto split: if_splits)
    then show ?thesis
      using reservable_place [of L s] by (auto simp: cpu_place_def split: if_splits)
  qed
next
  case (release L arg s r s' D)
  have wf: "cpu_wf s" using release.prems by simp
  show ?case
  proof (cases rule: request_split [of L arg s 0 "(s, new_os_data)"])
    case refused
    with release show ?thesis by simp
  next
    case (cpus cpus)
    from release_cpu_cases [OF wf release.hyps(1) cpus] release.hyps(2)
    have "cpu_wf s'" "(\<forall>i < SMP_MAX_CPUS. place_cpu s' i = (if i \<in> requested cpus then Outside else place_cpu s i)) \<and>
        (\<forall>c \<in> requested cpus. releasable L s c) \<or>
        (\<forall>i < SMP_MAX_CPUS. place_cpu s' i = place_cpu s i \<or> (i \<in> requested cpus \<and> place_cpu s i = Pool \<and> place_cpu s' i = Outside))"
      by (auto split: if_splits)
    then show ?thesis
      using releasable_place [of L s] by (auto simp: cpu_place_def split: if_splits)
  qed
next
  case (os_assign L arg h s D r s' d')
  from os_assign_moves [OF _ os_assign.hyps(1,3)] os_assign.prems
  have "cpu_wf s'" "\<forall>i. place_cpu s' i = place_cpu s i \<or> (place_cpu s i = Pool \<and> place_cpu s' i = Os h)"
    by fastforce+
  then show ?case
    by (fastforce simp: cpu_place_def split: if_splits)
next
  case (os_release L h arg s D r s' d')
  from os_release_moves [OF _ os_release.hyps] os_release.prems
  have "cpu_wf s'" "\<forall>i. place_cpu s' i = place_cpu s i \<or> (place_cpu s i = Os h \<and> place_cpu s' i = Pool)"
    by fastforce+
  then show ?case
    by (fastforce simp: cpu_place_def split: if_splits)
next
  case (os_set_ikc_map check L h ikc s D r s' d')
  have "cpu_wf s' = cpu_wf s" "place_cpu s' = place_cpu s"
    using settled_place_cong [of s' s] set_ikc_map_keeps [OF os_set_ikc_map.hyps] by blast+
  with os_set_ikc_map.prems show ?case
    by (simp add: cpu_place_def)
next
  case (os_shutdown h s D s' d')
  from shutdown_moves [OF _ os_shutdown.hyps] os_shutdown.prems show ?case
    by (auto simp: cpu_place_def split: if_splits)
qed

interpretation cpus: partition "\<lambda>S. cpu_wf (fst S)" cpu_place "cpu_step False"
  by unfold_locales (use cpu_step_moves in blast)+

text \<open>The table and the instances' lists, when no request names a CPU twice.\<close>

definition cpu_inv :: "cpu_state \<Rightarrow> bool" where
  "cpu_inv S \<longleftrightarrow> cpu_wf (fst S) \<and> (\<forall>h. agrees h (fst S) (snd S h))"

lemma agrees_cong:
  assumes "agrees h s d" and "\<And>i. i < SMP_MAX_CPUS \<Longrightarrow> (place_cpu s' i = Os h) = (place_cpu s i = Os h)"
    and "\<And>i. i \<in> set (lwk_cpus d) \<Longrightarrow> c_hw_id (ihk_smp_cpus s' i) = c_hw_id (ihk_smp_cpus s i)"
    and "lwk_cpus d' = lwk_cpus d" and "lwk_hw_ids d' = lwk_hw_ids d"
  shows "agrees h s' d'"
  using assms unfolding agrees_def by (metis (mono_tags, lifting) Collect_cong map_cong)


lemma cpu_step_agrees_other:
  assumes "cpu_step nodup a S S'" and "cpu_wf (fst S)" and "a \<noteq> Inst h" and "agrees h (fst S) (snd S h)"
  shows "agrees h (fst S') (snd S' h)"
proof -
  have "snd S' h = snd S h"
    using assms(1,3) by (cases rule: cpu_step.cases) auto
  moreover have "place_cpu (fst S') i = Os h \<longleftrightarrow> place_cpu (fst S) i = Os h" if "i < SMP_MAX_CPUS" for i
  proof -
    have "cpu_place S' i = Os h \<longleftrightarrow> cpu_place S i = Os h"
      using conjunct2 [OF cpu_step_moves [OF assms(1,2)], rule_format, of i] assms(3)
      by (cases "cpu_place S' i = cpu_place S i"; cases a) auto
    then show ?thesis
      using that by (simp add: cpu_place_def)
  qed
  moreover have "c_hw_id (ihk_smp_cpus (fst S') i) = c_hw_id (ihk_smp_cpus (fst S) i)"
    if "i < SMP_MAX_CPUS" "status_of (fst S) i = IHK_SMP_CPU_ASSIGNED" for i
    using assms(1,2) that
  proof (cases rule: cpu_step.cases)
    case (reserve L arg s r s' D)
    then show ?thesis
      using assms(2) that reserve_cpu_cases [OF _ reserve(4), of s arg]
      by (cases rule: request_split [of L arg s 0 "(s, new_os_data)"]) auto
  next
    case (release L arg s r s' D)
    then show ?thesis
      using assms(2) that release_cpu_cases [OF _ release(4), of s arg]
      by (cases rule: request_split [of L arg s 0 "(s, new_os_data)"]) auto
  next
    case (os_assign L arg h s D r s' d')
    then show ?thesis
      using assms(2) os_assign_moves [OF _ os_assign(4,6)] by auto
  next
    case (os_release L h arg s D r s' d')
    then show ?thesis
      using assms(2) os_release_moves [OF _ os_release(4,5)] by auto
  next
    case (os_set_ikc_map check L h ikc s D r s' d')
    then show ?thesis
      using set_ikc_map_keeps [of check L h ikc s "D h" r s' d' i] by simp
  next
    case (os_shutdown h s D s' d')
    then show ?thesis
      using assms(2) shutdown_moves [OF _ os_shutdown(4)] by auto
  qed
  moreover have "i < SMP_MAX_CPUS \<and> status_of (fst S) i = IHK_SMP_CPU_ASSIGNED" if "i \<in> set (lwk_cpus (snd S h))" for i
    using that assms(4) by (auto simp: agrees_def place_cpu_def split: if_splits)
  ultimately show ?thesis
    by (intro agrees_cong [OF assms(4)]) simp_all
qed


lemma cpu_step_agrees_self:
  assumes "cpu_step True (Inst h) S S'" and "cpu_wf (fst S)" and "agrees h (fst S) (snd S h)"
  shows "agrees h (fst S') (snd S' h)"
  using assms(1)
proof (cases rule: cpu_step.cases)
  case (os_assign L arg s D r s' d')
  then have wf: "cpu_wf s" and ag: "agrees h s (D h)"
    using assms(2,3) by simp_all
  show ?thesis
    using os_assign_moves [OF wf os_assign(3,5)]
  proof (elim disjE exE conjE)
    fix cpus
    assume req: "get_cpu_req L arg = Inr cpus" "\<forall>c \<in> set cpus. 0 \<le> c"
      and mv: "\<forall>c \<in> requested cpus. c < SMP_MAX_CPUS \<and> place_cpu s c = Pool \<and> place_cpu s' c = Os h"
        "\<forall>i. i \<notin> requested cpus \<longrightarrow> place_cpu s' i = place_cpu s i"
      and hw: "\<forall>i. c_hw_id (ihk_smp_cpus s' i) = c_hw_id (ihk_smp_cpus s i)"
      and lwk: "lwk_cpus d' = lwk_cpus (D h) @ map nat cpus"
        "lwk_hw_ids d' = lwk_hw_ids (D h) @ map (\<lambda>c. c_hw_id (ihk_smp_cpus s (nat c))) cpus"
    have "distinct cpus"
      using os_assign(4) req(1) by (simp add: nodup_req_def)
    then have "distinct (map nat cpus)"
      using req(2) by (auto simp: distinct_map inj_on_def) (metis eq_nat_nat_iff)
    moreover have rq: "set (map nat cpus) = requested cpus"
      by (simp add: requested_def)
    moreover have "place_cpu s' i = Os h \<longleftrightarrow> place_cpu s i = Os h \<or> i \<in> requested cpus" for i
      using mv by (cases "i \<in> requested cpus") auto
    moreover have "set (lwk_cpus (D h)) \<inter> requested cpus = {}"
      using ag mv(1) by (auto simp: agrees_def)
    ultimately show ?thesis
      using ag mv(1) unfolding os_assign(2) agrees_def by (auto simp: hw lwk simp flip: rq)
  qed (use ag os_assign in simp)
next
  case (os_release L arg s D r s' d')
  then have wf: "cpu_wf s" and ag: "agrees h s (D h)"
    using assms(2,3) by simp_all
  from os_release_moves [OF wf os_release(3,4)] ag obtain cs where
    mv: "distinct cs" "\<forall>c \<in> set cs. c < SMP_MAX_CPUS \<and> place_cpu s c = Os h \<and> place_cpu s' c = Pool"
      "\<forall>i. i \<notin> set cs \<longrightarrow> place_cpu s' i = place_cpu s i"
      "\<forall>i. c_hw_id (ihk_smp_cpus s' i) = c_hw_id (ihk_smp_cpus s i)"
      "lwk_cpus d' = fold remove1 cs (lwk_cpus (D h))" "lwk_hw_ids d' = map (\<lambda>c. c_hw_id (ihk_smp_cpus s c)) (lwk_cpus d')"
    unfolding agrees_def by blast
  have lwk: "lwk_cpus d' = filter (\<lambda>c. c \<notin> set cs) (lwk_cpus (D h))"
    using mv(5) ag by (simp add: agrees_def fold_remove1_distinct)
  have "i \<notin> set cs \<and> place_cpu s i = Os h \<longleftrightarrow> place_cpu s' i = Os h" for i
    using mv(2,3) by (cases "i \<in> set cs") auto
  then show ?thesis
    using ag mv(4,6) unfolding os_release(2) agrees_def by (auto simp: lwk)
next
  case (os_set_ikc_map check L ikc s D r s' d')
  then have ag: "agrees h s (D h)"
    using assms(3) by simp
  have keep: "status_of s' i = status_of s i \<and> os_of s' i = os_of s i \<and> c_hw_id (ihk_smp_cpus s' i) = c_hw_id (ihk_smp_cpus s i) \<and>
      cpu_online s' = cpu_online s \<and> lwk_cpus d' = lwk_cpus (D h) \<and> lwk_hw_ids d' = lwk_hw_ids (D h)" for i
    using set_ikc_map_keeps [OF os_set_ikc_map(3)] by blast
  have "agrees h s' d'"
    by (rule agrees_cong [OF ag]) (use keep in \<open>auto simp: place_cpu_def\<close>)
  then show ?thesis
    using os_set_ikc_map(2) by simp
next
  case (os_shutdown s D s' d')
  then have "cpu_wf s"
    using assms(2) by simp
  from shutdown_moves [OF this os_shutdown(3)] show ?thesis
    unfolding os_shutdown(2) agrees_def by auto
qed

lemma cpu_step_inv: "cpu_inv S \<Longrightarrow> cpu_step True a S S' \<Longrightarrow> cpu_inv S'"
  unfolding cpu_inv_def
  using cpu_step_moves [of True a S S'] cpu_step_agrees_other [of True a S S'] cpu_step_agrees_self [of _ S S']
  by (metis (full_types))

interpretation cpus_nodup: partition cpu_inv cpu_place "cpu_step True"
  by unfold_locales (use cpu_step_inv cpu_step_moves in \<open>auto simp: cpu_inv_def\<close>)

section \<open>Properties\<close>

text \<open>A machine of four CPUs, all running Linux and all of whose requests succeed.\<close>

definition demo_lnx :: lnx where
  "demo_lnx = \<lparr>nr_cpu_ids = 4, cpu_present = (\<lambda>c. c < 4), hw_id_of = (\<lambda>c. int c * 2), cpu_to_node = (\<lambda>_. 0),
     kmalloc_ok = (\<lambda>_. True), sysfs_ok = (\<lambda>_ _. True)\<rparr>"

definition demo_smp :: smp where
  "demo_smp = smp_ihk_init_cpus (\<lambda>c. c < 4)"

definition cpu_req :: "int list \<Rightarrow> ihk_cpu_req option" where
  "cpu_req cpus = Some \<lparr>req_cpus = Some cpus, req_num_cpus = int (length cpus)\<rparr>"

lemma cpu_req_get: "0 < length cpus \<Longrightarrow> length cpus \<le> SMP_MAX_CPUS \<Longrightarrow> kmalloc_ok L 0 \<Longrightarrow> get_cpu_req L (cpu_req cpus) = Inr cpus"
  by (simp add: get_cpu_req_def cpu_req_def validate_cpu_req_def copy_from_user_def)

lemma init_cpus_wf: "cpu_wf (smp_ihk_init_cpus online)"
  by (simp add: cpu_wf_def settled_def smp_ihk_init_cpus_def)

lemma init_cpus_inv: "cpu_inv (smp_ihk_init_cpus online, \<lambda>_. new_os_data)"
  unfolding cpu_inv_def fst_conv snd_conv
  by (intro conjI allI init_cpus_wf)
    (auto simp: agrees_def lwk_cpus_def lwk_hw_ids_def new_os_data_def smp_ihk_init_cpus_def place_cpu_def)

text \<open>
  Property C3. CPUs of one kernel instance are out of reach of the others and of the host's own
  requests: through any sequence of reservations, releases, assignments, changes of
  the interrupt routing and shutdowns that are not asked for by an instance, the set of
  CPUs assigned to it stays the same.
\<close>

theorem cpu_isolation:
  assumes "cpus.run S as S'" and "cpu_wf (fst S)" and "Inst h \<notin> set as" and "i < SMP_MAX_CPUS"
  shows "place_cpu (fst S') i = Os h \<longleftrightarrow> place_cpu (fst S) i = Os h"
  using cpus.run_isolation [OF assms(1-3), of i] assms(4) by (simp add: cpu_place_def)

text \<open>
  Property C11. From the moment the driver is loaded, after any sequence of operations in which no assignment
  names a CPU twice: no CPU is left in a transient state, a CPU in the pool or with an instance
  does not run Linux, and every instance's list names exactly the CPUs that the table gives
  to it, each once, with their hardware ids.
\<close>

theorem cpu_consistency:
  assumes "cpus_nodup.run (smp_ihk_init_cpus online, \<lambda>_. new_os_data) as (s, D)"
  shows "cpu_wf s \<and> distinct (lwk_cpus (D h)) \<and>
    set (lwk_cpus (D h)) = {i. i < SMP_MAX_CPUS \<and> place_cpu s i = Os h} \<and>
    lwk_hw_ids (D h) = map (\<lambda>c. c_hw_id (ihk_smp_cpus s c)) (lwk_cpus (D h))"
  using cpus_nodup.run_inv [OF assms init_cpus_inv] by (simp add: cpu_inv_def agrees_def)



text \<open>
  Property C27. CPUs of the pool that are assigned to an instance, without repetition, are appended to its list, and a query
  of the right size returns the CPUs in the order in which they were assigned.
\<close>

theorem assign_query_roundtrip:
  assumes "cpu_wf s" and "agrees h s d" and "os_status d = BUILTIN_OS_STATUS_INITIAL" and "nr_cpu_ids L \<le> SMP_MAX_CPUS"
    and "kmalloc_ok L 0" and "cpus \<noteq> []" and "distinct cpus"
    and "\<forall>c \<in> set cpus. 0 \<le> c \<and> c < int (nr_cpu_ids L) \<and> place_cpu s (nat c) = Pool"
    and "length buf = os_nr_cpus d + length cpus"
  shows "\<exists>s' d'. smp_ihk_os_assign_cpu L h (cpu_req cpus) (s, d) = Some (0, s', d') \<and>
    smp_ihk_os_query_cpu L (cpu_req buf) d' = (0, cpu_req (map int (lwk_cpus d) @ cpus))"
proof -
  have "distinct (map nat cpus)"
    using assms(7,8) by (auto simp: distinct_map inj_on_def) (metis eq_nat_nat_iff)
  moreover have "\<forall>c \<in> set (map nat cpus). c < SMP_MAX_CPUS \<and> place_cpu s c = Pool"
    using assms(4,8) by auto
  ultimately have room: "os_nr_cpus d + length cpus \<le> SMP_MAX_CPUS"
    using agrees_room [OF assms(2)] by fastforce
  with assms(6) have req: "get_cpu_req L (cpu_req cpus) = Inr cpus"
    by (intro cpu_req_get assms(5)) simp_all
  have rng: "\<forall>c \<in> set cpus. 0 \<le> c \<and> c < int (nr_cpu_ids L)"
    using assms(8) by simp
  have lt: "\<forall>c \<in> set (map nat cpus). c < SMP_MAX_CPUS"
    using assms(4,8) by auto
  from assign_cpus_spec [OF lt, of d L h s] room obtain s' d' where
    as: "assign_cpus L h (map nat cpus) (s, d) = Some (s', d')" "lwk_cpus d' = lwk_cpus d @ map nat cpus"
    by auto
  have res: "smp_ihk_os_assign_cpu L h (cpu_req cpus) (s, d) = Some (0, s', d')"
    unfolding os_assign_cpu_cases [OF assms(1,4) req rng assms(3)] as(1) using assms(8) by (simp add: requested_def)
  have nr: "os_nr_cpus d' = os_nr_cpus d + length cpus"
    using arg_cong [OF as(2), of length] by simp
  have pos: "0 < int (os_nr_cpus d) + int (length cpus)"
    using assms(6) by (cases cpus) simp_all
  have "map (\<lambda>i. int (os_cpu_mapping d' i)) [0..<os_nr_cpus d'] = map int (lwk_cpus d')"
    by (simp add: lwk_cpus_def)
  also have "\<dots> = map int (lwk_cpus d) @ cpus"
    using assms(8) by (simp add: as(2) map_idI)
  finally have "smp_ihk_os_query_cpu L (cpu_req buf) d' = (0, cpu_req (map int (lwk_cpus d) @ cpus))"
    using room assms(5,9) nr pos
    by (simp add: smp_ihk_os_query_cpu_def cpu_req_def validate_cpu_req_def copy_to_user_def)
  with res show ?thesis by blast
qed

section \<open>Concrete runs\<close>

lemma os_assign_ok:
  assumes "cpu_wf s" and "nr_cpu_ids L \<le> SMP_MAX_CPUS" and "get_cpu_req L arg = Inr cpus"
    and "\<forall>c \<in> set cpus. 0 \<le> c \<and> c < int (nr_cpu_ids L)" and "os_status d = BUILTIN_OS_STATUS_INITIAL"
    and "\<forall>c \<in> requested cpus. place_cpu s c = Pool" and "os_nr_cpus d + length cpus \<le> SMP_MAX_CPUS"
  shows "\<exists>s' d'. smp_ihk_os_assign_cpu L h arg (s, d) = Some (0, s', d') \<and> cpu_wf s' \<and> os_status d' = os_status d \<and>
    (\<forall>i. place_cpu s' i = (if i \<in> requested cpus then Os h else place_cpu s i)) \<and>
    (\<forall>i. c_hw_id (ihk_smp_cpus s' i) = c_hw_id (ihk_smp_cpus s i)) \<and> lwk_cpus d' = lwk_cpus d @ map nat cpus \<and>
    lwk_hw_ids d' = lwk_hw_ids d @ map (\<lambda>c. c_hw_id (ihk_smp_cpus s (nat c))) cpus"
proof -
  have "\<forall>c \<in> set (map nat cpus). c < SMP_MAX_CPUS"
    using requested_lt [OF assms(4,2)] by (auto simp: requested_def)
  from assign_cpus_spec [OF this, of d L h s] assms(7) obtain s' d' where
    as: "assign_cpus L h (map nat cpus) (s, d) = Some (s', d')" "os_status d' = os_status d"
      "ihk_smp_cpus s' = (\<lambda>j. if j \<in> set (map nat cpus) then assigned h (ihk_smp_cpus s j) else ihk_smp_cpus s j)"
      "lwk_cpus d' = lwk_cpus d @ map nat cpus" "lwk_hw_ids d' = lwk_hw_ids d @ map (\<lambda>c. c_hw_id (ihk_smp_cpus s (nat c))) cpus"
    by (auto simp: comp_def)
  have res: "smp_ihk_os_assign_cpu L h arg (s, d) = Some (0, s', d')"
    unfolding os_assign_cpu_cases [OF assms(1-5)] as(1) using assms(6) by simp
  have pl: "place_cpu s' i = (if i \<in> requested cpus then Os h else place_cpu s i)"
    "c_hw_id (ihk_smp_cpus s' i) = c_hw_id (ihk_smp_cpus s i)" for i
    by (auto simp: place_cpu_def as(3) assigned_def requested_def)
  have "cpu_wf s'"
    using os_assign_moves [OF assms(1,2) res] assms(1) by auto
  with res pl as(2,4,5) show ?thesis by blast
qed

lemma os_release_ok:
  assumes "cpu_wf s" and "nr_cpu_ids L \<le> SMP_MAX_CPUS" and "get_cpu_req L arg = Inr cpus"
    and "\<forall>c \<in> set cpus. 0 \<le> c \<and> c < int (nr_cpu_ids L)" and "os_status d = BUILTIN_OS_STATUS_INITIAL"
    and "\<forall>c \<in> requested cpus. place_cpu s c = Os h"
  shows "\<exists>s' d' cs. smp_ihk_os_release_cpu L h arg (s, d) = Some (0, s', d') \<and> set cs = requested cpus \<and> distinct cs \<and>
    (\<forall>i. place_cpu s' i = (if i \<in> requested cpus then Pool else place_cpu s i)) \<and> cpu_wf s' \<and>
    (lwk_hw_ids d = map (\<lambda>c. c_hw_id (ihk_smp_cpus s c)) (lwk_cpus d) \<longrightarrow> lwk_cpus d' = fold remove1 cs (lwk_cpus d))"
proof -
  from os_release_cpu_cases [OF assms(2,3,1,4,5), of h] assms(6) obtain cs where
    cs: "distinct cs" "set cs = requested cpus" "smp_ihk_os_release_cpu L h arg (s, d) = Some (0, fold release_one cs (s, d))"
    by auto
  obtain s' d' where fold: "fold release_one cs (s, d) = (s', d')"
    by fastforce
  have res: "smp_ihk_os_release_cpu L h arg (s, d) = Some (0, s', d')"
    using cs(3) by (simp add: fold)
  have "place_cpu s' i = (if i \<in> requested cpus then Pool else place_cpu s i)" for i
    using fold_release_one [OF cs(1) fold] cs(2) by (simp add: place_cpu_def released_def)
  moreover have "cpu_wf s'"
    using os_release_moves [OF assms(1,2) res] by blast
  ultimately show ?thesis
    using res cs(1,2) fold_release_lwk(1) [OF _ fold] by blast
qed

lemma demo_lnx_simps [simp]:
  "nr_cpu_ids demo_lnx = 4" "kmalloc_ok demo_lnx i" "sysfs_ok demo_lnx c v" "cpu_present demo_lnx c = (c < 4)"
  "hw_id_of demo_lnx c = int c * 2"
  by (simp_all add: demo_lnx_def)

lemma demo_smp_place: "place_cpu demo_smp i = Outside"
  by (simp add: demo_smp_def smp_ihk_init_cpus_def place_cpu_def)

lemma new_os_data_simps [simp]:
  "os_status new_os_data = BUILTIN_OS_STATUS_INITIAL" "os_nr_cpus new_os_data = 0" "lwk_cpus new_os_data = []" "lwk_hw_ids new_os_data = []"
  by (simp_all add: new_os_data_def lwk_cpus_def lwk_hw_ids_def)

lemma SMP_MAX_CPUS_ge [simp]: "n \<le> 512 \<Longrightarrow> n \<le> SMP_MAX_CPUS" "n < 512 \<Longrightarrow> n < SMP_MAX_CPUS"
  by (simp_all add: SMP_MAX_CPUS_def)

lemma demo_reserve:
  obtains s where "smp_ihk_reserve_cpu demo_lnx (cpu_req [1, 2]) demo_smp = Some (0, s)" "cpu_wf s"
    "\<forall>i < SMP_MAX_CPUS. place_cpu s i = (if i = 1 \<or> i = 2 then Pool else Outside)"
proof -
  have req: "get_cpu_req demo_lnx (cpu_req [1, 2]) = Inr [1, 2]"
    by (simp add: cpu_req_get)
  have rq: "requested [1, 2] = {1, 2}"
    by (auto simp: requested_def)
  have ok: "\<forall>c \<in> requested [1, 2]. reservable demo_lnx demo_smp c \<and> sysfs_ok demo_lnx c False"
    unfolding rq by (simp add: reservable_def demo_smp_def smp_ihk_init_cpus_def)
  have "cpu_wf demo_smp"
    unfolding demo_smp_def by (rule init_cpus_wf)
  from reserve_cpu_cases [OF this _ req, unfolded if_P [OF ok]] show thesis
    using that by (auto simp: rq demo_smp_place)
qed

text \<open>CPU 1 goes to instance 1, then CPU 2 to instance 2.\<close>

lemma demo_assign:
  obtains s d s' d' where "smp_ihk_reserve_cpu demo_lnx (cpu_req [1, 2]) demo_smp = Some (0, fst s)"
    "smp_ihk_os_assign_cpu demo_lnx 1 (cpu_req [1]) (fst s, new_os_data) = Some (0, snd s, d)" "cpu_wf (snd s)"
    "\<forall>i < SMP_MAX_CPUS. place_cpu (snd s) i = (if i = 1 then Os 1 else if i = 2 then Pool else Outside)" "lwk_cpus d = [1]"
    "smp_ihk_os_assign_cpu demo_lnx 2 (cpu_req [2]) (snd s, new_os_data) = Some (0, s', d')"
    "\<forall>i < SMP_MAX_CPUS. place_cpu s' i = (if i = 1 then Os 1 else if i = 2 then Os 2 else Outside)"
proof -
  obtain s where s: "smp_ihk_reserve_cpu demo_lnx (cpu_req [1, 2]) demo_smp = Some (0, s)" "cpu_wf s"
    "\<forall>i < SMP_MAX_CPUS. place_cpu s i = (if i = 1 \<or> i = 2 then Pool else Outside)"
    by (rule demo_reserve)
  have req: "get_cpu_req demo_lnx (cpu_req [c]) = Inr [c]" "requested [c] = {nat c}" for c
    by (simp_all add: cpu_req_get requested_def)
  from os_assign_ok [OF s(2) _ req(1) [of 1], of new_os_data 1] s(3) obtain s1 d1 where
    s1: "smp_ihk_os_assign_cpu demo_lnx 1 (cpu_req [1]) (s, new_os_data) = Some (0, s1, d1)" "cpu_wf s1"
      "\<forall>i. place_cpu s1 i = (if i = 1 then Os 1 else place_cpu s i)" "lwk_cpus d1 = [1]"
    by (auto simp: req(2))
  from os_assign_ok [OF s1(2) _ req(1) [of 2], of new_os_data 2] s1(3) s(3) obtain s2 d2 where
    s2: "smp_ihk_os_assign_cpu demo_lnx 2 (cpu_req [2]) (s1, new_os_data) = Some (0, s2, d2)"
      "\<forall>i. place_cpu s2 i = (if i = 2 then Os 2 else place_cpu s1 i)"
    by (auto simp: req(2))
  show thesis
    using that [of "(s, s1)" d1 s2 d2] s s1 s2 by simp
qed

theorem cpu_isolation_witness:
  "\<exists>S S'. cpus.run S [Inst 2] S' \<and> place_cpu (fst S) 1 = Os 1 \<and> place_cpu (fst S') 1 = Os 1 \<and> place_cpu (fst S') 2 = Os 2"
proof -
  obtain s d s' d' where demo: "smp_ihk_reserve_cpu demo_lnx (cpu_req [1, 2]) demo_smp = Some (0, fst s)"
    "smp_ihk_os_assign_cpu demo_lnx 1 (cpu_req [1]) (fst s, new_os_data) = Some (0, snd s, d)" "cpu_wf (snd s)"
    "\<forall>i < SMP_MAX_CPUS. place_cpu (snd s) i = (if i = 1 then Os 1 else if i = 2 then Pool else Outside)" "lwk_cpus d = [1]"
    "smp_ihk_os_assign_cpu demo_lnx 2 (cpu_req [2]) (snd s, new_os_data) = Some (0, s', d')"
    "\<forall>i < SMP_MAX_CPUS. place_cpu s' i = (if i = 1 then Os 1 else if i = 2 then Os 2 else Outside)"
    by (rule demo_assign)
  let ?S = "(snd s, (\<lambda>_. new_os_data))"
  have "cpu_step False (Inst 2) ?S (s', (\<lambda>_. new_os_data)(2 := d'))"
    using demo(6) by (intro cpu_step.os_assign [of demo_lnx]) simp_all
  then have run: "cpus.run ?S [Inst 2] (s', (\<lambda>_. new_os_data)(2 := d'))"
    by (auto intro: cpus.run.intros)
  from cpu_isolation [OF this, of 1 1] demo(3,4,7) show ?thesis
    by (intro exI [of _ ?S] exI [of _ "(s', (\<lambda>_. new_os_data)(2 := d'))"]) (use run in simp)
qed

theorem cpu_consistency_witness:
  "\<exists>s D. cpus_nodup.run (demo_smp, \<lambda>_. new_os_data) [Host, Inst 1] (s, D) \<and> cpu_wf s \<and> lwk_cpus (D 1) = [1] \<and>
     {i. i < SMP_MAX_CPUS \<and> place_cpu s i = Os 1} = {1}"
proof -
  obtain s d s' d' where demo: "smp_ihk_reserve_cpu demo_lnx (cpu_req [1, 2]) demo_smp = Some (0, fst s)"
    "smp_ihk_os_assign_cpu demo_lnx 1 (cpu_req [1]) (fst s, new_os_data) = Some (0, snd s, d)" "cpu_wf (snd s)"
    "\<forall>i < SMP_MAX_CPUS. place_cpu (snd s) i = (if i = 1 then Os 1 else if i = 2 then Pool else Outside)" "lwk_cpus d = [1]"
    "smp_ihk_os_assign_cpu demo_lnx 2 (cpu_req [2]) (snd s, new_os_data) = Some (0, s', d')"
    "\<forall>i < SMP_MAX_CPUS. place_cpu s' i = (if i = 1 then Os 1 else if i = 2 then Os 2 else Outside)"
    by (rule demo_assign)
  let ?D = "(\<lambda>_. new_os_data)(1 := d)"
  have "cpu_step True Host (demo_smp, \<lambda>_. new_os_data) (fst s, \<lambda>_. new_os_data)"
    using demo(1) by (intro cpu_step.reserve [of demo_lnx]) simp_all
  moreover have "cpu_step True (Inst 1) (fst s, \<lambda>_. new_os_data) (snd s, ?D)"
    using demo(2) by (intro cpu_step.os_assign [of demo_lnx]) (simp_all add: nodup_req_def cpu_req_get)
  ultimately have run: "cpus_nodup.run (demo_smp, \<lambda>_. new_os_data) [Host, Inst 1] (snd s, ?D)"
    by (auto intro: cpus_nodup.run.intros)
  from cpu_consistency [OF this [unfolded demo_smp_def], of 1] run demo(5) show ?thesis
    by (intro exI [of _ "snd s"] exI [of _ ?D]) simp
qed

lemma demo_request:
  "get_cpu_req demo_lnx (cpu_req [1, 2]) = Inr [1, 2]" "requested [1, 2] = {1, 2}" "cpu_wf demo_smp"
  "\<forall>c \<in> requested [1, 2]. reservable demo_lnx demo_smp c"
proof -
  show rq: "requested [1, 2] = {1, 2}"
    by (auto simp: requested_def)
  show "cpu_wf demo_smp"
    unfolding demo_smp_def by (rule init_cpus_wf)
  show "\<forall>c \<in> requested [1, 2]. reservable demo_lnx demo_smp c"
    unfolding rq by (simp add: reservable_def demo_smp_def smp_ihk_init_cpus_def)
qed (simp add: cpu_req_get)



theorem assign_query_roundtrip_witness:
  "\<exists>s s' d. smp_ihk_reserve_cpu demo_lnx (cpu_req [1, 2]) demo_smp = Some (0, s) \<and>
     smp_ihk_os_assign_cpu demo_lnx 1 (cpu_req [2, 1]) (s, new_os_data) = Some (0, s', d) \<and>
     smp_ihk_os_query_cpu demo_lnx (cpu_req [0, 0]) d = (0, cpu_req [2, 1])"
proof -
  obtain s where s: "smp_ihk_reserve_cpu demo_lnx (cpu_req [1, 2]) demo_smp = Some (0, s)" "cpu_wf s"
    "\<forall>i < SMP_MAX_CPUS. place_cpu s i = (if i = 1 \<or> i = 2 then Pool else Outside)"
    by (rule demo_reserve)
  have "agrees 1 s new_os_data"
    using s(3) by (auto simp: agrees_def)
  from assign_query_roundtrip [OF s(2) this, of demo_lnx "[2, 1]" "[0, 0]"] s(1,3) show ?thesis
    by auto
qed

text \<open>
  Property C29. An assignment that names a CPU twice is accepted and enters the CPU twice in the instance's list. Releasing
  the CPU takes one of the entries out: the CPU is back in the pool, free to be
  assigned to another instance, and still listed by this one.
\<close>

theorem duplicate_stays_listed:
  assumes "cpu_wf s" and "agrees h s d" and "os_status d = BUILTIN_OS_STATUS_INITIAL" and "nr_cpu_ids L \<le> SMP_MAX_CPUS"
    and "kmalloc_ok L 0" and "c < nr_cpu_ids L" and "place_cpu s c = Pool" and "os_nr_cpus d + 2 \<le> SMP_MAX_CPUS"
  shows "\<exists>s1 d1 s2 d2. smp_ihk_os_assign_cpu L h (cpu_req [int c, int c]) (s, d) = Some (0, s1, d1) \<and>
    smp_ihk_os_release_cpu L h (cpu_req [int c]) (s1, d1) = Some (0, s2, d2) \<and>
    place_cpu s2 c = Pool \<and> c \<in> set (lwk_cpus d2)"
proof -
  have req: "get_cpu_req L (cpu_req [int c, int c]) = Inr [int c, int c]" "get_cpu_req L (cpu_req [int c]) = Inr [int c]"
    using assms(5) by (simp_all add: cpu_req_get)
  have rq: "requested [int c, int c] = {c}" "requested [int c] = {c}"
    by (simp_all add: requested_def)
  from os_assign_ok [OF assms(1,4) req(1) _ assms(3), of h] assms(6-8) obtain s1 d1 where
    s1: "smp_ihk_os_assign_cpu L h (cpu_req [int c, int c]) (s, d) = Some (0, s1, d1)" "cpu_wf s1" "os_status d1 = os_status d"
      "place_cpu s1 c = Os h" "\<forall>i. c_hw_id (ihk_smp_cpus s1 i) = c_hw_id (ihk_smp_cpus s i)"
      "lwk_cpus d1 = lwk_cpus d @ [c, c]"
      "lwk_hw_ids d1 = lwk_hw_ids d @ [c_hw_id (ihk_smp_cpus s c), c_hw_id (ihk_smp_cpus s c)]"
    by (auto simp: rq)
  have hw: "lwk_hw_ids d1 = map (\<lambda>c. c_hw_id (ihk_smp_cpus s1 c)) (lwk_cpus d1)"
    using assms(2) s1(5-7) by (simp add: agrees_def)
  from os_release_ok [OF s1(2) assms(4) req(2), of d1 h] s1(3,4) assms(3,6) hw obtain s2 d2 cs where
    s2: "smp_ihk_os_release_cpu L h (cpu_req [int c]) (s1, d1) = Some (0, s2, d2)" "set cs = {c}" "distinct cs"
      "place_cpu s2 c = Pool" "lwk_cpus d2 = fold remove1 cs (lwk_cpus d1)"
    by (auto simp: rq)
  have "cs = [c]"
    using s2(2,3) by (cases cs) (auto simp: subset_singleton_iff)
  moreover have "c \<notin> set (lwk_cpus d)"
    using assms(2,7) by (auto simp: agrees_def)
  ultimately have "lwk_cpus d2 = lwk_cpus d @ [c]"
    using s2(5) s1(6) by (simp add: remove1_append)
  with s1(1) s2(1,4) show ?thesis by auto
qed

theorem duplicate_stays_listed_witness:
  "\<exists>s s1 d1 s2 d2. smp_ihk_reserve_cpu demo_lnx (cpu_req [1, 2]) demo_smp = Some (0, s) \<and>
     smp_ihk_os_assign_cpu demo_lnx 1 (cpu_req [1, 1]) (s, new_os_data) = Some (0, s1, d1) \<and>
     smp_ihk_os_release_cpu demo_lnx 1 (cpu_req [1]) (s1, d1) = Some (0, s2, d2) \<and>
     place_cpu s2 1 = Pool \<and> 1 \<in> set (lwk_cpus d2)"
proof -
  obtain s where s: "smp_ihk_reserve_cpu demo_lnx (cpu_req [1, 2]) demo_smp = Some (0, s)" "cpu_wf s"
    "\<forall>i < SMP_MAX_CPUS. place_cpu s i = (if i = 1 \<or> i = 2 then Pool else Outside)"
    by (rule demo_reserve)
  have "agrees 1 s new_os_data"
    using s(3) by (auto simp: agrees_def)
  from duplicate_stays_listed [OF s(2) this, of demo_lnx 1] s(1,3) show ?thesis
    by auto
qed

text \<open>
  Property C30. Setting the interrupt routing does not check that a CPU belongs to the instance: an instance
  redirects the interrupts of a CPU assigned to another one, and the call succeeds.
\<close>

theorem ikc_map_foreign:
  assumes "status_of s src = IHK_SMP_CPU_ASSIGNED" and "os_of s src = Some h'" and "src < SMP_MAX_CPUS"
    and "status_of s dst \<noteq> IHK_SMP_CPU_ASSIGNED" and "dst < SMP_MAX_CPUS" and "cpu_present L dst" and "cpu_online s dst"
    and "os_status d = BUILTIN_OS_STATUS_INITIAL" and "kmalloc_ok L 0" and "kmalloc_ok L 1"
  shows "\<exists>s' d'. smp_ihk_os_set_ikc_map (\<lambda>_. 0) L h
      (Some \<lparr>req_src_cpus = Some [int src], req_dst_cpus = Some [int dst], req_num_ikc = 1\<rparr>) (s, d) = (0, s', d') \<and>
    os_of s' src = Some h' \<and> c_ikc_map_cpu (ihk_smp_cpus s' src) = dst"
  using assms
  by (simp add: smp_ihk_os_set_ikc_map_def set_ikc_map_body_def validate_ikc_req_def copy_from_user_def)

text \<open>CPU 1 belongs to instance 1; CPUs 0 and 3 run Linux.\<close>

definition demo_owned :: smp where
  "demo_owned = set_cpu 1 (assigned 1) (smp_ihk_init_cpus (\<lambda>c. c = 0 \<or> c = 3))"

lemma demo_owned_simps:
  "status_of demo_owned i = (if i = 1 then IHK_SMP_CPU_ASSIGNED else if i = 0 \<or> i = 3 then IHK_SMP_CPU_ONLINE else IHK_SMP_CPU_NONE)"
  "os_of demo_owned i = (if i = 1 then Some 1 else None)" "cpu_online demo_owned i \<longleftrightarrow> i = 0 \<or> i = 3"
  "c_ikc_map_cpu (ihk_smp_cpus demo_owned i) = 0"
  by (simp_all add: demo_owned_def assigned_def smp_ihk_init_cpus_def)

theorem ikc_map_foreign_witness:
  "\<exists>s' d'. smp_ihk_os_set_ikc_map (\<lambda>_. 0) demo_lnx 2
      (Some \<lparr>req_src_cpus = Some [1], req_dst_cpus = Some [3], req_num_ikc = 1\<rparr>) (demo_owned, new_os_data) = (0, s', d') \<and>
    os_of s' 1 = Some 1 \<and> c_ikc_map_cpu (ihk_smp_cpus s' 1) = 3"
  using ikc_map_foreign [of demo_owned 1 1 3 demo_lnx new_os_data 2] by (simp add: demo_owned_simps)

definition routing :: "ihk_os \<Rightarrow> 'a smp_scheme \<Rightarrow> nat list \<Rightarrow> (int \<times> int) list" where
  "routing h s is = map (\<lambda>i. (int i, int (c_ikc_map_cpu (ihk_smp_cpus s i))))
     (filter (\<lambda>i. status_of s i = IHK_SMP_CPU_ASSIGNED \<and> os_of s i = Some h) is)"

lemma collect_map_eq:
  assumes "length res \<le> n"
  shows "collect_map h n is s res =
    (if length res + length (routing h s is) \<le> n then Some (Inr (res @ routing h s is)) else None)"
  using assms
proof (induction "is" arbitrary: res)
  case (Cons i "is")
  show ?case
  proof (cases "status_of s i = IHK_SMP_CPU_ASSIGNED \<and> os_of s i = Some h")
    case True
    then have "routing h s (i # is) = (int i, int (c_ikc_map_cpu (ihk_smp_cpus s i))) # routing h s is"
      by (simp add: routing_def)
    with True Cons show ?thesis
      by (cases "length res < n") (simp_all add: Let_def)
  next
    case False
    then have "routing h s (i # is) = routing h s is"
      by (simp add: routing_def)
    with False Cons show ?thesis by auto
  qed
qed (simp add: routing_def)

text \<open>
  Property C28. Reading the interrupt routing back: with arrays of \<open>n\<close> elements the call returns the
  instance's CPUs in ascending order with their targets, when there are at most \<open>n\<close> of them. With
  more it writes behind the kernel's copy of the arrays: the test that should refuse the request
  comes after the write.
\<close>

theorem get_ikc_map_spec:
  assumes "kmalloc_ok L 0" and "kmalloc_ok L 1" and "length srcs = n" and "length dsts = n" and "n \<le> SMP_MAX_CPUS"
    and "ps = routing h s [0..<SMP_MAX_CPUS]"
  shows "smp_ihk_os_get_ikc_map L h (Some \<lparr>req_src_cpus = Some srcs, req_dst_cpus = Some dsts, req_num_ikc = int n\<rparr>) s =
    (if length ps \<le> n
     then Some (0, Some \<lparr>req_src_cpus = Some (map fst ps @ drop (length ps) srcs),
       req_dst_cpus = Some (map snd ps @ drop (length ps) dsts), req_num_ikc = int (length ps)\<rparr>)
     else None)"
proof -
  have "collect_map h n [0..<SMP_MAX_CPUS] s [] = (if length ps \<le> n then Some (Inr ps) else None)"
    using collect_map_eq [of "[]" n h "[0..<SMP_MAX_CPUS]" s] by (simp add: assms(6))
  then show ?thesis
    using assms(1-5)
    by (simp add: smp_ihk_os_get_ikc_map_def validate_ikc_req_def copy_from_user_def copy_to_user_def Let_def)
qed

lemma filter_upt_single: "k < n \<Longrightarrow> filter (\<lambda>i. i = k) [0..<n] = [k]"
  by (induction n) (auto simp: less_Suc_eq)

lemma demo_routing: "routing 1 demo_owned [0..<SMP_MAX_CPUS] = [(1, 0)]"
proof -
  have "filter (\<lambda>i. status_of demo_owned i = IHK_SMP_CPU_ASSIGNED \<and> os_of demo_owned i = Some 1) [0..<SMP_MAX_CPUS] =
      filter (\<lambda>i. i = 1) [0..<SMP_MAX_CPUS]"
    by (intro filter_cong) (simp_all add: demo_owned_simps)
  also have "\<dots> = [1]"
    by (simp add: filter_upt_single)
  finally show ?thesis
    by (simp add: routing_def demo_owned_simps)
qed

theorem get_ikc_map_spec_witness:
  "smp_ihk_os_get_ikc_map demo_lnx 1 (Some \<lparr>req_src_cpus = Some [7, 7], req_dst_cpus = Some [7, 7], req_num_ikc = 2\<rparr>) demo_owned =
     Some (0, Some \<lparr>req_src_cpus = Some [1, 7], req_dst_cpus = Some [0, 7], req_num_ikc = 1\<rparr>) \<and>
   smp_ihk_os_get_ikc_map demo_lnx 1 (Some \<lparr>req_src_cpus = Some [], req_dst_cpus = Some [], req_num_ikc = 0\<rparr>) demo_owned = None"
  using get_ikc_map_spec [of demo_lnx "[7, 7]" 2 "[7, 7]", OF _ _ _ _ _ refl, of 1 demo_owned, unfolded demo_routing]
    get_ikc_map_spec [of demo_lnx "[]" 0 "[]", OF _ _ _ _ _ refl, of 1 demo_owned, unfolded demo_routing]
  by simp

end
