(* ===== verification/Smp_Mem.thy ===== *)
theory Smp_Mem
  imports Smp_Cpu "HOL-Library.Multiset"
begin

text \<open>
  The memory of the SMP driver, \<^verbatim>\<open>linux/driver/smp/smp-driver.c\<close>: the list of free chunks, the list of chunks
  given to kernel instances, assigning and releasing memory, giving chunks back to
  Linux, and the queries.

  Addresses and sizes are natural numbers: chunks lie in physical memory and do not wrap
  around. A chunk's header is kept in the list, not in the memory it describes. The build options \<open>ENABLE_TOFU\<close>
  and \<open>ENABLE_KRM_WORKAROUND\<close> are off. The result \<open>None\<close> is an access outside the driver's
  memory or a loop that runs away.
\<close>

section \<open>Data\<close>

record chunk =
  ch_addr :: nat
  ch_size :: nat
  ch_numa_id :: int

record ihk_os_mem_chunk =
  oc_addr :: nat
  oc_size :: nat
  oc_os :: ihk_os
  oc_numa_id :: int

text \<open>The last field logs the blocks given back to Linux, the latest first.\<close>

record smp_mem = smp +
  ihk_mem_free_chunks :: "chunk list"
  ihk_mem_used_chunks :: "ihk_os_mem_chunk list"
  pages_freed :: "(nat \<times> nat) list"

definition PAGE_SIZE :: nat where
  "PAGE_SIZE = 4096"

definition IHK_SMP_MEM_ALL :: nat where
  "IHK_SMP_MEM_ALL = 2 ^ 64 - 1"

definition IHK_RESERVE_MEM_MAX_SIZE_RATIO_ALL_LIMIT :: int where
  "IHK_RESERVE_MEM_MAX_SIZE_RATIO_ALL_LIMIT = 98"

record ihk_mem_req =
  req_sizes :: "nat list option"
  req_numa_ids :: "int list option"
  req_num_chunks :: int
  req_min_chunk_size :: int
  req_max_size_ratio_all :: int
  req_timeout :: int

text \<open>
  What Linux knows of a page: for a page of a compound page, the address of the head page
  and the size of the compound page.
\<close>

type_synonym pages = "nat \<Rightarrow> (nat \<times> nat) option"

definition page_of :: "nat \<Rightarrow> nat" where
  "page_of a = a - a mod PAGE_SIZE"

section \<open>Requests\<close>

definition validate_mem_req :: "ihk_mem_req \<Rightarrow> int" where
  "validate_mem_req req =
     (if req_num_chunks req < 0 then err EINVAL
      else if req_num_chunks req > 0 \<and> (req_sizes req = None \<or> req_numa_ids req = None) then err EINVAL
      else if req_min_chunk_size req < 0 then err EINVAL
      else if req_max_size_ratio_all req < 0 \<or>
        IHK_RESERVE_MEM_MAX_SIZE_RATIO_ALL_LIMIT < req_max_size_ratio_all req then err EINVAL
      else 0)"

text \<open>
  The first part of the requests that name chunks. \<open>nomem\<close> and \<open>fault\<close> are the codes that the
  request in question returns when memory is short or an array cannot be read.
\<close>

definition get_mem_req :: "lnx \<Rightarrow> int \<Rightarrow> int \<Rightarrow> int \<Rightarrow> ihk_mem_req option \<Rightarrow> int + (nat \<times> int) list" where
  "get_mem_req L nomem fault fault' arg =
     (case arg of
        None \<Rightarrow> Inl fault
      | Some req \<Rightarrow>
          let n = nat (req_num_chunks req) in
          if validate_mem_req req \<noteq> 0 then Inl (err EINVAL)
          else if req_num_chunks req = 0 then Inl 0
          else if \<not> kmalloc_ok L 0 \<or> \<not> kmalloc_ok L 1 then Inl nomem
          else
            (case copy_from_user (the (req_sizes req)) n of
               None \<Rightarrow> Inl fault'
             | Some sizes \<Rightarrow>
                 (case copy_from_user (the (req_numa_ids req)) n of
                    None \<Rightarrow> Inl fault'
                  | Some numa_ids \<Rightarrow> Inr (zip sizes numa_ids))))"

section \<open>The list of free chunks\<close>

definition add_free_mem_chunk :: "chunk \<Rightarrow> 'a smp_mem_scheme \<Rightarrow> 'a smp_mem_scheme" where
  "add_free_mem_chunk c s = s\<lparr>ihk_mem_free_chunks := insert_before ch_addr c (ihk_mem_free_chunks s)\<rparr>"

definition mergeable :: "chunk \<Rightarrow> chunk \<Rightarrow> bool" where
  "mergeable c n \<longleftrightarrow> ch_addr n = ch_addr c + ch_size c \<and> ch_numa_id n = ch_numa_id c"

text \<open>
  One pass over the list. The loop also compares the last chunk with the list head, as if
  it were a chunk: \<open>behind\<close> is what it reads there. The result is \<open>None\<close> when the head looks like
  a chunk to be merged, and otherwise the list after a merge, if there was one.
\<close>

fun merge_pass :: "chunk \<Rightarrow> chunk list \<Rightarrow> chunk list option option" where
  "merge_pass behind [] = Some None"
| "merge_pass behind [c] = (if mergeable c behind then None else Some None)"
| "merge_pass behind (c # n # cs) =
     (if mergeable c n then Some (Some (c\<lparr>ch_size := ch_size c + ch_size n\<rparr> # cs))
      else map_option (map_option (Cons c)) (merge_pass behind (n # cs)))"

lemma merge_pass_length: "merge_pass behind cs = Some (Some cs') \<Longrightarrow> length cs = Suc (length cs')"
  by (induction behind cs arbitrary: cs' rule: merge_pass.induct) (auto split: if_splits)

function merge_mem_chunks :: "chunk \<Rightarrow> chunk list \<Rightarrow> chunk list option" where
  "merge_mem_chunks behind cs =
     (case merge_pass behind cs of
        None \<Rightarrow> None
      | Some None \<Rightarrow> Some cs
      | Some (Some cs') \<Rightarrow> merge_mem_chunks behind cs')"
  by pat_completeness auto

termination
  by (relation "measure (length \<circ> snd)") (auto dest: merge_pass_length)

declare merge_mem_chunks.simps [simp del]

section \<open>Assigning memory to an instance\<close>

text \<open>The scan for an exact match, or else the biggest chunk, on a NUMA node.\<close>

fun find_chunk :: "int \<Rightarrow> nat \<Rightarrow> chunk list \<Rightarrow> chunk option \<Rightarrow> chunk option \<times> chunk option" where
  "find_chunk numa_id sz [] mx = (None, mx)"
| "find_chunk numa_id sz (c # cs) mx =
     (if ch_numa_id c \<noteq> numa_id then find_chunk numa_id sz cs mx
      else if ch_size c = sz then (Some c, mx)
      else find_chunk numa_id sz cs
        (case mx of None \<Rightarrow> Some c | Some m \<Rightarrow> if ch_size m < ch_size c then Some c else Some m))"

lemma find_chunk_in:
  "find_chunk numa_id sz cs mx = (Some m, mx') \<Longrightarrow> m \<in> set cs \<and> ch_numa_id m = numa_id \<and> ch_size m = sz"
  "find_chunk numa_id sz cs mx = (None, Some m) \<Longrightarrow> m \<in> set cs \<and> ch_numa_id m = numa_id \<or> mx = Some m"
  by (induction numa_id sz cs mx rule: find_chunk.induct) (auto split: if_splits option.splits)

text \<open>Subtraction of \<open>size_t\<close> values.\<close>

definition sub64 :: "nat \<Rightarrow> nat \<Rightarrow> nat" where
  "sub64 a b = (if b \<le> a then a - b else 2 ^ 64 + a - b)"

text \<open>What is left of a chunk when its first \<open>sz\<close> bytes are taken; compound pages are not split.\<close>

definition leftover :: "pages \<Rightarrow> chunk \<Rightarrow> nat \<Rightarrow> chunk option" where
  "leftover P m sz =
     (let a = ch_addr m + sz; pg = page_of a in
      case P pg of
        Some (head, comp_size) \<Rightarrow>
          if head = pg then Some (m\<lparr>ch_addr := a, ch_size := ch_size m - sz\<rparr>)
          else if head + comp_size < ch_addr m + ch_size m
          then let comp_end_offset = comp_size - (pg - head) in
            Some (m\<lparr>ch_addr := a + comp_end_offset, ch_size := sub64 (ch_size m - sz) comp_end_offset\<rparr>)
          else None
      | None \<Rightarrow> Some (m\<lparr>ch_addr := a, ch_size := ch_size m - sz\<rparr>))"

text \<open>
  The loop that collects chunks: \<open>left\<close> bytes are still wanted, \<open>i\<close> counts the rounds, \<open>tba\<close> are the
  chunks collected, \<open>free\<close> the free list; \<open>km\<close> tells which of the allocations of descriptors succeed.
\<close>

function assign_loop ::
  "(nat \<Rightarrow> bool) \<Rightarrow> pages \<Rightarrow> int \<Rightarrow> nat \<Rightarrow> nat \<Rightarrow> nat \<Rightarrow> (nat \<times> nat) list \<Rightarrow> chunk list \<Rightarrow> int \<times> (nat \<times> nat) list \<times> chunk list" where
  "assign_loop km P numa_id want left i tba free =
     (if left = 0 then (0, tba, free)
      else if \<not> km i then (err ENOMEM, tba, free)
      else
        (case find_chunk numa_id left free None of
           (None, None) \<Rightarrow> (if want = IHK_SMP_MEM_ALL then 0 else err ENOMEM, tba, free)
         | (Some m, _) \<Rightarrow> (0, tba @ [(ch_addr m, ch_size m)], remove1 m free)
         | (None, Some m) \<Rightarrow>
             if left < ch_size m
             then (0, tba @ [(ch_addr m, left)],
                   (case leftover P m left of
                      None \<Rightarrow> remove1 m free
                    | Some l \<Rightarrow> insert_before ch_addr l (remove1 m free)))
             else assign_loop km P numa_id want (left - ch_size m) (i + 1) (tba @ [(ch_addr m, ch_size m)]) (remove1 m free)))"
  by pat_completeness auto

termination
  by (relation "measure (\<lambda>(km, P, numa_id, want, left, i, tba, free). length free)")
    (auto simp: length_remove1 dest!: find_chunk_in(2) [OF sym] dest: length_pos_if_in_set)

declare assign_loop.simps [simp del]

text \<open>The chunks collected become chunks of the instance.\<close>

fun insert_chunks ::
  "ihk_os \<Rightarrow> int \<Rightarrow> (nat \<times> nat) list \<Rightarrow> 'a smp_mem_scheme \<times> 'b smp_os_data_scheme \<Rightarrow> 'a smp_mem_scheme \<times> 'b smp_os_data_scheme" where
  "insert_chunks h numa_id [] st = st"
| "insert_chunks h numa_id ((a, sz) # tba) (s, d) =
     insert_chunks h numa_id tba
       (s\<lparr>ihk_mem_used_chunks := insert_before oc_addr
            \<lparr>oc_addr = a, oc_size = sz, oc_os = h, oc_numa_id = numa_id\<rparr> (ihk_mem_used_chunks s)\<rparr>,
        d\<lparr>os_numa_mask := insert numa_id (os_numa_mask d),
          os_mem_start := (if os_mem_start d = 0 \<or> os_mem_start d > a then a else os_mem_start d),
          os_mem_end := (if os_mem_end d = 0 \<or> os_mem_end d < a + sz then a + sz else os_mem_end d)\<rparr>)"

text \<open>The error path gives the collected chunks back, merging the free list after each.\<close>

fun return_chunks :: "chunk \<Rightarrow> int \<Rightarrow> (nat \<times> nat) list \<Rightarrow> chunk list \<Rightarrow> chunk list option" where
  "return_chunks behind numa_id [] free = Some free"
| "return_chunks behind numa_id ((a, sz) # tba) free = do {
     free \<leftarrow> merge_mem_chunks behind (insert_before ch_addr \<lparr>ch_addr = a, ch_size = sz, ch_numa_id = numa_id\<rparr> free);
     return_chunks behind numa_id tba free
   }"

definition os_assign_mem ::
  "(nat \<Rightarrow> bool) \<Rightarrow> pages \<Rightarrow> chunk \<Rightarrow> ihk_os \<Rightarrow> nat \<Rightarrow> int \<Rightarrow> 'a smp_mem_scheme \<times> 'b smp_os_data_scheme \<Rightarrow>
     (int \<times> 'a smp_mem_scheme \<times> 'b smp_os_data_scheme) option" where
  "os_assign_mem km P behind h mem_size numa_id = (\<lambda>(s, d).
     case assign_loop km P numa_id mem_size mem_size 0 [] (ihk_mem_free_chunks s) of (ret, tba, free) \<Rightarrow>
     if ret \<noteq> 0 then do {
       free \<leftarrow> return_chunks behind numa_id tba free;
       Some (ret, s\<lparr>ihk_mem_free_chunks := free\<rparr>, d)
     }
     else if tba = [] then Some (err ENOMEM, s\<lparr>ihk_mem_free_chunks := free\<rparr>, d)
     else Some (0, insert_chunks h numa_id tba (s\<lparr>ihk_mem_free_chunks := free\<rparr>, d)))"

text \<open>Releasing the first chunk of an instance that has the given size and node.\<close>

definition os_release_mem :: "ihk_os \<Rightarrow> nat \<Rightarrow> int \<Rightarrow> 'a smp_mem_scheme \<Rightarrow> int \<times> 'a smp_mem_scheme" where
  "os_release_mem h sz numa_id s =
     (case find (\<lambda>c. oc_os c = h \<and> oc_size c = sz \<and> oc_numa_id c = numa_id) (ihk_mem_used_chunks s) of
        None \<Rightarrow> (err EINVAL, s)
      | Some c \<Rightarrow>
          (0, add_free_mem_chunk \<lparr>ch_addr = oc_addr c, ch_size = oc_size c, ch_numa_id = oc_numa_id c\<rparr>
                (s\<lparr>ihk_mem_used_chunks := remove1 c (ihk_mem_used_chunks s)\<rparr>)))"

text \<open>The requests. A failed assignment releases what the chunks before it asked for.\<close>

fun assign_each ::
  "(nat \<Rightarrow> nat \<Rightarrow> bool) \<Rightarrow> pages \<Rightarrow> chunk \<Rightarrow> ihk_os \<Rightarrow> (nat \<times> int) list \<Rightarrow> nat \<Rightarrow> 'a smp_mem_scheme \<times> 'b smp_os_data_scheme \<Rightarrow>
     (int \<times> nat \<times> 'a smp_mem_scheme \<times> 'b smp_os_data_scheme) option" where
  "assign_each km P behind h [] i st = Some (0, 0, st)"
| "assign_each km P behind h ((sz, numa_id) # rs) i st = do {
     (ret, st) \<leftarrow> os_assign_mem (km i) P behind h sz numa_id st;
     if ret \<noteq> 0 then Some (ret, i, st) else assign_each km P behind h rs (i + 1) st
   }"

definition smp_ihk_os_assign_mem ::
  "lnx \<Rightarrow> (nat \<Rightarrow> nat \<Rightarrow> bool) \<Rightarrow> pages \<Rightarrow> chunk \<Rightarrow> ihk_os \<Rightarrow> ihk_mem_req option \<Rightarrow> 'a smp_mem_scheme \<times> 'b smp_os_data_scheme \<Rightarrow>
     (int \<times> 'a smp_mem_scheme \<times> 'b smp_os_data_scheme) option" where
  "smp_ihk_os_assign_mem L km P behind h arg st =
     (if os_status (snd st) \<noteq> BUILTIN_OS_STATUS_INITIAL then Some (err EBUSY, st)
      else
        (case get_mem_req L (err EINVAL) (err EFAULT) (err EFAULT) arg of
           Inl ret \<Rightarrow> Some (ret, st)
         | Inr rs \<Rightarrow> do {
             (ret, failed_index, s, d) \<leftarrow> assign_each km P behind h rs 0 st;
             Some (ret, fold (\<lambda>(sz, numa_id) s. snd (os_release_mem h sz numa_id s)) (take failed_index rs) s, d)
           }))"

fun release_each :: "ihk_os \<Rightarrow> (nat \<times> int) list \<Rightarrow> 'a smp_mem_scheme \<Rightarrow> int \<times> 'a smp_mem_scheme" where
  "release_each h [] s = (0, s)"
| "release_each h ((sz, numa_id) # rs) s =
     (case os_release_mem h sz numa_id s of (ret, s) \<Rightarrow>
      if ret \<noteq> 0 then (ret, s) else release_each h rs s)"

text \<open>
  A failed copy makes this request return the number of bytes that could not be copied,
  a positive number: \<open>uncopied\<close>.
\<close>

definition smp_ihk_os_release_mem ::
  "lnx \<Rightarrow> int \<Rightarrow> ihk_os \<Rightarrow> ihk_mem_req option \<Rightarrow> 'a smp_mem_scheme \<times> 'b smp_os_data_scheme \<Rightarrow> int \<times> 'a smp_mem_scheme" where
  "smp_ihk_os_release_mem L uncopied h arg = (\<lambda>(s, d).
     if os_status d \<noteq> BUILTIN_OS_STATUS_INITIAL then (err EBUSY, s)
     else
       (case get_mem_req L (err ENOMEM) uncopied uncopied arg of
          Inl ret \<Rightarrow> (ret, s)
        | Inr rs \<Rightarrow> release_each h rs s))"

text \<open>The memory part of shutting an instance down.\<close>

fun drop_os_chunks :: "ihk_os \<Rightarrow> ihk_os_mem_chunk list \<Rightarrow> 'a smp_mem_scheme \<Rightarrow> 'a smp_mem_scheme" where
  "drop_os_chunks h [] s = s"
| "drop_os_chunks h (c # cs) s =
     (if oc_os c \<noteq> h then drop_os_chunks h cs s
      else drop_os_chunks h cs
        (add_free_mem_chunk \<lparr>ch_addr = oc_addr c, ch_size = oc_size c, ch_numa_id = oc_numa_id c\<rparr>
          (s\<lparr>ihk_mem_used_chunks := remove1 c (ihk_mem_used_chunks s)\<rparr>)))"

section \<open>Giving chunks back to Linux\<close>

text \<open>
  The loop over the pages of a chunk, from \<open>va\<close> on; a compound page is not empty. The remaining size is unsigned: when less than
  a page is left it wraps around and the loop runs away.
\<close>

function free_pages_loop :: "pages \<Rightarrow> nat \<Rightarrow> nat \<Rightarrow> (nat \<times> nat) list \<Rightarrow> (nat \<times> nat) list option" where
  "free_pages_loop P va size_left freed =
     (if size_left = 0 then Some freed
      else
        (case P (page_of va) of
           None \<Rightarrow>
             if size_left < PAGE_SIZE then None
             else free_pages_loop P (va + PAGE_SIZE) (size_left - PAGE_SIZE) ((va, PAGE_SIZE) # freed)
         | Some (head, comp_size) \<Rightarrow>
             if head \<noteq> page_of va
             then if size_left < PAGE_SIZE then None
               else free_pages_loop P (va + PAGE_SIZE) (size_left - PAGE_SIZE) freed
             else if comp_size \<le> size_left \<and> 0 < comp_size
             then free_pages_loop P (va + comp_size) (size_left - comp_size) ((va, comp_size) # freed)
             else Some ((va, comp_size) # freed)))"
  by pat_completeness auto

termination
  by (relation "measure (\<lambda>(P, va, size_left, freed). size_left)") (auto simp: PAGE_SIZE_def)

declare free_pages_loop.simps [simp del]

definition ihk_smp_release_chunk :: "pages \<Rightarrow> chunk \<Rightarrow> 'a smp_mem_scheme \<Rightarrow> 'a smp_mem_scheme option" where
  "ihk_smp_release_chunk P c s = do {
     freed \<leftarrow> free_pages_loop P (ch_addr c) (ch_size c) (pages_freed s);
     Some (s\<lparr>pages_freed := freed\<rparr>)
   }"

definition ihk_smp_release_mem :: "pages \<Rightarrow> nat \<Rightarrow> int \<Rightarrow> 'a smp_mem_scheme \<Rightarrow> (int \<times> 'a smp_mem_scheme) option" where
  "ihk_smp_release_mem P ihk_mem numa_id s =
     (case find (\<lambda>c. ch_size c = ihk_mem \<and> ch_numa_id c = numa_id) (ihk_mem_free_chunks s) of
        None \<Rightarrow> Some (err EINVAL, s)
      | Some c \<Rightarrow> do {
          s \<leftarrow> ihk_smp_release_chunk P c (s\<lparr>ihk_mem_free_chunks := remove1 c (ihk_mem_free_chunks s)\<rparr>);
          Some (0, s)
        })"

fun release_mem_each :: "pages \<Rightarrow> (nat \<times> int) list \<Rightarrow> 'a smp_mem_scheme \<Rightarrow> (int \<times> 'a smp_mem_scheme) option" where
  "release_mem_each P [] s = Some (0, s)"
| "release_mem_each P ((sz, numa_id) # rs) s = do {
     (ret, s) \<leftarrow> ihk_smp_release_mem P sz numa_id s;
     if ret \<noteq> 0 then Some (ret, s) else release_mem_each P rs s
   }"

definition smp_ihk_release_mem ::
  "lnx \<Rightarrow> pages \<Rightarrow> ihk_mem_req option \<Rightarrow> 'a smp_mem_scheme \<Rightarrow> (int \<times> 'a smp_mem_scheme) option" where
  "smp_ihk_release_mem L P arg s =
     (case get_mem_req L (err EINVAL) (err EFAULT) (err EFAULT) arg of
        Inl ret \<Rightarrow> Some (ret, s)
      | Inr rs \<Rightarrow> release_mem_each P rs s)"

section \<open>Queries\<close>

text \<open>
  The result is the return code and the request as it is left in user space.
\<close>

definition report_chunks ::
  "ihk_mem_req \<Rightarrow> (nat \<times> int) list \<Rightarrow> int \<times> ihk_mem_req option" where
  "report_chunks req cs =
     (if cs = [] then (0, Some (req\<lparr>req_num_chunks := 0\<rparr>))
      else
        (case copy_to_user (the (req_sizes req)) (map fst cs) of
           None \<Rightarrow> (err EFAULT, Some req)
         | Some sizes \<Rightarrow>
             (case copy_to_user (the (req_numa_ids req)) (map snd cs) of
                None \<Rightarrow> (err EFAULT, Some (req\<lparr>req_sizes := Some sizes\<rparr>))
              | Some numa_ids \<Rightarrow>
                  (0, Some (req\<lparr>req_sizes := Some sizes, req_numa_ids := Some numa_ids,
                    req_num_chunks := int (length cs)\<rparr>)))))"

definition smp_ihk_os_query_mem ::
  "lnx \<Rightarrow> ihk_os \<Rightarrow> ihk_mem_req option \<Rightarrow> 'a smp_mem_scheme \<Rightarrow> int \<times> ihk_mem_req option" where
  "smp_ihk_os_query_mem L h arg s =
     (case arg of
        None \<Rightarrow> (err EFAULT, arg)
      | Some req \<Rightarrow>
          let cs = filter (\<lambda>c. oc_os c = h) (ihk_mem_used_chunks s) in
          if validate_mem_req req \<noteq> 0 then (err EINVAL, arg)
          else if req_num_chunks req = 0 then (0, Some (req\<lparr>req_num_chunks := int (length cs)\<rparr>))
          else if int (length cs) \<noteq> req_num_chunks req then (err EINVAL, arg)
          else if \<not> kmalloc_ok L 0 \<or> \<not> kmalloc_ok L 1 then (err ENOMEM, arg)
          else report_chunks req (map (\<lambda>c. (oc_size c, oc_numa_id c)) cs))"

definition smp_ihk_query_mem ::
  "lnx \<Rightarrow> ihk_mem_req option \<Rightarrow> 'a smp_mem_scheme \<Rightarrow> int \<times> ihk_mem_req option" where
  "smp_ihk_query_mem L arg s =
     (case arg of
        None \<Rightarrow> (err EFAULT, arg)
      | Some req \<Rightarrow>
          let cs = ihk_mem_free_chunks s in
          if validate_mem_req req \<noteq> 0 then (err EINVAL, arg)
          else if req_num_chunks req = 0 then (0, Some (req\<lparr>req_num_chunks := int (length cs)\<rparr>))
          else if \<not> kmalloc_ok L 0 \<or> \<not> kmalloc_ok L 1 then (err ENOMEM, arg)
          else report_chunks req (map (\<lambda>c. (ch_size c, ch_numa_id c)) cs))"

text \<open>An address range as a kernel pointer: only inside one chunk of an instance.\<close>

definition ihk_smp_map_virtual :: "nat \<Rightarrow> nat \<Rightarrow> 'a smp_mem_scheme \<Rightarrow> nat option" where
  "ihk_smp_map_virtual phys sz s =
     (case find (\<lambda>c. phys \<ge> oc_addr c \<and> (phys + sz) mod 2 ^ 64 \<le> oc_addr c + oc_size c) (ihk_mem_used_chunks s) of
        None \<Rightarrow> None
      | Some c \<Rightarrow> Some (oc_addr c + (phys - oc_addr c)))"

section \<open>Address ranges\<close>

type_synonym range = "nat \<times> nat"

fun apart :: "range \<Rightarrow> range \<Rightarrow> bool" where
  "apart (a, n) (b, m) \<longleftrightarrow> a + n \<le> b \<or> b + m \<le> a"

fun inside :: "range \<Rightarrow> range \<Rightarrow> bool" where
  "inside (b, m) (a, n) \<longleftrightarrow> a \<le> b \<and> b + m \<le> a + n"

definition bytes_of :: "range \<Rightarrow> nat set" where
  "bytes_of r = {fst r..<fst r + snd r}"

definition covered :: "range list \<Rightarrow> nat set" where
  "covered rs = (\<Union>r \<in> set rs. bytes_of r)"

fun apart_list :: "range list \<Rightarrow> bool" where
  "apart_list [] = True"
| "apart_list (r # rs) \<longleftrightarrow> (\<forall>q \<in> set rs. apart r q) \<and> apart_list rs"

lemma apart_sym: "apart r q = apart q r"
  by (cases r; cases q) auto

lemma apart_bytes: "apart r q \<Longrightarrow> bytes_of r \<inter> bytes_of q = {}"
  by (cases r; cases q) (auto simp: bytes_of_def)

lemma inside_bytes: "inside r q \<Longrightarrow> bytes_of r \<subseteq> bytes_of q"
  by (cases r; cases q) (auto simp: bytes_of_def)

lemma apart_inside: "apart r q \<Longrightarrow> inside p r \<Longrightarrow> apart p q"
  by (cases r; cases q; cases p) auto

lemma covered_simps [simp]:
  "covered [] = {}" "covered (r # rs) = bytes_of r \<union> covered rs" "covered (xs @ ys) = covered xs \<union> covered ys"
  by (auto simp: covered_def)

lemma apart_list_append:
  "apart_list (xs @ ys) \<longleftrightarrow> apart_list xs \<and> apart_list ys \<and> (\<forall>x \<in> set xs. \<forall>y \<in> set ys. apart x y)"
  by (induction xs) auto

lemma apart_list_mset:
  assumes "mset xs = mset ys"
  shows "apart_list xs = apart_list ys"
  using assms
proof (induction xs arbitrary: ys)
  case (Cons x xs)
  then have "x \<in> set ys"
    by (metis list.set_intros(1) set_mset_mset)
  then obtain us vs where ys: "ys = us @ x # vs"
    by (auto dest: split_list)
  with Cons.prems have ms: "mset xs = mset (us @ vs)"
    by simp
  have "apart_list ys = apart_list (x # us @ vs)"
    unfolding ys by (auto simp: apart_list_append apart_sym)
  also have "\<dots> = apart_list (x # xs)"
    using Cons.IH [OF ms] mset_eq_setD [OF ms] by simp
  finally show ?case by simp
qed simp

lemma covered_mset: "mset xs = mset ys \<Longrightarrow> covered xs = covered ys"
  by (drule mset_eq_setD) (simp add: covered_def)

lemma apart_list_shrink:
  assumes "apart_list (r # xs)" and "\<forall>p \<in> set ps. inside p r" and "apart_list ps"
  shows "apart_list (ps @ xs)"
  using assms by (auto simp: apart_list_append intro: apart_inside)

lemma covered_apart:
  assumes "apart_list (xs @ ys)"
  shows "covered xs \<inter> covered ys = {}"
  using assms apart_bytes by (fastforce simp: apart_list_append covered_def)

section \<open>The chunks of the driver\<close>

definition frange :: "chunk \<Rightarrow> range" where
  "frange c = (ch_addr c, ch_size c)"

definition orange :: "ihk_os_mem_chunk \<Rightarrow> range" where
  "orange c = (oc_addr c, oc_size c)"

definition ranges :: "'a smp_mem_scheme \<Rightarrow> range list" where
  "ranges s = map frange (ihk_mem_free_chunks s) @ map orange (ihk_mem_used_chunks s)"

text \<open>
  No byte is in two chunks, chunks consist of pages, both lists are in ascending order, and
  memory ends below the number that stands for all memory.
\<close>

definition paged :: "range \<Rightarrow> bool" where
  "paged r \<longleftrightarrow> PAGE_SIZE dvd fst r \<and> PAGE_SIZE dvd snd r \<and> 0 < snd r"

definition ok_ranges :: "range list \<Rightarrow> bool" where
  "ok_ranges rs \<longleftrightarrow> apart_list rs \<and> (\<forall>r \<in> set rs. paged r)"

definition mem_wf :: "'a smp_mem_scheme \<Rightarrow> bool" where
  "mem_wf s \<longleftrightarrow> ok_ranges (ranges s) \<and> sorted (map ch_addr (ihk_mem_free_chunks s)) \<and>
     sorted (map oc_addr (ihk_mem_used_chunks s)) \<and> covered (ranges s) \<subseteq> {..<IHK_SMP_MEM_ALL}"

definition free_bytes :: "'a smp_mem_scheme \<Rightarrow> nat set" where
  "free_bytes s = covered (map frange (ihk_mem_free_chunks s))"

definition os_bytes :: "'a smp_mem_scheme \<Rightarrow> ihk_os \<Rightarrow> nat set" where
  "os_bytes s h = covered (map orange (filter (\<lambda>c. oc_os c = h) (ihk_mem_used_chunks s)))"

lemma mset_insert_before [simp]: "mset (insert_before k x ys) = add_mset x (mset ys)"
  by (induction ys) auto

lemma mset_map_remove1: "x \<in> set xs \<Longrightarrow> add_mset (f x) (mset (map f (remove1 x xs))) = mset (map f xs)"
  by (induction xs) auto

lemma sorted_map_remove1: "sorted (map k xs) \<Longrightarrow> sorted (map k (remove1 x xs))"
  by (induction xs) (auto dest: notin_set_remove1 set_remove1_subset [THEN subsetD])

text \<open>What Linux promises of compound pages: they consist of pages and contain the pages that belong to them.\<close>

definition pages_ok :: "pages \<Rightarrow> bool" where
  "pages_ok P \<longleftrightarrow> (\<forall>a h n. P a = Some (h, n) \<longrightarrow> h \<le> a \<and> a < h + n \<and> paged (h, n))"

text \<open>What is left of a chunk lies in it, behind what was taken.\<close>

lemma page_of_id [simp]: "PAGE_SIZE dvd a \<Longrightarrow> page_of a = a"
  by (simp add: page_of_def)

lemma leftover_cases:
  assumes "pages_ok P" and "paged (frange m)" and "PAGE_SIZE dvd sz" and "sz < ch_size m"
  shows "leftover P m sz = None \<or>
    (\<exists>off l. leftover P m sz = Some l \<and> l = m\<lparr>ch_addr := ch_addr m + sz + off, ch_size := ch_size m - sz - off\<rparr> \<and>
       off < ch_size m - sz \<and> PAGE_SIZE dvd off \<and> (P (ch_addr m + sz) = None \<longrightarrow> off = 0))"
proof -
  have al: "PAGE_SIZE dvd ch_addr m + sz"
    using assms(2,3) by (simp add: paged_def frange_def)
  show ?thesis
  proof (cases "P (ch_addr m + sz)")
    case None
    with al assms(4) show ?thesis
      by (intro disjI2 exI [of _ 0]) (simp add: leftover_def)
  next
    case (Some hn)
    obtain h n where hn: "hn = (h, n)" by fastforce
    with assms(1) Some have in_page: "h \<le> ch_addr m + sz" "ch_addr m + sz < h + n" "PAGE_SIZE dvd h" "PAGE_SIZE dvd n"
      by (auto simp: pages_ok_def paged_def)
    let ?off = "n - (ch_addr m + sz - h)"
    have "PAGE_SIZE dvd ch_addr m + sz - h"
      using al in_page(3) by (rule dvd_diff_nat)
    then have off: "PAGE_SIZE dvd ?off"
      using in_page(4) by (simp add: dvd_diff_nat)
    consider (head) "h = ch_addr m + sz" | (ends) "h \<noteq> ch_addr m + sz" "\<not> h + n < ch_addr m + ch_size m"
      | (tail) "h \<noteq> ch_addr m + sz" "h + n < ch_addr m + ch_size m" by blast
    then show ?thesis
    proof cases
      case head
      with Some hn al assms(4) show ?thesis
        by (intro disjI2 exI [of _ 0]) (simp add: leftover_def)
    next
      case ends
      with Some hn al show ?thesis
        by (simp add: leftover_def)
    next
      case tail
      have "?off < ch_size m - sz"
        using tail in_page assms(4) by linarith
      with tail Some hn al off show ?thesis
        by (intro disjI2 exI [of _ ?off]) (simp add: leftover_def sub64_def Let_def)
    qed
  qed
qed

lemma take_front:
  assumes "pages_ok P" and "paged (frange m)" and "PAGE_SIZE dvd sz" and "sz < ch_size m" and "0 < sz"
  shows "inside (ch_addr m, sz) (frange m)" "paged (ch_addr m, sz)"
    "leftover P m sz = Some l \<Longrightarrow> inside (frange l) (frange m) \<and> apart (ch_addr m, sz) (frange l) \<and> paged (frange l)"
    "leftover P m sz = Some l \<Longrightarrow> P = (\<lambda>_. None) \<Longrightarrow> bytes_of (frange m) = bytes_of (ch_addr m, sz) \<union> bytes_of (frange l)"
    "P = (\<lambda>_. None) \<Longrightarrow> leftover P m sz \<noteq> None"
proof -
  show "inside (ch_addr m, sz) (frange m)" "paged (ch_addr m, sz)"
    using assms(2-5) by (simp_all add: frange_def paged_def)
  show "leftover P m sz = Some l \<Longrightarrow> inside (frange l) (frange m) \<and> apart (ch_addr m, sz) (frange l) \<and> paged (frange l)"
    using leftover_cases [OF assms(1-4)] assms(2-4) by (auto simp: frange_def paged_def)
  show "leftover P m sz = Some l \<Longrightarrow> P = (\<lambda>_. None) \<Longrightarrow> bytes_of (frange m) = bytes_of (ch_addr m, sz) \<union> bytes_of (frange l)"
    using leftover_cases [OF assms(1-4)] assms(4) by (auto simp: frange_def bytes_of_def)
  show "P = (\<lambda>_. None) \<Longrightarrow> leftover P m sz \<noteq> None"
    by (simp add: leftover_def Let_def)
qed

section \<open>Collecting chunks\<close>

text \<open>
  Part of a list of free chunks is taken: the ranges \<open>new\<close> and the chunks that stay free lie in the
  chunks that were free, and apart.
\<close>

definition carved :: "chunk list \<Rightarrow> range list \<Rightarrow> chunk list \<Rightarrow> bool" where
  "carved free new free' \<longleftrightarrow>
     (\<forall>xs. ok_ranges (map frange free @ xs) \<longrightarrow> ok_ranges (map frange free' @ new @ xs)) \<and>
     covered new \<union> covered (map frange free') \<subseteq> covered (map frange free) \<and>
     (sorted (map ch_addr free) \<longrightarrow> sorted (map ch_addr free'))"

lemma ok_ranges_mset: "mset xs = mset ys \<Longrightarrow> ok_ranges xs = ok_ranges ys"
  unfolding ok_ranges_def using apart_list_mset mset_eq_setD by metis

lemma ok_ranges_paged: "ok_ranges (map frange free @ xs) \<Longrightarrow> c \<in> set free \<Longrightarrow> paged (frange c)"
  by (simp add: ok_ranges_def)

lemma ok_ranges_shrink:
  assumes "ok_ranges (r # xs)" and "\<forall>p \<in> set ps. inside p r" and "ok_ranges ps"
  shows "ok_ranges (ps @ xs)"
  using assms apart_list_shrink [of r xs ps] by (auto simp: ok_ranges_def)

lemma carvedI:
  assumes "\<And>xs. ok_ranges (map frange free @ xs) \<Longrightarrow> ok_ranges (map frange free' @ new @ xs)"
    and "covered new \<union> covered (map frange free') \<subseteq> covered (map frange free)"
    and "sorted (map ch_addr free) \<Longrightarrow> sorted (map ch_addr free')"
  shows "carved free new free'"
  using assms unfolding carved_def by blast

lemma carvedD:
  assumes "carved free new free'"
  shows "ok_ranges (map frange free @ xs) \<Longrightarrow> ok_ranges (map frange free' @ new @ xs)"
    "covered new \<union> covered (map frange free') \<subseteq> covered (map frange free)"
    "sorted (map ch_addr free) \<Longrightarrow> sorted (map ch_addr free')"
  using assms unfolding carved_def by blast+

lemma covered_inside: "\<forall>p \<in> set ps. inside p r \<Longrightarrow> covered ps \<subseteq> bytes_of r"
  unfolding covered_def using inside_bytes by blast

lemma carved_refl: "carved free [] free"
  by (simp add: carved_def)

lemma carved_trans:
  assumes "carved free new free'" and "carved free' new' free''"
  shows "carved free (new @ new') free''"
proof (rule carvedI)
  fix xs
  assume "ok_ranges (map frange free @ xs)"
  from carvedD(1) [OF assms(2) carvedD(1) [OF assms(1) this]]
  show "ok_ranges (map frange free'' @ (new @ new') @ xs)"
    by (rule ok_ranges_mset [THEN iffD1, rotated]) simp
next
  show "covered (new @ new') \<union> covered (map frange free'') \<subseteq> covered (map frange free)"
    using carvedD(2) [OF assms(1)] carvedD(2) [OF assms(2)] by auto
next
  assume "sorted (map ch_addr free)"
  then show "sorted (map ch_addr free'')"
    by (rule carvedD(3) [OF assms(2) carvedD(3) [OF assms(1)]])
qed

lemma remove_mset: "m \<in> set free \<Longrightarrow> mset (frange m # map frange (remove1 m free) @ xs) = mset (map frange free @ xs)"
  using mset_map_remove1 [of m free frange] by simp

lemma covered_whole:
  "m \<in> set free \<Longrightarrow> covered (map frange free) = bytes_of (ch_addr m, ch_size m) \<union> covered (map frange (remove1 m free))"
  using covered_mset [OF remove_mset, of m free "[]"] by (simp add: frange_def)

lemma carved_whole:
  assumes "m \<in> set free"
  shows "carved free [(ch_addr m, ch_size m)] (remove1 m free)"
proof (rule carvedI)
  fix xs
  have ms: "mset (map frange (remove1 m free) @ [(ch_addr m, ch_size m)] @ xs) = mset (map frange free @ xs)"
    using remove_mset [OF assms, of xs] by (simp add: frange_def)
  assume "ok_ranges (map frange free @ xs)"
  then show "ok_ranges (map frange (remove1 m free) @ [(ch_addr m, ch_size m)] @ xs)"
    using ok_ranges_mset [OF ms] by blast
next
  show "covered [(ch_addr m, ch_size m)] \<union> covered (map frange (remove1 m free)) \<subseteq> covered (map frange free)"
    using covered_whole [OF assms] by simp
qed (rule sorted_map_remove1)

lemma carved_part:
  assumes "m \<in> set free" and "paged (frange m)" and "pages_ok P" and "PAGE_SIZE dvd sz" and "sz < ch_size m" and "0 < sz"
  shows "carved free [(ch_addr m, sz)]
    (case leftover P m sz of None \<Rightarrow> remove1 m free | Some l \<Rightarrow> insert_before ch_addr l (remove1 m free))"
    (is "carved free _ ?free'")
proof -
  note front = take_front [OF assms(3,2,4-6)]
  define ls where "ls = (case leftover P m sz of None \<Rightarrow> [] | Some l \<Rightarrow> [l])"
  have ms: "mset (map frange ?free' @ [(ch_addr m, sz)] @ xs) = mset (((ch_addr m, sz) # map frange ls) @ map frange (remove1 m free) @ xs)" for xs
    by (simp add: ls_def split: option.split)
  have ls: "\<forall>p \<in> set ((ch_addr m, sz) # map frange ls). inside p (frange m)" "ok_ranges ((ch_addr m, sz) # map frange ls)"
    using front(1-3) by (auto simp: ls_def ok_ranges_def split: option.splits)
  show ?thesis
  proof (rule carvedI)
    fix xs
    assume "ok_ranges (map frange free @ xs)"
    then have "ok_ranges (frange m # map frange (remove1 m free) @ xs)"
      using ok_ranges_mset [OF remove_mset [OF assms(1)]] by blast
    from ok_ranges_shrink [OF this ls] show "ok_ranges (map frange ?free' @ [(ch_addr m, sz)] @ xs)"
      using ok_ranges_mset [OF ms] by blast
  next
    show "covered [(ch_addr m, sz)] \<union> covered (map frange ?free') \<subseteq> covered (map frange free)"
      using covered_mset [OF ms, of "[]"] covered_mset [OF remove_mset [OF assms(1)], of "[]"] covered_inside [OF ls(1)] by auto
  next
    show "sorted (map ch_addr free) \<Longrightarrow> sorted (map ch_addr ?free')"
      by (cases "leftover P m sz") (simp_all add: sorted_insert_before sorted_map_remove1)
  qed
qed

lemma covered_part:
  assumes "m \<in> set free" and "paged (frange m)" and "pages_ok P" and "PAGE_SIZE dvd sz" and "sz < ch_size m" and "0 < sz"
  shows "P = (\<lambda>_. None) \<longrightarrow> covered (map frange free) = bytes_of (ch_addr m, sz) \<union> covered (map frange
    (case leftover P m sz of None \<Rightarrow> remove1 m free | Some l \<Rightarrow> insert_before ch_addr l (remove1 m free)))"
proof
  assume none: "P = (\<lambda>_. None)"
  note front = take_front(4,5) [OF assms(3,2,4-6)]
  from front(2) [OF none] obtain l where l: "leftover P m sz = Some l" by blast
  have "covered (map frange (insert_before ch_addr l (remove1 m free))) = bytes_of (frange l) \<union> covered (map frange (remove1 m free))"
    by (simp add: covered_def)
  with covered_whole [OF assms(1)] front(1) [OF l none] show "covered (map frange free) = bytes_of (ch_addr m, sz) \<union> covered (map frange
    (case leftover P m sz of None \<Rightarrow> remove1 m free | Some l \<Rightarrow> insert_before ch_addr l (remove1 m free)))"
    by (simp add: l frange_def Un_assoc)
qed

lemma sum_remove1: "m \<in> set free \<Longrightarrow> sum_list (map f free) = f m + sum_list (map f (remove1 m free))" for f :: "'x \<Rightarrow> nat"
  by (induction free) auto

text \<open>
  The loop, for a size that is a number of pages or larger than all free memory together. It
  always ends; success with a bounded request means that exactly the size was collected.
\<close>

lemma assign_loop_spec:
  assumes "assign_loop km P numa_id want left i tba free = (r, tba', free')" and "pages_ok P"
    and "\<forall>c \<in> set free. paged (frange c)" and "PAGE_SIZE dvd left \<or> sum_list (map ch_size free) \<le> left"
  shows "\<exists>new. tba' = tba @ new \<and> carved free new free' \<and>
    (r = 0 \<longrightarrow> want = IHK_SMP_MEM_ALL \<or> sum_list (map snd new) = left) \<and>
    (P = (\<lambda>_. None) \<longrightarrow> covered (map frange free) = covered new \<union> covered (map frange free'))"
  using assms
proof (induction km P numa_id want left i tba free rule: assign_loop.induct)
  case (1 km P numa_id want left i tba free)
  note simps = assign_loop.simps [of km P numa_id want left i tba free]
  have none: ?case if "tba' = tba" "free' = free" "r = 0 \<longrightarrow> want = IHK_SMP_MEM_ALL \<or> left = 0"
    using that carved_refl [of free] by (intro exI [of _ "[]"]) auto
  consider (stop) "left = 0 \<or> \<not> km i \<or> find_chunk numa_id left free None = (None, None)"
    | (exact) m mx where "left \<noteq> 0" "km i" "find_chunk numa_id left free None = (Some m, mx)"
    | (part) m where "left \<noteq> 0" "km i" "find_chunk numa_id left free None = (None, Some m)" "left < ch_size m"
    | (whole) m where "left \<noteq> 0" "km i" "find_chunk numa_id left free None = (None, Some m)" "\<not> left < ch_size m"
    by (metis option.exhaust prod.exhaust)
  then show ?case
  proof cases
    case stop
    with "1.prems"(1) show ?thesis
      unfolding simps by (intro none) (auto split: if_splits)
  next
    case exact
    from find_chunk_in(1) [OF exact(3)] have m: "m \<in> set free" "ch_size m = left" by auto
    have "tba' = tba @ [(ch_addr m, ch_size m)]" "free' = remove1 m free" "r = 0"
      using "1.prems"(1) exact unfolding simps by simp_all
    with carved_whole [OF m(1)] m(2) covered_whole [OF m(1)] show ?thesis
      by (intro exI [of _ "[(ch_addr m, ch_size m)]"]) simp
  next
    case part
    from find_chunk_in(2) [OF part(3)] have m: "m \<in> set free" by auto
    then have pg: "paged (frange m)" using "1.prems"(3) by blast
    have al: "PAGE_SIZE dvd left"
      using m "1.prems"(4) part(4) sum_remove1 [of m free ch_size] by auto
    have res: "tba' = tba @ [(ch_addr m, left)]" "r = 0"
      "free' = (case leftover P m left of None \<Rightarrow> remove1 m free | Some l \<Rightarrow> insert_before ch_addr l (remove1 m free))"
      using "1.prems"(1) part unfolding simps by simp_all
    have "carved free [(ch_addr m, left)] free'"
      unfolding res(3) by (rule carved_part [OF m pg "1.prems"(2) al part(4)]) (use part(1) in simp)
    with res(1,2) part(1) covered_part [OF m pg "1.prems"(2) al part(4)] show ?thesis
      unfolding res(3) by (intro exI [of _ "[(ch_addr m, left)]"]) simp
  next
    case whole
    from find_chunk_in(2) [OF whole(3)] have m: "m \<in> set free" by auto
    let ?free = "remove1 m free" and ?tba = "tba @ [(ch_addr m, ch_size m)]"
    have "assign_loop km P numa_id want (left - ch_size m) (i + 1) ?tba ?free = (r, tba', free')"
      using "1.prems"(1) whole unfolding simps by simp
    moreover have "\<forall>c \<in> set ?free. paged (frange c)"
      using "1.prems"(3) by (meson notin_set_remove1)
    moreover have "PAGE_SIZE dvd left - ch_size m \<or> sum_list (map ch_size ?free) \<le> left - ch_size m"
      using "1.prems"(3,4) m sum_remove1 [OF m, of ch_size] by (auto simp: paged_def frange_def dvd_diff_nat)
    ultimately obtain new where new: "tba' = ?tba @ new" "carved ?free new free'"
      "r = 0 \<longrightarrow> want = IHK_SMP_MEM_ALL \<or> sum_list (map snd new) = left - ch_size m"
      "P = (\<lambda>_. None) \<longrightarrow> covered (map frange ?free) = covered new \<union> covered (map frange free')"
      using "1.IH" [OF whole(1) _ whole(3) [symmetric] refl refl whole(4)] whole(2) "1.prems"(2) by blast
    have "carved free ((ch_addr m, ch_size m) # new) free'"
      using carved_trans [OF carved_whole [OF m] new(2)] by simp
    with new whole(4) covered_whole [OF m] show ?thesis
      by (intro exI [of _ "(ch_addr m, ch_size m) # new"]) auto
  qed
qed

section \<open>Merging\<close>

text \<open>Two adjacent chunks in one.\<close>

lemma bytes_of_join: "bytes_of (a, n) \<union> bytes_of (a + n, m) = bytes_of (a, n + m)"
  by (auto simp: bytes_of_def)

lemma ok_ranges_join:
  assumes "ok_ranges ((a, n) # (a + n, m) # xs)"
  shows "ok_ranges ((a, n + m) # xs)"
proof -
  have "apart (a, n + m) q" if "q \<in> set xs" for q
  proof -
    from assms that have "apart (a, n) q" "apart (a + n, m) q" "0 < snd q"
      by (auto simp: ok_ranges_def paged_def)
    then show ?thesis
      by (cases q) auto
  qed
  with assms show ?thesis
    by (auto simp: ok_ranges_def paged_def)
qed

fun unmergeable :: "chunk list \<Rightarrow> bool" where
  "unmergeable (c # n # cs) \<longleftrightarrow> \<not> mergeable c n \<and> unmergeable (n # cs)"
| "unmergeable cs \<longleftrightarrow> True"

lemma merge_pass_split:
  "merge_pass behind cs = Some (Some cs') \<Longrightarrow>
     \<exists>us c n vs. cs = us @ c # n # vs \<and> mergeable c n \<and> cs' = us @ c\<lparr>ch_size := ch_size c + ch_size n\<rparr> # vs"
proof (induction behind cs arbitrary: cs' rule: merge_pass.induct)
  case (3 behind c n cs)
  show ?case
  proof (cases "mergeable c n")
    case True
    with 3 show ?thesis
      by (intro exI [of _ "[]"]) auto
  next
    case False
    with 3 obtain ds where "merge_pass behind (n # cs) = Some (Some ds)" "cs' = c # ds"
      by auto
    with 3(1) [OF False] show ?thesis
      by (metis append_Cons)
  qed
qed (auto split: if_splits)

lemma merge_pass_done: "merge_pass behind cs = Some None \<Longrightarrow> unmergeable cs"
  by (induction behind cs rule: merge_pass.induct) (auto split: if_splits)

lemma carved_merge:
  assumes "mergeable c n"
  shows "carved (us @ c # n # vs) [] (us @ c\<lparr>ch_size := ch_size c + ch_size n\<rparr> # vs)"
    "covered (map frange (us @ c\<lparr>ch_size := ch_size c + ch_size n\<rparr> # vs)) = covered (map frange (us @ c # n # vs))"
proof -
  let ?c = "c\<lparr>ch_size := ch_size c + ch_size n\<rparr>"
  have n: "ch_addr n = ch_addr c + ch_size c"
    using assms by (simp add: mergeable_def)
  show cov: "covered (map frange (us @ ?c # vs)) = covered (map frange (us @ c # n # vs))"
    using bytes_of_join [of "ch_addr c" "ch_size c" "ch_size n"] by (auto simp: frange_def n)
  show "carved (us @ c # n # vs) [] (us @ ?c # vs)"
  proof (rule carvedI)
    fix xs
    let ?rest = "map frange us @ map frange vs @ xs"
    have m: "mset (map frange (us @ c # n # vs) @ xs) = mset ((ch_addr c, ch_size c) # (ch_addr c + ch_size c, ch_size n) # ?rest)"
      "mset (map frange (us @ ?c # vs) @ [] @ xs) = mset ((ch_addr c, ch_size c + ch_size n) # ?rest)"
      by (simp_all add: frange_def n)
    assume "ok_ranges (map frange (us @ c # n # vs) @ xs)"
    then show "ok_ranges (map frange (us @ ?c # vs) @ [] @ xs)"
      unfolding ok_ranges_mset [OF m(1)] ok_ranges_mset [OF m(2)] by (rule ok_ranges_join)
  qed (use cov in \<open>auto simp: sorted_append\<close>)
qed

lemma merge_mem_chunks_spec:
  assumes "merge_mem_chunks behind cs = Some cs'"
  shows "carved cs [] cs' \<and> covered (map frange cs') = covered (map frange cs) \<and> unmergeable cs'"
  using assms
proof (induction behind cs rule: merge_mem_chunks.induct)
  case (1 behind cs)
  note simps = merge_mem_chunks.simps [of behind cs]
  show ?case
  proof (cases "merge_pass behind cs")
    case None
    with "1.prems" show ?thesis by (simp add: simps)
  next
    case (Some r)
    show ?thesis
    proof (cases r)
      case None
      with Some "1.prems" have "cs' = cs" by (simp add: simps)
      with None Some merge_pass_done [of behind cs] carved_refl [of cs] show ?thesis by simp
    next
      case (Some ds)
      with \<open>merge_pass behind cs = Some r\<close> have pass: "merge_pass behind cs = Some (Some ds)" by simp
      with "1.prems" have rest: "merge_mem_chunks behind ds = Some cs'" by (simp add: simps)
      from merge_pass_split [OF pass] obtain us c n vs where
        cs: "cs = us @ c # n # vs" "mergeable c n" "ds = us @ c\<lparr>ch_size := ch_size c + ch_size n\<rparr> # vs" by blast
      have "carved cs [] ds" "covered (map frange ds) = covered (map frange cs)"
        using carved_merge [OF cs(2), of us vs] cs(1,3) by simp_all
      with "1.IH" [OF pass refl rest] carved_trans [of cs "[]" ds "[]" cs'] show ?thesis by simp
    qed
  qed
qed

text \<open>A list whose last chunk does not reach the list head is always merged.\<close>

lemma merge_pass_defined:
  "(\<And>c. c \<in> set cs \<Longrightarrow> ch_addr c + ch_size c \<le> B) \<Longrightarrow> B < ch_addr behind \<Longrightarrow> merge_pass behind cs \<noteq> None"
  by (induction behind cs rule: merge_pass.induct) (fastforce simp: mergeable_def)+

lemma merge_mem_chunks_defined:
  assumes "\<And>c. c \<in> set cs \<Longrightarrow> ch_addr c + ch_size c \<le> B" and "B < ch_addr behind"
  shows "merge_mem_chunks behind cs \<noteq> None"
  using assms
proof (induction behind cs rule: merge_mem_chunks.induct)
  case (1 behind cs)
  from merge_pass_defined [of cs B behind] "1.prems" obtain r where r: "merge_pass behind cs = Some r" by blast
  show ?case
  proof (cases r)
    case (Some ds)
    with r have pass: "merge_pass behind cs = Some (Some ds)" by simp
    from merge_pass_split [OF this] obtain us c n vs where
      cs: "cs = us @ c # n # vs" "mergeable c n" "ds = us @ c\<lparr>ch_size := ch_size c + ch_size n\<rparr> # vs" by blast
    have "ch_addr x + ch_size x \<le> B" if "x \<in> set ds" for x
      using that "1.prems"(1) [of x] "1.prems"(1) [of n] cs by (auto simp: mergeable_def)
    with "1.IH" [OF pass refl] "1.prems"(2) pass show ?thesis
      by (simp add: merge_mem_chunks.simps [of behind cs])
  qed (simp add: merge_mem_chunks.simps [of behind cs] r)
qed

lemma return_chunks_spec:
  assumes "return_chunks behind numa_id tba free = Some free'"
  shows "(ok_ranges (map frange free @ tba @ xs) \<longrightarrow> ok_ranges (map frange free' @ xs)) \<and>
    covered (map frange free') = covered (map frange free) \<union> covered tba \<and>
    (sorted (map ch_addr free) \<longrightarrow> sorted (map ch_addr free'))"
  using assms
proof (induction behind numa_id tba free rule: return_chunks.induct)
  case (2 behind numa_id a sz tba free)
  let ?c = "\<lparr>ch_addr = a, ch_size = sz, ch_numa_id = numa_id\<rparr>"
  let ?ins = "insert_before ch_addr ?c free"
  from "2.prems" obtain free1 where m: "merge_mem_chunks behind ?ins = Some free1"
    and rest: "return_chunks behind numa_id tba free1 = Some free'"
    by (auto split: bind_splits)
  note merged = merge_mem_chunks_spec [OF m]
  have ins: "covered (map frange ?ins) = bytes_of (a, sz) \<union> covered (map frange free)"
    by (simp add: covered_def frange_def)
  have ms: "mset (map frange free @ ((a, sz) # tba) @ xs) = mset (map frange ?ins @ tba @ xs)"
    by (simp add: frange_def)
  have "ok_ranges (map frange free1 @ tba @ xs)" if "ok_ranges (map frange free @ ((a, sz) # tba) @ xs)"
    using carvedD(1) [of ?ins "[]" free1 "tba @ xs"] merged that unfolding ok_ranges_mset [OF ms] by simp
  moreover have "sorted (map ch_addr free1)" if "sorted (map ch_addr free)"
    using carvedD(3) [of ?ins "[]" free1] merged that by (simp add: sorted_insert_before)
  ultimately show ?case
    using "2.IH" [OF m rest] merged ins by (auto simp del: append_Cons)
qed simp

definition new_chunk :: "ihk_os \<Rightarrow> int \<Rightarrow> range \<Rightarrow> ihk_os_mem_chunk" where
  "new_chunk h numa_id r = \<lparr>oc_addr = fst r, oc_size = snd r, oc_os = h, oc_numa_id = numa_id\<rparr>"

lemma new_chunk_simps [simp]:
  "orange (new_chunk h numa_id r) = r" "oc_os (new_chunk h numa_id r) = h" "oc_numa_id (new_chunk h numa_id r) = numa_id"
  by (simp_all add: new_chunk_def orange_def)

lemma insert_chunks_spec:
  assumes "insert_chunks h numa_id new (s, d) = (s', d')"
  shows "ihk_mem_free_chunks s' = ihk_mem_free_chunks s \<and> pages_freed s' = pages_freed s \<and>
    mset (ihk_mem_used_chunks s') = mset (map (new_chunk h numa_id) new @ ihk_mem_used_chunks s) \<and>
    (sorted (map oc_addr (ihk_mem_used_chunks s)) \<longrightarrow> sorted (map oc_addr (ihk_mem_used_chunks s'))) \<and>
    os_status d' = os_status d"
  using assms
proof (induction new arbitrary: s d)
  case (Cons r new)
  obtain a sz where r: "r = (a, sz)" by fastforce
  let ?s = "s\<lparr>ihk_mem_used_chunks := insert_before oc_addr (new_chunk h numa_id r) (ihk_mem_used_chunks s)\<rparr>"
  from Cons.prems obtain d1 where "insert_chunks h numa_id new (?s, d1) = (s', d')" "os_status d1 = os_status d"
    by (simp add: r new_chunk_def)
  from Cons.IH [OF this(1)] this(2) show ?case
    by (simp add: sorted_insert_before)
qed simp

text \<open>
  An operation of an instance keeps the invariant, leaves the memory of the other
  instances, and gives the instance only what was free.
\<close>

definition mem_moves :: "ihk_os \<Rightarrow> 'a smp_mem_scheme \<Rightarrow> 'a smp_mem_scheme \<Rightarrow> bool" where
  "mem_moves h s s' \<longleftrightarrow>
     (mem_wf s \<longrightarrow> mem_wf s') \<and> (\<forall>h'. h' \<noteq> h \<longrightarrow> os_bytes s' h' = os_bytes s h') \<and>
     free_bytes s' \<union> os_bytes s' h \<subseteq> free_bytes s \<union> os_bytes s h"

lemma mem_moves_refl [simp]: "mem_moves h s s"
  by (simp add: mem_moves_def)

lemma mem_moves_trans: "mem_moves h s s' \<Longrightarrow> mem_moves h s' s'' \<Longrightarrow> mem_moves h s s''"
  unfolding mem_moves_def by blast

lemma os_bytes_mset:
  assumes "mset (ihk_mem_used_chunks s') = mset (map (new_chunk h numa_id) new @ ihk_mem_used_chunks s)"
  shows "os_bytes s' h' = (if h' = h then covered new else {}) \<union> os_bytes s h'"
proof -
  have "set (ihk_mem_used_chunks s') = new_chunk h numa_id ` set new \<union> set (ihk_mem_used_chunks s)"
    using mset_eq_setD [OF assms] by simp
  then show ?thesis
    by (auto simp: os_bytes_def covered_def) (metis new_chunk_simps(1))
qed

lemma covered_ranges: "covered (ranges s) = free_bytes s \<union> (\<Union>h. os_bytes s h)"
  by (auto simp: ranges_def free_bytes_def os_bytes_def covered_def)

text \<open>Taking chunks for an instance.\<close>

lemma mem_moves_carved:
  assumes "carved (ihk_mem_free_chunks s) new (ihk_mem_free_chunks s')"
    and "mset (ihk_mem_used_chunks s') = mset (map (new_chunk h numa_id) new @ ihk_mem_used_chunks s)"
    and "sorted (map oc_addr (ihk_mem_used_chunks s)) \<longrightarrow> sorted (map oc_addr (ihk_mem_used_chunks s'))"
  shows "mem_moves h s s'"
proof -
  note bytes = os_bytes_mset [OF assms(2)]
  have sub: "covered new \<union> free_bytes s' \<subseteq> free_bytes s"
    using carvedD(2) [OF assms(1)] by (simp add: free_bytes_def)
  have "mset (map orange (ihk_mem_used_chunks s')) = image_mset orange (mset (ihk_mem_used_chunks s'))"
    by simp
  also have "\<dots> = mset (new @ map orange (ihk_mem_used_chunks s))"
    unfolding assms(2) by (simp add: multiset.map_comp comp_def)
  finally have ms: "mset (ranges s') = mset (map frange (ihk_mem_free_chunks s') @ new @ map orange (ihk_mem_used_chunks s))"
    by (simp add: ranges_def)
  have "ok_ranges (ranges s')" if "ok_ranges (ranges s)"
    unfolding ok_ranges_mset [OF ms] using carvedD(1) [OF assms(1)] that by (simp add: ranges_def)
  moreover have "covered (ranges s') \<subseteq> covered (ranges s)"
    using sub by (auto simp: covered_ranges bytes split: if_splits)
  ultimately show ?thesis
    using sub carvedD(3) [OF assms(1)] assms(3) by (auto simp: mem_moves_def mem_wf_def bytes)
qed

text \<open>The total size of chunks that are apart is the number of their bytes.\<close>

lemma card_covered:
  "apart_list rs \<Longrightarrow> finite (covered rs) \<and> card (covered rs) = sum_list (map snd rs)"
proof (induction rs)
  case (Cons r rs)
  have "bytes_of r \<inter> covered rs = {}"
    using covered_apart [of "[r]" rs] Cons.prems by (auto simp: apart_list_append)
  moreover have "finite (bytes_of r)" "card (bytes_of r) = snd r"
    by (simp_all add: bytes_of_def)
  ultimately show ?case
    using Cons by (simp add: card_Un_disjoint)
qed simp

lemma sizes_bounded:
  assumes "mem_wf s"
  shows "sum_list (map ch_size (ihk_mem_free_chunks s)) \<le> IHK_SMP_MEM_ALL"
proof -
  have "apart_list (map frange (ihk_mem_free_chunks s))" "covered (map frange (ihk_mem_free_chunks s)) \<subseteq> {..<IHK_SMP_MEM_ALL}"
    using assms by (auto simp: mem_wf_def ok_ranges_def ranges_def apart_list_append)
  from card_covered [OF this(1)] card_mono [OF _ this(2)] show ?thesis
    by (simp add: frange_def comp_def)
qed


text \<open>Taking memory away from an instance.\<close>

definition give_back :: "ihk_os_mem_chunk \<Rightarrow> 'a smp_mem_scheme \<Rightarrow> 'a smp_mem_scheme" where
  "give_back c s = add_free_mem_chunk \<lparr>ch_addr = oc_addr c, ch_size = oc_size c, ch_numa_id = oc_numa_id c\<rparr>
     (s\<lparr>ihk_mem_used_chunks := remove1 c (ihk_mem_used_chunks s)\<rparr>)"

lemma give_back_ranges:
  assumes "c \<in> set (ihk_mem_used_chunks s)"
  shows "mset (ranges (give_back c s)) = mset (ranges s)"
  using mset_map_remove1 [OF assms, of orange]
  by (simp add: ranges_def give_back_def add_free_mem_chunk_def frange_def orange_def)

lemma covered_remove1:
  "x \<in> set xs \<Longrightarrow> covered (map f xs) = bytes_of (f x) \<union> covered (map f (remove1 x xs))"
  using covered_mset [of "f x # map f (remove1 x xs)" "map f xs"] mset_map_remove1 [of x xs f] by simp

lemma filter_remove1: "filter p (remove1 x xs) = (if p x then remove1 x (filter p xs) else filter p xs)"
  by (induction xs) auto

lemma give_back_bytes:
  assumes "c \<in> set (ihk_mem_used_chunks s)"
  shows "free_bytes (give_back c s) = free_bytes s \<union> bytes_of (orange c)"
    "os_bytes s (oc_os c) = bytes_of (orange c) \<union> os_bytes (give_back c s) (oc_os c)"
    "h \<noteq> oc_os c \<Longrightarrow> os_bytes (give_back c s) h = os_bytes s h"
proof -
  show "free_bytes (give_back c s) = free_bytes s \<union> bytes_of (orange c)"
    by (auto simp: free_bytes_def give_back_def add_free_mem_chunk_def covered_def frange_def orange_def)
  show "os_bytes s (oc_os c) = bytes_of (orange c) \<union> os_bytes (give_back c s) (oc_os c)"
    using covered_remove1 [of c "filter (\<lambda>x. oc_os x = oc_os c) (ihk_mem_used_chunks s)" orange] assms
    by (simp add: os_bytes_def give_back_def add_free_mem_chunk_def filter_remove1)
  show "h \<noteq> oc_os c \<Longrightarrow> os_bytes (give_back c s) h = os_bytes s h"
    by (simp add: os_bytes_def give_back_def add_free_mem_chunk_def filter_remove1)
qed

lemma give_back_moves:
  assumes "c \<in> set (ihk_mem_used_chunks s)"
  shows "mem_moves (oc_os c) s (give_back c s)"
    "free_bytes (give_back c s) \<union> os_bytes (give_back c s) (oc_os c) = free_bytes s \<union> os_bytes s (oc_os c)"
proof -
  show all: "free_bytes (give_back c s) \<union> os_bytes (give_back c s) (oc_os c) = free_bytes s \<union> os_bytes s (oc_os c)"
    using give_back_bytes(1,2) [OF assms] by auto
  have "mem_wf (give_back c s)" if "mem_wf s"
    using that unfolding mem_wf_def ok_ranges_mset [OF give_back_ranges [OF assms]] covered_mset [OF give_back_ranges [OF assms]]
    by (simp add: give_back_def add_free_mem_chunk_def sorted_insert_before sorted_map_remove1)
  with all give_back_bytes(3) [OF assms] show "mem_moves (oc_os c) s (give_back c s)"
    by (simp add: mem_moves_def)
qed

lemma os_release_mem_cases:
  obtains (none) "os_release_mem h sz numa_id s = (err EINVAL, s)"
      "\<not> (\<exists>c \<in> set (ihk_mem_used_chunks s). oc_os c = h \<and> oc_size c = sz \<and> oc_numa_id c = numa_id)"
  | (one) c where "os_release_mem h sz numa_id s = (0, give_back c s)" "c \<in> set (ihk_mem_used_chunks s)"
      "oc_os c = h" "oc_size c = sz" "oc_numa_id c = numa_id"
proof (cases "find (\<lambda>c. oc_os c = h \<and> oc_size c = sz \<and> oc_numa_id c = numa_id) (ihk_mem_used_chunks s)")
  case None
  with none show thesis
    by (auto simp: os_release_mem_def find_None_iff)
next
  case (Some c)
  with one [of c] show thesis
    by (auto simp: os_release_mem_def give_back_def find_Some_iff)
qed

lemma os_release_mem_moves: "mem_moves h s (snd (os_release_mem h sz numa_id s))"
  by (cases rule: os_release_mem_cases [of h sz numa_id s]) (use give_back_moves(1) in force)+

lemma release_each_moves: "mem_moves h s (snd (release_each h rs s))"
proof (induction h rs s rule: release_each.induct)
  case (2 h sz numa_id rs s)
  then show ?case
    using os_release_mem_moves [of h s sz numa_id]
    by (cases "os_release_mem h sz numa_id s") (auto intro: mem_moves_trans)
qed simp

lemma fold_release_moves: "mem_moves h s (fold (\<lambda>(sz, numa_id) s. snd (os_release_mem h sz numa_id s)) rs s)"
proof (induction rs arbitrary: s)
  case (Cons r rs)
  obtain sz numa_id where "r = (sz, numa_id)" by fastforce
  then show ?case
    using mem_moves_trans [OF os_release_mem_moves [of h s sz numa_id] Cons.IH] by simp
qed simp

text \<open>Assigning memory.\<close>

lemma assign_loop_error:
  "assign_loop km P numa_id want left i tba free = (r, tba', free') \<Longrightarrow> r \<noteq> 0 \<Longrightarrow> r = err ENOMEM"
proof (induction km P numa_id want left i tba free rule: assign_loop.induct)
  case (1 km P numa_id want left i tba free)
  then show ?case
    by (subst (asm) (2) assign_loop.simps) (auto split: if_splits option.splits prod.splits)
qed

lemma os_assign_mem_spec:
  assumes "os_assign_mem km P behind h mem_size numa_id (s, d) = Some (r, s', d')"
    and "mem_wf s" and "pages_ok P" and "PAGE_SIZE dvd mem_size \<or> mem_size = IHK_SMP_MEM_ALL"
  shows "mem_moves h s s' \<and> os_status d' = os_status d \<and>
    (if r = 0 then \<exists>new. new \<noteq> [] \<and> carved (ihk_mem_free_chunks s) new (ihk_mem_free_chunks s') \<and>
         mset (ihk_mem_used_chunks s') = mset (map (new_chunk h numa_id) new @ ihk_mem_used_chunks s) \<and>
         (mem_size \<noteq> IHK_SMP_MEM_ALL \<longrightarrow> sum_list (map snd new) = mem_size)
     else r = err ENOMEM \<and> ihk_mem_used_chunks s' = ihk_mem_used_chunks s \<and> d' = d \<and>
       (P = (\<lambda>_. None) \<longrightarrow> free_bytes s' = free_bytes s))"
proof -
  obtain ret tba free where loop: "assign_loop km P numa_id mem_size mem_size 0 [] (ihk_mem_free_chunks s) = (ret, tba, free)"
    by (metis prod_cases3)
  have pg: "\<forall>c \<in> set (ihk_mem_free_chunks s). paged (frange c)"
    using assms(2) by (auto simp: mem_wf_def ok_ranges_def ranges_def)
  have al: "PAGE_SIZE dvd mem_size \<or> sum_list (map ch_size (ihk_mem_free_chunks s)) \<le> mem_size"
    using assms(4) sizes_bounded [OF assms(2)] by auto
  from assign_loop_spec [OF loop assms(3) pg al] have carve: "carved (ihk_mem_free_chunks s) tba free"
    and exact: "ret = 0 \<Longrightarrow> mem_size \<noteq> IHK_SMP_MEM_ALL \<Longrightarrow> sum_list (map snd tba) = mem_size"
    and keep: "P = (\<lambda>_. None) \<Longrightarrow> covered (map frange (ihk_mem_free_chunks s)) = covered tba \<union> covered (map frange free)"
    by auto
  have ret: "ret \<noteq> 0 \<Longrightarrow> ret = err ENOMEM"
    using loop by (rule assign_loop_error)
  let ?s = "s\<lparr>ihk_mem_free_chunks := free\<rparr>"
  consider (error) "ret \<noteq> 0" | (empty) "ret = 0" "tba = []" | (ok) "ret = 0" "tba \<noteq> []" by blast
  then show ?thesis
  proof cases
    case error
    with assms(1) loop obtain free' where b: "return_chunks behind numa_id tba free = Some free'"
      and res: "r = ret" "s' = s\<lparr>ihk_mem_free_chunks := free'\<rparr>" "d' = d"
      by (auto simp: os_assign_mem_def split: bind_splits)
    have "carved (ihk_mem_free_chunks s) [] free'"
    proof (rule carvedI)
      fix xs
      assume "ok_ranges (map frange (ihk_mem_free_chunks s) @ xs)"
      from carvedD(1) [OF carve this] return_chunks_spec [OF b, of xs]
      show "ok_ranges (map frange free' @ [] @ xs)" by simp
    qed (use return_chunks_spec [OF b] carvedD(2,3) [OF carve] in auto)
    then have "mem_moves h s s'"
      by (intro mem_moves_carved [of _ "[]" _ _ numa_id]) (simp_all add: res)
    moreover have "free_bytes s' = free_bytes s" if "P = (\<lambda>_. None)"
      using keep [OF that] return_chunks_spec [OF b, of "[]"] by (auto simp: res free_bytes_def)
    ultimately show ?thesis
      using ret [OF error] error by (simp add: res)
  next
    case empty
    with assms(1) loop have res: "r = err ENOMEM" "s' = ?s" "d' = d"
      by (auto simp: os_assign_mem_def)
    have "mem_moves h s s'"
      using carve empty by (intro mem_moves_carved [of _ "[]" _ _ numa_id]) (simp_all add: res)
    with keep empty(2) show ?thesis
      by (simp add: res free_bytes_def)
  next
    case ok
    with assms(1) loop have res: "r = 0" "insert_chunks h numa_id tba (?s, d) = (s', d')"
      by (auto simp: os_assign_mem_def)
    note ins = insert_chunks_spec [OF res(2)]
    have "carved (ihk_mem_free_chunks s) tba (ihk_mem_free_chunks s')"
      using carve ins by simp
    moreover from this have "mem_moves h s s'"
      by (rule mem_moves_carved [of _ _ _ _ numa_id]) (use ins in simp_all)
    ultimately show ?thesis
      using ins ok exact by (auto simp: res)
  qed
qed

section \<open>The requests\<close>

definition page_sizes :: "(nat \<times> int) list \<Rightarrow> bool" where
  "page_sizes rs \<longleftrightarrow> (\<forall>(sz, numa_id) \<in> set rs. PAGE_SIZE dvd sz \<or> sz = IHK_SMP_MEM_ALL)"

lemma mem_moves_wf: "mem_moves h s s' \<Longrightarrow> mem_wf s \<Longrightarrow> mem_wf s'"
  by (simp add: mem_moves_def)

lemma assign_each_moves:
  assumes "assign_each km P behind h rs i (s, d) = Some (r, j, s', d')"
    and "mem_wf s" and "pages_ok P" and "page_sizes rs"
  shows "mem_moves h s s'"
  using assms
proof (induction rs arbitrary: i s d)
  case (Cons q rs)
  obtain sz numa_id where q: "q = (sz, numa_id)" by fastforce
  with Cons.prems(1) obtain ret s1 d1 where one: "os_assign_mem (km i) P behind h sz numa_id (s, d) = Some (ret, s1, d1)"
    and rest: "if ret \<noteq> 0 then s1 = s' else assign_each km P behind h rs (i + 1) (s1, d1) = Some (r, j, s', d')"
    by (auto split: bind_splits if_splits)
  have moves: "mem_moves h s s1"
    using os_assign_mem_spec [OF one] Cons.prems(2-4) by (simp add: q page_sizes_def)
  show ?case
  proof (cases "ret = 0")
    case True
    with rest have "mem_moves h s1 s'"
      using mem_moves_wf [OF moves Cons.prems(2)] Cons.prems(3,4) by (intro Cons.IH) (auto simp: page_sizes_def)
    with moves show ?thesis by (rule mem_moves_trans)
  qed (use moves rest in simp)
qed simp

definition req_list :: "ihk_mem_req option \<Rightarrow> (nat \<times> int) list" where
  "req_list arg = (case arg of None \<Rightarrow> []
     | Some req \<Rightarrow> zip (case req_sizes req of None \<Rightarrow> [] | Some xs \<Rightarrow> xs) (case req_numa_ids req of None \<Rightarrow> [] | Some xs \<Rightarrow> xs))"

lemma get_mem_req_list:
  "get_mem_req L nomem fault fault' arg = Inr rs \<Longrightarrow> set rs \<subseteq> set (req_list arg)"
  by (cases arg) (auto simp: get_mem_req_def req_list_def validate_mem_req_def Let_def copy_from_user_def take_zip [symmetric]
      split: option.split_asm if_split_asm dest: in_set_takeD)

lemma smp_ihk_os_assign_mem_moves:
  assumes "smp_ihk_os_assign_mem L km P behind h arg (s, d) = Some (r, s', d')"
    and "mem_wf s" and "pages_ok P" and "page_sizes (req_list arg)"
  shows "mem_moves h s s'"
proof -
  consider "s' = s" | rs ret j s1 d1 where "get_mem_req L (err EINVAL) (err EFAULT) (err EFAULT) arg = Inr rs"
      "assign_each km P behind h rs 0 (s, d) = Some (ret, j, s1, d1)"
      "s' = fold (\<lambda>(sz, numa_id) s. snd (os_release_mem h sz numa_id s)) (take j rs) s1"
    using assms(1) by (auto simp: smp_ihk_os_assign_mem_def split: if_splits sum.splits bind_splits)
  then show ?thesis
  proof cases
    case 2
    have "page_sizes rs"
      using get_mem_req_list [OF 2(1)] assms(4) by (auto simp: page_sizes_def)
    from mem_moves_trans [OF assign_each_moves [OF 2(2) assms(2,3) this] fold_release_moves] show ?thesis
      unfolding 2(3) .
  qed simp
qed

lemma smp_ihk_os_release_mem_moves: "mem_moves h s (snd (smp_ihk_os_release_mem L uncopied h arg (s, d)))"
  using release_each_moves by (auto simp: smp_ihk_os_release_mem_def split: sum.splits)

text \<open>Shutting an instance down takes all its memory.\<close>

lemma drop_os_chunks_spec:
  assumes "ihk_mem_used_chunks s = pre @ cs" and "\<forall>c \<in> set pre. oc_os c \<noteq> h"
  shows "mem_moves h s (drop_os_chunks h cs s) \<and>
    ihk_mem_used_chunks (drop_os_chunks h cs s) = pre @ filter (\<lambda>c. oc_os c \<noteq> h) cs \<and>
    free_bytes (drop_os_chunks h cs s) = free_bytes s \<union> os_bytes s h"
  using assms
proof (induction h cs s arbitrary: pre rule: drop_os_chunks.induct)
  case (1 h s)
  then show ?case
    by (auto simp: os_bytes_def filter_empty_conv)
next
  case (2 h c cs s)
  show ?case
  proof (cases "oc_os c = h")
    case False
    with 2(1) [OF False, of "pre @ [c]"] 2(3,4) show ?thesis by simp
  next
    case True
    have c: "c \<in> set (ihk_mem_used_chunks s)" "c \<notin> set pre"
      using 2(3,4) True by auto
    have "ihk_mem_used_chunks (give_back c s) = pre @ cs"
      using 2(3) c(2) by (simp add: give_back_def add_free_mem_chunk_def remove1_append)
    from 2(2) [of pre, folded give_back_def, OF _ this 2(4)] True
      give_back_moves [OF c(1)] give_back_bytes(1,2) [OF c(1)]
    show ?thesis
      by (auto simp: give_back_def [symmetric] intro: mem_moves_trans)
  qed
qed

text \<open>What is in no chunk of the driver, or in a free one, does not concern the instances.\<close>

definition host_moves :: "'a smp_mem_scheme \<Rightarrow> 'a smp_mem_scheme \<Rightarrow> bool" where
  "host_moves s s' \<longleftrightarrow> (mem_wf s \<longrightarrow> mem_wf s') \<and> ihk_mem_used_chunks s' = ihk_mem_used_chunks s"

lemma host_moves_refl [simp]: "host_moves s s"
  by (simp add: host_moves_def)

lemma host_moves_trans: "host_moves s s' \<Longrightarrow> host_moves s' s'' \<Longrightarrow> host_moves s s''"
  by (simp add: host_moves_def)

lemma ok_ranges_subset: "ok_ranges (xs @ ys) \<Longrightarrow> ok_ranges ys"
  by (simp add: ok_ranges_def apart_list_append)

lemma mem_wf_remove:
  assumes "mem_wf s" and "c \<in> set (ihk_mem_free_chunks s)"
  shows "mem_wf (s\<lparr>ihk_mem_free_chunks := remove1 c (ihk_mem_free_chunks s)\<rparr>)"
proof -
  let ?s = "s\<lparr>ihk_mem_free_chunks := remove1 c (ihk_mem_free_chunks s)\<rparr>"
  have ms: "mset ([frange c] @ ranges ?s) = mset (ranges s)"
    using remove_mset [OF assms(2)] by (simp add: ranges_def)
  have "ok_ranges ([frange c] @ ranges ?s)"
    using assms(1) unfolding ok_ranges_mset [OF ms] mem_wf_def by simp
  then have "ok_ranges (ranges ?s)"
    by (rule ok_ranges_subset)
  moreover have "covered (ranges ?s) \<subseteq> covered (ranges s)"
    using covered_mset [OF ms] by auto
  ultimately show ?thesis
    using assms(1) sorted_map_remove1 [of ch_addr "ihk_mem_free_chunks s" c] unfolding mem_wf_def by simp blast
qed

lemma release_chunk_fields:
  "ihk_smp_release_chunk P c s = Some s' \<Longrightarrow> \<exists>fr. s' = s\<lparr>pages_freed := fr\<rparr>"
  by (auto simp: ihk_smp_release_chunk_def split: bind_splits)

lemma mem_wf_pages_freed [simp]: "mem_wf (s\<lparr>pages_freed := fr\<rparr>) = mem_wf s"
  by (simp add: mem_wf_def ranges_def)

lemma ihk_smp_release_mem_cases:
  assumes "ihk_smp_release_mem P sz numa_id s = Some (r, s')"
  obtains (none) "r = err EINVAL" "s' = s" "\<not> (\<exists>c \<in> set (ihk_mem_free_chunks s). ch_size c = sz \<and> ch_numa_id c = numa_id)"
  | (one) c fr where "r = 0" "c \<in> set (ihk_mem_free_chunks s)" "ch_size c = sz" "ch_numa_id c = numa_id"
      "free_pages_loop P (ch_addr c) sz (pages_freed s) = Some fr"
      "s' = s\<lparr>ihk_mem_free_chunks := remove1 c (ihk_mem_free_chunks s), pages_freed := fr\<rparr>"
proof (cases "find (\<lambda>c. ch_size c = sz \<and> ch_numa_id c = numa_id) (ihk_mem_free_chunks s)")
  case None
  with assms none show thesis
    by (auto simp: ihk_smp_release_mem_def find_None_iff)
next
  case (Some c)
  then have "c \<in> set (ihk_mem_free_chunks s)" "ch_size c = sz" "ch_numa_id c = numa_id"
    by (auto simp: find_Some_iff)
  with assms Some one [of c] show thesis
    by (auto simp: ihk_smp_release_mem_def ihk_smp_release_chunk_def split: bind_splits)
qed

lemma ihk_smp_release_mem_moves:
  assumes "ihk_smp_release_mem P sz numa_id s = Some (r, s')"
  shows "host_moves s s'"
  using assms
proof (cases rule: ihk_smp_release_mem_cases)
  case (one c fr)
  then show ?thesis
    using mem_wf_remove [of s c] by (simp add: host_moves_def)
qed simp

lemma release_mem_each_moves:
  "release_mem_each P rs s = Some (r, s') \<Longrightarrow> host_moves s s'"
proof (induction P rs s rule: release_mem_each.induct)
  case (2 P sz numa_id rs s)
  then obtain ret s1 where one: "ihk_smp_release_mem P sz numa_id s = Some (ret, s1)"
    and rest: "if ret \<noteq> 0 then s1 = s' else release_mem_each P rs s1 = Some (r, s')"
    by (auto split: bind_splits if_splits)
  note moves = ihk_smp_release_mem_moves [OF one]
  show ?case
  proof (cases "ret = 0")
    case True
    with rest have "release_mem_each P rs s1 = Some (r, s')" by simp
    from host_moves_trans [OF moves "2.IH" [OF one refl _ this]] True show ?thesis by simp
  qed (use moves rest in simp)
qed simp

lemma smp_ihk_release_mem_moves: "smp_ihk_release_mem L P arg s = Some (r, s') \<Longrightarrow> host_moves s s'"
  using release_mem_each_moves by (auto simp: smp_ihk_release_mem_def split: sum.splits)

text \<open>The loop that frees pages.\<close>

lemma page_multiple: "PAGE_SIZE dvd n \<Longrightarrow> n = 0 \<or> PAGE_SIZE \<le> n \<and> PAGE_SIZE dvd n - PAGE_SIZE"
  by (auto dest: dvd_imp_le intro: dvd_diff_nat)

lemma free_pages_loop_0 [simp]: "free_pages_loop P va 0 freed = Some freed"
  by (subst free_pages_loop.simps) simp

lemma free_pages_loop_ends:
  assumes "pages_ok P" and "PAGE_SIZE dvd n"
  shows "\<exists>bs. free_pages_loop P va n freed = Some (bs @ freed)"
  using assms(2)
proof (induction n arbitrary: va freed rule: less_induct)
  case (less n)
  note simps = free_pages_loop.simps [of P va n freed]
  have pos: "0 < PAGE_SIZE" by (simp add: PAGE_SIZE_def)
  show ?case
  proof (cases "n = 0")
    case False
    with page_multiple [OF less.prems] pos have n: "PAGE_SIZE \<le> n" "PAGE_SIZE dvd n - PAGE_SIZE" "n - PAGE_SIZE < n" by auto
    from less.IH [OF n(3,2)] obtain bs where skip: "free_pages_loop P (va + PAGE_SIZE) (n - PAGE_SIZE) freed = Some (bs @ freed)" by blast
    from less.IH [OF n(3,2), of _ "(va, PAGE_SIZE) # freed"] obtain cs where
      page: "free_pages_loop P (va + PAGE_SIZE) (n - PAGE_SIZE) ((va, PAGE_SIZE) # freed) = Some (cs @ (va, PAGE_SIZE) # freed)" by blast
    show ?thesis
    proof (cases "P (page_of va)")
      case None
      with False n(1) page show ?thesis
        by (intro exI [of _ "cs @ [(va, PAGE_SIZE)]"]) (simp add: simps)
    next
      case (Some q)
      obtain head comp where q: "q = (head, comp)" by fastforce
      with Some assms(1) have "PAGE_SIZE dvd comp" "0 < comp"
        by (auto simp: pages_ok_def paged_def)
      then have "PAGE_SIZE dvd n - comp" "n - comp < n"
        using less.prems False by (auto intro: dvd_diff_nat)
      from less.IH [OF this(2,1), of _ "(va, comp) # freed"] obtain ds where
        "free_pages_loop P (va + comp) (n - comp) ((va, comp) # freed) = Some (ds @ (va, comp) # freed)" by blast
      with False n(1) skip Some q show ?thesis
        by (simp add: simps)
    qed
  qed simp
qed

lemma free_pages_loop_plain:
  assumes "PAGE_SIZE dvd n"
  shows "\<exists>bs. free_pages_loop (\<lambda>_. None) va n freed = Some (bs @ freed) \<and> covered bs = bytes_of (va, n) \<and>
    apart_list bs \<and> (\<forall>b \<in> set bs. 0 < snd b)"
  using assms
proof (induction n arbitrary: va freed rule: less_induct)
  case (less n)
  note simps = free_pages_loop.simps [of "\<lambda>_. None" va n freed]
  have pos: "0 < PAGE_SIZE" by (simp add: PAGE_SIZE_def)
  show ?case
  proof (cases "n = 0")
    case True
    then show ?thesis
      by (intro exI [of _ "[]"]) (simp add: bytes_of_def)
  next
    case False
    with page_multiple [OF less.prems] pos have n: "PAGE_SIZE \<le> n" "PAGE_SIZE dvd n - PAGE_SIZE" "n - PAGE_SIZE < n" by auto
    from less.IH [OF n(3,2), of "va + PAGE_SIZE" "(va, PAGE_SIZE) # freed"] obtain bs where
      bs: "free_pages_loop (\<lambda>_. None) (va + PAGE_SIZE) (n - PAGE_SIZE) ((va, PAGE_SIZE) # freed) = Some (bs @ (va, PAGE_SIZE) # freed)"
      "covered bs = bytes_of (va + PAGE_SIZE, n - PAGE_SIZE)" "apart_list bs" "\<forall>b \<in> set bs. 0 < snd b" by blast
    have "apart q (va, PAGE_SIZE)" if "q \<in> set bs" for q
    proof -
      have "fst q \<in> covered bs"
        using that bs(4) by (auto simp: covered_def bytes_of_def)
      then show ?thesis
        unfolding bs(2) by (cases q) (auto simp: bytes_of_def)
    qed
    with False n(1) bs pos bytes_of_join [of va PAGE_SIZE "n - PAGE_SIZE"] show ?thesis
      by (intro exI [of _ "bs @ [(va, PAGE_SIZE)]"]) (simp add: simps apart_list_append Un_commute)
  qed
qed

lemma free_pages_loop_runaway:
  "\<not> PAGE_SIZE dvd n \<Longrightarrow> free_pages_loop (\<lambda>_. None) va n freed = None"
proof (induction n arbitrary: va freed rule: less_induct)
  case (less n)
  then have "n \<noteq> 0" by (cases n) auto
  show ?case
  proof (cases "n < PAGE_SIZE")
    case True
    with \<open>n \<noteq> 0\<close> show ?thesis
      by (subst free_pages_loop.simps) auto
  next
    case False
    with less.prems have "n - PAGE_SIZE < n" "\<not> PAGE_SIZE dvd n - PAGE_SIZE"
      by (auto simp: PAGE_SIZE_def dvd_minus_self)
    with less.IH False \<open>n \<noteq> 0\<close> show ?thesis
      by (subst free_pages_loop.simps) auto
  qed
qed

section \<open>What the memory operations promise\<close>

definition mem_state :: "chunk list \<Rightarrow> ihk_os_mem_chunk list \<Rightarrow> smp_mem" where
  "mem_state free used = smp.extend demo_smp (smp_mem.fields free used [])"

lemma mem_state_simps [simp]:
  "ihk_mem_free_chunks (mem_state free used) = free" "ihk_mem_used_chunks (mem_state free used) = used"
  "pages_freed (mem_state free used) = []"
  "(mem_state free used)\<lparr>ihk_mem_free_chunks := free'\<rparr> = mem_state free' used"
  "(mem_state free used)\<lparr>ihk_mem_used_chunks := used'\<rparr> = mem_state free used'"
  by (simp_all add: mem_state_def smp.defs smp_mem.defs)

definition free_chunk :: "nat \<Rightarrow> nat \<Rightarrow> chunk" where
  "free_chunk a n = \<lparr>ch_addr = a * PAGE_SIZE, ch_size = n * PAGE_SIZE, ch_numa_id = 0\<rparr>"

definition os_chunk :: "ihk_os \<Rightarrow> nat \<Rightarrow> nat \<Rightarrow> ihk_os_mem_chunk" where
  "os_chunk h a n = \<lparr>oc_addr = a * PAGE_SIZE, oc_size = n * PAGE_SIZE, oc_os = h, oc_numa_id = 0\<rparr>"

definition far :: chunk where
  "far = \<lparr>ch_addr = 2 ^ 64, ch_size = 0, ch_numa_id = - 1\<rparr>"

lemmas demo_mem_defs = free_chunk_def os_chunk_def far_def mem_wf_def ok_ranges_def ranges_def frange_def orange_def
  paged_def PAGE_SIZE_def IHK_SMP_MEM_ALL_def bytes_of_def

text \<open>
  Property C8. Assigning memory. From a well-formed state, and for a size that is a multiple of the page
  size, a successful call gives the instance exactly as many bytes as asked for; all of them were free, the
  other instances keep theirs, and the invariant holds again. A failing call reports that memory is
  short and takes nothing from anybody; if Linux has no compound pages there, the free memory is the same
  as before, although it may have been collected and merged in between.
\<close>

theorem os_assign_mem_exact:
  assumes "os_assign_mem km P behind h mem_size numa_id (s, d) = Some (r, s', d')"
    and "mem_wf s" and "pages_ok P" and "PAGE_SIZE dvd mem_size"
  shows "mem_wf s' \<and> (\<forall>h'. h' \<noteq> h \<longrightarrow> os_bytes s' h' = os_bytes s h') \<and>
    (if r = 0 then os_bytes s h \<subseteq> os_bytes s' h \<and> os_bytes s' h - os_bytes s h \<subseteq> free_bytes s - free_bytes s' \<and>
         card (os_bytes s' h - os_bytes s h) = mem_size
     else r = err ENOMEM \<and> os_bytes s' h = os_bytes s h \<and> d' = d \<and>
       free_bytes s' \<subseteq> free_bytes s \<and> (P = (\<lambda>_. None) \<longrightarrow> free_bytes s' = free_bytes s))"
proof -
  note spec = os_assign_mem_spec [OF assms(1-3)]
  have moves: "mem_moves h s s'"
    using spec assms(4) by blast
  have wf': "mem_wf s'" by (rule mem_moves_wf [OF moves assms(2)])
  have others: "\<forall>h'. h' \<noteq> h \<longrightarrow> os_bytes s' h' = os_bytes s h'"
    using moves by (simp add: mem_moves_def)
  show ?thesis
  proof (cases "r = 0")
    case True
    with spec assms(4) obtain new where new: "carved (ihk_mem_free_chunks s) new (ihk_mem_free_chunks s')"
      "mset (ihk_mem_used_chunks s') = mset (map (new_chunk h numa_id) new @ ihk_mem_used_chunks s)"
      "mem_size \<noteq> IHK_SMP_MEM_ALL \<longrightarrow> sum_list (map snd new) = mem_size" by auto
    have not_all: "mem_size \<noteq> IHK_SMP_MEM_ALL"
      using assms(4) by (auto simp: PAGE_SIZE_def IHK_SMP_MEM_ALL_def)
    have "ok_ranges (ranges s)"
      using assms(2) by (simp add: mem_wf_def)
    then have "ok_ranges (map frange (ihk_mem_free_chunks s') @ new @ map orange (ihk_mem_used_chunks s))"
      using carvedD(1) [OF new(1)] by (simp add: ranges_def)
    then have ap: "apart_list (map frange (ihk_mem_free_chunks s') @ new @ map orange (ihk_mem_used_chunks s))" and ap': "apart_list new"
      by (simp_all add: ok_ranges_def apart_list_append)
    have "covered new \<inter> free_bytes s' = {}" "covered new \<inter> covered (map orange (ihk_mem_used_chunks s)) = {}"
      using covered_apart [OF ap] covered_apart [of new "map orange (ihk_mem_used_chunks s)"] ap
      by (auto simp: free_bytes_def apart_list_append)
    moreover have "os_bytes s h \<subseteq> covered (map orange (ihk_mem_used_chunks s))"
      by (auto simp: os_bytes_def covered_def)
    moreover have "os_bytes s' h = covered new \<union> os_bytes s h"
      using os_bytes_mset [OF new(2)] by simp
    ultimately have "os_bytes s' h - os_bytes s h = covered new" "covered new \<inter> free_bytes s' = {}" "os_bytes s h \<subseteq> os_bytes s' h"
      by auto
    with carvedD(2) [OF new(1)] card_covered [OF ap'] new(3) not_all wf' others True show ?thesis
      by (auto simp: free_bytes_def)
  next
    case False
    with spec assms(4) have res: "r = err ENOMEM" "ihk_mem_used_chunks s' = ihk_mem_used_chunks s" "d' = d"
      "P = (\<lambda>_. None) \<longrightarrow> free_bytes s' = free_bytes s" by auto
    from res(2) have os: "os_bytes s' = os_bytes s"
      by (simp add: os_bytes_def fun_eq_iff)
    have "free_bytes s' \<inter> os_bytes s' h = {}"
      using wf' covered_apart [of "map frange (ihk_mem_free_chunks s')" "map orange (ihk_mem_used_chunks s')"]
      by (auto simp: mem_wf_def ok_ranges_def ranges_def free_bytes_def os_bytes_def covered_def)
    with moves os have "free_bytes s' \<subseteq> free_bytes s"
      by (auto simp: mem_moves_def)
    with False wf' res os show ?thesis by simp
  qed
qed

lemma demo_wf: "mem_wf (mem_state [free_chunk 16 1, free_chunk 32 4] [os_chunk 2 64 1])"
  by (simp add: demo_mem_defs) auto

lemma demo_assign_mem:
  "\<exists>d'. os_assign_mem (\<lambda>_. True) (\<lambda>_. None) far 1 (3 * PAGE_SIZE) 0 (mem_state [free_chunk 16 1, free_chunk 32 4] [os_chunk 2 64 1], new_os_data) =
     Some (0, mem_state [free_chunk 16 1, free_chunk 35 1] [os_chunk 1 32 3, os_chunk 2 64 1], d')"
  by (simp add: os_assign_mem_def assign_loop.simps leftover_def Let_def free_chunk_def os_chunk_def PAGE_SIZE_def)

theorem os_assign_mem_exact_witness:
  "card (os_bytes (mem_state [free_chunk 16 1, free_chunk 35 1] [os_chunk 1 32 3, os_chunk 2 64 1]) 1 -
     os_bytes (mem_state [free_chunk 16 1, free_chunk 32 4] [os_chunk 2 64 1]) 1) = 3 * PAGE_SIZE"
proof -
  obtain d' where a: "os_assign_mem (\<lambda>_. True) (\<lambda>_. None) far 1 (3 * PAGE_SIZE) 0 (mem_state [free_chunk 16 1, free_chunk 32 4] [os_chunk 2 64 1], new_os_data) =
     Some (0, mem_state [free_chunk 16 1, free_chunk 35 1] [os_chunk 1 32 3, os_chunk 2 64 1], d')"
    using demo_assign_mem by blast
  from os_assign_mem_exact [OF a demo_wf] show ?thesis
    by (simp add: pages_ok_def)
qed



text \<open>
  Property C32. Merging ends, unless the list head looks like a chunk behind the last one, and
  then no two neighbours can be merged any more; the same bytes are free, the list is still sorted and
  its chunks are apart.
\<close>

theorem merge_mem_chunks_normal:
  assumes "\<forall>c \<in> set cs. ch_addr c + ch_size c \<le> B" and "B < ch_addr behind"
  shows "\<exists>cs'. merge_mem_chunks behind cs = Some cs' \<and> unmergeable cs' \<and>
    covered (map frange cs') = covered (map frange cs) \<and>
    (sorted (map ch_addr cs) \<longrightarrow> sorted (map ch_addr cs')) \<and>
    (ok_ranges (map frange cs) \<longrightarrow> ok_ranges (map frange cs'))"
proof -
  from merge_mem_chunks_defined [of cs B behind] assms obtain cs' where cs': "merge_mem_chunks behind cs = Some cs'" by blast
  from merge_mem_chunks_spec [OF this] have "carved cs [] cs'" "covered (map frange cs') = covered (map frange cs)" "unmergeable cs'" by auto
  with cs' carvedD(1) [OF this(1), of "[]"] carvedD(3) [OF this(1)] show ?thesis by simp
qed

theorem merge_mem_chunks_normal_witness:
  "\<exists>cs'. merge_mem_chunks far [free_chunk 1 1, free_chunk 2 3, free_chunk 5 1, free_chunk 9 1] = Some cs' \<and> unmergeable cs' \<and>
    covered (map frange cs') = covered (map frange [free_chunk 1 1, free_chunk 2 3, free_chunk 5 1, free_chunk 9 1])"
  using merge_mem_chunks_normal [of "[free_chunk 1 1, free_chunk 2 3, free_chunk 5 1, free_chunk 9 1]" "16 * PAGE_SIZE" far]
  by (auto simp: free_chunk_def far_def PAGE_SIZE_def)




text \<open>A range is mapped exactly when it lies in one chunk of an instance.\<close>

lemma map_virtual_spec:
  assumes "phys + sz < 2 ^ 64"
  shows "ihk_smp_map_virtual phys sz s =
     (if \<exists>c \<in> set (ihk_mem_used_chunks s). inside (phys, sz) (orange c) then Some phys else None)"
proof -
  have eq: "ihk_smp_map_virtual phys sz s =
     (case find (\<lambda>c. inside (phys, sz) (orange c)) (ihk_mem_used_chunks s) of
        None \<Rightarrow> None | Some c \<Rightarrow> Some (oc_addr c + (phys - oc_addr c)))"
    using assms by (simp add: ihk_smp_map_virtual_def orange_def)
  show ?thesis
  proof (cases "find (\<lambda>c. inside (phys, sz) (orange c)) (ihk_mem_used_chunks s)")
    case None
    with eq show ?thesis
      by (auto simp: find_None_iff)
  next
    case (Some c)
    then have "c \<in> set (ihk_mem_used_chunks s)" "inside (phys, sz) (orange c)"
      by (auto simp: find_Some_iff)
    moreover from this(2) have "oc_addr c \<le> phys"
      by (simp add: orange_def)
    ultimately show ?thesis
      using eq Some by auto
  qed
qed

text \<open>
  Property C35. The two steps of a query. Asked with no room, the driver tells how many chunks there are. A query of an
  instance's chunks with room for exactly that many fills the arrays with their sizes and nodes, and one with any other room is
  refused. A query of the free chunks does not look at the room the caller declared: it writes as many elements as there
  are chunks.
\<close>

theorem query_mem_protocol:
  assumes "kmalloc_ok L 0" and "kmalloc_ok L 1" and "validate_mem_req req = 0" and "req_sizes req = Some sizes" and "req_numa_ids req = Some ids"
    and "0 < n" and "req_num_chunks req = int n" and "length sizes = room" and "length ids = room"
    and "cs = filter (\<lambda>c. oc_os c = h) (ihk_mem_used_chunks s)" and "fs = ihk_mem_free_chunks s"
  shows "smp_ihk_os_query_mem L h (Some (req\<lparr>req_num_chunks := 0\<rparr>)) s = (0, Some (req\<lparr>req_num_chunks := int (length cs)\<rparr>)) \<and>
    smp_ihk_os_query_mem L h (Some req) s =
      (if n \<noteq> length cs then (err EINVAL, Some req)
       else if room < n then (err EFAULT, Some req)
       else (0, Some (req\<lparr>req_sizes := Some (map oc_size cs @ drop n sizes), req_numa_ids := Some (map oc_numa_id cs @ drop n ids)\<rparr>))) \<and>
    smp_ihk_query_mem L (Some (req\<lparr>req_num_chunks := 0\<rparr>)) s = (0, Some (req\<lparr>req_num_chunks := int (length fs)\<rparr>)) \<and>
    (fs \<noteq> [] \<longrightarrow> smp_ihk_query_mem L (Some req) s =
      (if room < length fs then (err EFAULT, Some req)
       else (0, Some (req\<lparr>req_sizes := Some (map ch_size fs @ drop (length fs) sizes),
         req_numa_ids := Some (map ch_numa_id fs @ drop (length fs) ids), req_num_chunks := int (length fs)\<rparr>))))"
proof -
  have v: "validate_mem_req (req\<lparr>req_num_chunks := 0\<rparr>) = 0"
    using assms(3) by (simp add: validate_mem_req_def split: if_splits)
  have n: "req\<lparr>req_num_chunks := int n\<rparr> = req"
    using assms(7) by simp
  have "smp_ihk_os_query_mem L h (Some req) s =
      (if n \<noteq> length cs then (err EINVAL, Some req)
       else if room < n then (err EFAULT, Some req)
       else (0, Some (req\<lparr>req_sizes := Some (map oc_size cs @ drop n sizes), req_numa_ids := Some (map oc_numa_id cs @ drop n ids)\<rparr>)))"
    using assms(1-9) n unfolding assms(10) [symmetric]
    by (auto simp: smp_ihk_os_query_mem_def Let_def report_chunks_def copy_to_user_def comp_def assms(10) [symmetric])
  moreover have "fs \<noteq> [] \<longrightarrow> smp_ihk_query_mem L (Some req) s =
      (if room < length fs then (err EFAULT, Some req)
       else (0, Some (req\<lparr>req_sizes := Some (map ch_size fs @ drop (length fs) sizes),
         req_numa_ids := Some (map ch_numa_id fs @ drop (length fs) ids), req_num_chunks := int (length fs)\<rparr>)))"
    using assms(1-9) by (auto simp: smp_ihk_query_mem_def Let_def report_chunks_def copy_to_user_def comp_def assms(11))
  ultimately show ?thesis
    using v assms(1-3) by (simp add: smp_ihk_os_query_mem_def smp_ihk_query_mem_def Let_def assms(10,11))
qed

definition demo_req :: "nat list \<Rightarrow> int list \<Rightarrow> int \<Rightarrow> ihk_mem_req" where
  "demo_req sizes ids n = \<lparr>req_sizes = Some sizes, req_numa_ids = Some ids, req_num_chunks = n,
     req_min_chunk_size = 4096, req_max_size_ratio_all = 98, req_timeout = 30\<rparr>"

lemma demo_req_simps [simp]:
  "req_sizes (demo_req sizes ids n) = Some sizes" "req_numa_ids (demo_req sizes ids n) = Some ids"
  "req_num_chunks (demo_req sizes ids n) = n" "0 \<le> n \<Longrightarrow> validate_mem_req (demo_req sizes ids n) = 0"
  "(demo_req sizes ids n)\<lparr>req_sizes := Some sizes', req_numa_ids := Some ids', req_num_chunks := n'\<rparr> = demo_req sizes' ids' n'"
  by (simp_all add: demo_req_def validate_mem_req_def IHK_RESERVE_MEM_MAX_SIZE_RATIO_ALL_LIMIT_def)

theorem query_mem_protocol_witness:
  "smp_ihk_query_mem demo_lnx (Some (demo_req [7, 8, 9] [7, 8, 9] 1)) (mem_state [free_chunk 16 1, free_chunk 32 4] [os_chunk 2 64 1]) =
     (0, Some (demo_req [4096, 16384, 9] [0, 0, 9] 2))"
  using query_mem_protocol [of demo_lnx "demo_req [7, 8, 9] [7, 8, 9] 1" "[7, 8, 9]" "[7, 8, 9]" 1 3, OF _ _ _ _ _ _ _ _ _ refl refl,
      of 2 "mem_state [free_chunk 16 1, free_chunk 32 4] [os_chunk 2 64 1]"]
  by (simp add: free_chunk_def PAGE_SIZE_def)

end
