(* ===== verification/Smp_Reserve.thy ===== *)
theory Smp_Reserve
  imports Smp_Mem "HOL-Library.Tree"
begin

text \<open>
  Reserving memory in Linux and giving part of it back,
  \<^verbatim>\<open>linux/driver/smp/smp-driver.c\<close>, \<open>__mem_chunk_insert\<close>, \<open>__ihk_smp_reserve_mem\<close>,
  \<open>__ihk_smp_release_mem_partially\<close> and their requests.

  Here the headers of chunks matter: a header lies in the memory of its chunk, the nodes of the temporary
  tree are headers, and inserting a chunk changes the headers of its neighbours in place. A header is named by its
  physical address, and \<open>heads\<close> is their contents. Linux's red-black trees are a parameter, \<open>rb_ops\<close>: how they
  are balanced and what a tree looks like after an element is erased; what the code relies on is that the order of the elements is
  kept (\<open>rb_ok\<close>). What Linux's page allocator answers, round by round, is a list of events.
\<close>

section \<open>The tree of chunks\<close>

type_synonym heads = "nat \<Rightarrow> chunk"

record rb_ops =
  rb_insert_color :: "nat tree \<Rightarrow> nat tree"
  rb_erase :: "nat \<Rightarrow> nat tree \<Rightarrow> nat tree"

definition rb_ok :: "rb_ops \<Rightarrow> bool" where
  "rb_ok B \<longleftrightarrow> (\<forall>t. inorder (rb_insert_color B t) = inorder t) \<and>
     (\<forall>p t. inorder (rb_erase B p t) = remove1 p (inorder t))"

definition chunk_end :: "chunk \<Rightarrow> nat" where
  "chunk_end c = ch_addr c + ch_size c"

text \<open>Where a new chunk goes: to the right or the left of a chunk that it continues, or to a new node.\<close>

datatype spot = Right_of nat | Left_of nat | Link "nat tree"

fun find_spot :: "heads \<Rightarrow> nat \<Rightarrow> nat tree \<Rightarrow> spot" where
  "find_spot m p \<langle>\<rangle> = Link \<langle>\<langle>\<rangle>, p, \<langle>\<rangle>\<rangle>"
| "find_spot m p \<langle>l, i, r\<rangle> =
     (if chunk_end (m i) = ch_addr (m p) then Right_of i
      else if chunk_end (m p) = ch_addr (m i) then Left_of i
      else if ch_addr (m p) < ch_addr (m i)
      then (case find_spot m p l of Link l' \<Rightarrow> Link \<langle>l', i, r\<rangle> | x \<Rightarrow> x)
      else (case find_spot m p r of Link r' \<Rightarrow> Link \<langle>l, i, r'\<rangle> | x \<Rightarrow> x))"

fun next_of :: "nat \<Rightarrow> nat list \<Rightarrow> nat option" where
  "next_of i (x # y # ys) = (if x = i then Some y else next_of i (y # ys))"
| "next_of i xs = None"

definition rb_next :: "nat \<Rightarrow> nat tree \<Rightarrow> nat option" where
  "rb_next i t = next_of i (inorder t)"

definition rb_prev :: "nat \<Rightarrow> nat tree \<Rightarrow> nat option" where
  "rb_prev i t = next_of i (rev (inorder t))"

definition mem_chunk_insert :: "rb_ops \<Rightarrow> nat \<Rightarrow> heads \<times> nat tree \<Rightarrow> heads \<times> nat tree" where
  "mem_chunk_insert B p = (\<lambda>(m, t).
     case find_spot m p t of
       Right_of i \<Rightarrow>
         let m = m(i := (m i)\<lparr>ch_size := ch_size (m i) + ch_size (m p)\<rparr>) in
         (case rb_next i t of
            None \<Rightarrow> (m, t)
          | Some r \<Rightarrow>
              if chunk_end (m i) = ch_addr (m r)
              then (m(i := (m i)\<lparr>ch_size := ch_size (m i) + ch_size (m r)\<rparr>), rb_erase B r t)
              else (m, t))
     | Left_of i \<Rightarrow>
         let m = m(i := (m i)\<lparr>ch_addr := ch_addr (m i) - ch_size (m p), ch_size := ch_size (m i) + ch_size (m p)\<rparr>) in
         (case rb_prev i t of
            None \<Rightarrow> (m, t)
          | Some l \<Rightarrow>
              if chunk_end (m l) = ch_addr (m i)
              then (m(i := (m i)\<lparr>ch_addr := ch_addr (m i) - ch_size (m l), ch_size := ch_size (m i) + ch_size (m l)\<rparr>),
                    rb_erase B l t)
              else (m, t))
     | Link t' \<Rightarrow> (m, rb_insert_color B t'))"

text \<open>The size of the largest chunk of the tree, and the first chunk that has it.\<close>

fun max_scan :: "heads \<Rightarrow> nat list \<Rightarrow> nat \<times> nat option \<Rightarrow> nat \<times> nat option" where
  "max_scan m [] acc = acc"
| "max_scan m (i # is) acc = max_scan m is (if ch_size (m i) > fst acc then (ch_size (m i), Some i) else acc)"

definition max_size_mem_chunk :: "heads \<times> nat tree \<Rightarrow> nat" where
  "max_size_mem_chunk mt = fst (max_scan (fst mt) (inorder (snd mt)) (0, None))"

section \<open>Reserving memory\<close>

definition IHK_SMP_CHUNK_BASE_SIZE :: nat where
  "IHK_SMP_CHUNK_BASE_SIZE = 4194304"

definition IHK_RESERVE_MEM_GRANULE :: nat where
  "IHK_RESERVE_MEM_GRANULE = 4 * 2 ^ 20"

definition RESERVE_MEM_FAILED_ATTEMPTS :: nat where
  "RESERVE_MEM_FAILED_ATTEMPTS = 1"

definition USE_TRY_TO_FREE_PAGES_TIME_LIMIT :: nat where
  "USE_TRY_TO_FREE_PAGES_TIME_LIMIT = 2"

text \<open>The order of a block that holds \<open>sz\<close> bytes; of none, Linux's answer is the width of a page number.\<close>

definition get_order :: "nat \<Rightarrow> nat" where
  "get_order sz = (if sz = 0 then 52 else fls ((sz - 1) div PAGE_SIZE))"

text \<open>What Linux provides: its trees, its pages, and facts about nodes.\<close>

record lnx_mem =
  rb :: rb_ops
  comp_pages :: pages
  node_online :: "int \<Rightarrow> bool"
  num_online_nodes :: nat
  node_free_mem :: "int \<Rightarrow> nat"
  has_try_to_free :: bool
  MAX_ORDER :: nat

text \<open>
  One round of the allocation loop: the block that one of the attempts to allocate returned, if
  any; and if none did, how many pages an attempt to make room has freed and how long it took, and the time since the start.
\<close>

record alloc_try =
  at_page :: "nat option"
  at_freed :: nat
  at_free_secs :: nat
  at_now :: nat

record reserve_state =
  rs_order :: nat
  rs_allocated :: nat
  rs_failed :: nat
  rs_secs :: nat
  rs_tmp :: "heads \<times> nat tree"
  rs_got :: "(nat \<times> nat) list"

text \<open>The arguments that stay the same during the loop. The last field of the state above logs the blocks obtained.\<close>

record reserve_arg =
  ra_want :: nat
  ra_numa :: int
  ra_ratio :: nat
  ra_limit :: nat
  ra_timeout :: int

definition grabbed_enough :: "lnx_mem \<Rightarrow> reserve_arg \<Rightarrow> nat \<Rightarrow> bool" where
  "grabbed_enough M A allocated \<longleftrightarrow>
     ra_numa A = 0 \<and> allocated > node_free_mem M (ra_numa A) * 95 div 100 \<or>
     ra_want A = IHK_SMP_MEM_ALL \<and> allocated > node_free_mem M (ra_numa A) * ra_ratio A div 100"

definition may_try_to_free :: "lnx_mem \<Rightarrow> reserve_arg \<Rightarrow> reserve_state \<Rightarrow> bool" where
  "may_try_to_free M A st \<longleftrightarrow>
     num_online_nodes M > 1 \<and> ra_numa A > 0 \<and> has_try_to_free M \<and>
     rs_failed st < RESERVE_MEM_FAILED_ATTEMPTS \<and> rs_secs st < USE_TRY_TO_FREE_PAGES_TIME_LIMIT \<and> rs_order st > 0"

text \<open>The label \<open>pre_out\<close>: is there enough in several chunks?\<close>

definition pre_out :: "reserve_arg \<Rightarrow> reserve_state \<Rightarrow> int \<times> reserve_state" where
  "pre_out A st = (if rs_allocated st \<ge> ra_want A \<or> ra_want A = IHK_SMP_MEM_ALL then 0 else err ENOMEM, st)"

definition add_block :: "lnx_mem \<Rightarrow> reserve_arg \<Rightarrow> nat \<Rightarrow> reserve_state \<Rightarrow> reserve_state" where
  "add_block M A a st =
     (let sz = PAGE_SIZE * 2 ^ rs_order st; (m, t) = rs_tmp st in
      st\<lparr>rs_failed := 0, rs_allocated := rs_allocated st + sz,
        rs_tmp := mem_chunk_insert (rb M) a (m(a := \<lparr>ch_addr = a, ch_size = sz, ch_numa_id = ra_numa A\<rparr>), t),
        rs_got := (a, sz) # rs_got st\<rparr>)"

text \<open>The loop that allocates; \<open>None\<close> means that it is still running after the rounds given.\<close>

fun alloc_rounds :: "lnx_mem \<Rightarrow> reserve_arg \<Rightarrow> alloc_try list \<Rightarrow> reserve_state \<Rightarrow> (int \<times> reserve_state) option" where
  "alloc_rounds M A tries st =
     (if \<not> max_size_mem_chunk (rs_tmp st) < ra_want A then Some (0, st)
      else if grabbed_enough M A (rs_allocated st) then Some (pre_out A st)
      else
        (case tries of
           [] \<Rightarrow> None
         | t # tries \<Rightarrow>
             (case at_page t of
                Some a \<Rightarrow> alloc_rounds M A tries (add_block M A a st)
              | None \<Rightarrow>
                  if may_try_to_free M A st
                  then alloc_rounds M A tries
                    (st\<lparr>rs_secs := rs_secs st + at_free_secs t,
                      rs_failed := (if at_freed t \<le> 1 then rs_failed st + 1 else rs_failed st)\<rparr>)
                  else if rs_order st > ra_limit A
                  then let st = st\<lparr>rs_order := rs_order st - 1, rs_failed := 0\<rparr> in
                    if int (at_now t) < ra_timeout A \<or> ra_timeout A < 0 then alloc_rounds M A tries st
                    else Some (pre_out A st)
                  else Some (pre_out A st))))"

declare alloc_rounds.simps [simp del]

text \<open>
  The part of the largest chunk that is not needed. It starts at a page that is not inside a compound page; the address is
  behind the start of the chunk because a compound page contains its pages.
\<close>

definition leftover_addr :: "pages \<Rightarrow> nat \<Rightarrow> nat" where
  "leftover_addr P a =
     (case P (page_of a) of
        Some (head, comp_size) \<Rightarrow> if head = page_of a then a else head + comp_size
      | None \<Rightarrow> a)"

lemma max_scan_some:
  "max_scan m is (b, acc) = (mx, Some p) \<Longrightarrow> (p \<in> set is \<and> mx = ch_size (m p) \<and> b < mx) \<or> acc = Some p \<and> mx = b"
  by (induction m "is" "(b, acc)" arbitrary: b acc rule: max_scan.induct) (fastforce split: if_splits)+

text \<open>The loop that moves the largest chunks to the free list until there is enough.\<close>

function move_rounds ::
  "rb_ops \<Rightarrow> pages \<Rightarrow> nat \<Rightarrow> nat \<Rightarrow> heads \<times> nat tree \<Rightarrow> chunk list \<Rightarrow> ((heads \<times> nat tree) \<times> chunk list) option" where
  "move_rounds B P want allocated mt free =
     (if \<not> allocated < want then Some (mt, free)
      else
        (case max_scan (fst mt) (inorder (snd mt)) (0, None) of
           (mx, None) \<Rightarrow> Some (mt, free)
         | (mx, Some p) \<Rightarrow>
             let c = fst mt p; t = rb_erase B p (snd mt);
                 m = (fst mt)(ch_addr c := c);
                 a = leftover_addr P (ch_addr c + (want - allocated))
             in
             if allocated + mx > want \<and> a < ch_addr c + mx
             then if a \<le> ch_addr c then None
               else move_rounds B P want (allocated + (a - ch_addr c))
                 (mem_chunk_insert B a (m(a := c\<lparr>ch_addr := a, ch_size := ch_addr c + mx - a\<rparr>), t))
                 (insert_before ch_addr (c\<lparr>ch_size := a - ch_addr c\<rparr>) free)
             else move_rounds B P want (allocated + mx) (m, t) (insert_before ch_addr c free)))"
  by pat_completeness auto

termination
  by (relation "measure (\<lambda>(B, P, want, allocated, mt, free). want - allocated)")
    (auto dest!: max_scan_some [OF sym])

declare move_rounds.simps [simp del]

fun free_chunks :: "pages \<Rightarrow> chunk list \<Rightarrow> 'a smp_mem_scheme \<Rightarrow> 'a smp_mem_scheme option" where
  "free_chunks P [] s = Some s"
| "free_chunks P (c # cs) s = Option.bind (ihk_smp_release_chunk P c s) (free_chunks P cs)"

definition smp_ihk_free_mem_from_rbtree :: "pages \<Rightarrow> heads \<times> nat tree \<Rightarrow> 'a smp_mem_scheme \<Rightarrow> 'a smp_mem_scheme option" where
  "smp_ihk_free_mem_from_rbtree P mt s = free_chunks P (map (fst mt) (inorder (snd mt))) s"

definition round_to_base :: "nat \<Rightarrow> nat" where
  "round_to_base n =
     (let b = PAGE_SIZE * 2 ^ get_order IHK_SMP_CHUNK_BASE_SIZE in (n + (b - 1)) mod 2 ^ 64 div b * b)"

text \<open>The result also has the blocks that were obtained from Linux.\<close>

definition ihk_smp_reserve_mem ::
  "lnx_mem \<Rightarrow> alloc_try list \<Rightarrow> heads \<Rightarrow> nat \<Rightarrow> int \<Rightarrow> int \<Rightarrow> int \<Rightarrow> int \<Rightarrow> 'a smp_mem_scheme \<Rightarrow>
     (int \<times> (nat \<times> nat) list \<times> 'a smp_mem_scheme) option" where
  "ihk_smp_reserve_mem M tries m ihk_mem numa_id min_chunk_size max_size_ratio_all timeout s =
     (let order_limit = get_order (nat min_chunk_size);
          want = (if ihk_mem = IHK_SMP_MEM_ALL then ihk_mem else round_to_base ihk_mem);
          A = \<lparr>ra_want = want, ra_numa = numa_id, ra_ratio = nat max_size_ratio_all,
            ra_limit = order_limit, ra_timeout = timeout\<rparr>;
          st = \<lparr>rs_order = get_order IHK_SMP_CHUNK_BASE_SIZE, rs_allocated = 0, rs_failed = 0, rs_secs = 0,
            rs_tmp = (m, \<langle>\<rangle>), rs_got = []\<rparr>
      in
      if order_limit > MAX_ORDER M then Some (err EINVAL, [], s)
      else if \<not> node_online M numa_id then Some (err EINVAL, [], s)
      else do {
        (ret, st) \<leftarrow> alloc_rounds M A tries st;
        (mt, free) \<leftarrow>
          (if ret \<noteq> 0 then Some (rs_tmp st, ihk_mem_free_chunks s)
           else move_rounds (rb M) (comp_pages M) want 0 (rs_tmp st) (ihk_mem_free_chunks s));
        s \<leftarrow> smp_ihk_free_mem_from_rbtree (comp_pages M) mt (s\<lparr>ihk_mem_free_chunks := free\<rparr>);
        Some (ret, rs_got st, s)
      })"

text \<open>The request: sizes are multiples of the granule, or everything.\<close>

fun reserve_each ::
  "lnx_mem \<Rightarrow> (nat \<Rightarrow> alloc_try list) \<Rightarrow> heads \<Rightarrow> ihk_mem_req \<Rightarrow> (nat \<times> int) list \<Rightarrow> nat \<Rightarrow> 'a smp_mem_scheme \<Rightarrow>
     (int \<times> (nat \<times> nat) list \<times> 'a smp_mem_scheme) option" where
  "reserve_each M tries m req [] i s = Some (0, [], s)"
| "reserve_each M tries m req ((sz, numa_id) # rs) i s = do {
     (ret, got, s) \<leftarrow> ihk_smp_reserve_mem M (tries i) m sz numa_id
       (req_min_chunk_size req) (req_max_size_ratio_all req) (req_timeout req) s;
     if ret \<noteq> 0 then Some (ret, got, s)
     else do {
       (ret, got', s) \<leftarrow> reserve_each M tries m req rs (i + 1) s;
       Some (ret, got' @ got, s)
     }
   }"

definition smp_ihk_reserve_mem ::
  "lnx \<Rightarrow> lnx_mem \<Rightarrow> (nat \<Rightarrow> alloc_try list) \<Rightarrow> heads \<Rightarrow> ihk_mem_req option \<Rightarrow> 'a smp_mem_scheme \<Rightarrow>
     (int \<times> (nat \<times> nat) list \<times> 'a smp_mem_scheme) option" where
  "smp_ihk_reserve_mem L M tries m arg s =
     (case get_mem_req L (err ENOMEM) (err EFAULT) (err EFAULT) arg of
        Inl ret \<Rightarrow> Some (ret, [], s)
      | Inr rs \<Rightarrow>
          if \<exists>r \<in> set rs. fst r \<noteq> IHK_SMP_MEM_ALL \<and> fst r mod IHK_RESERVE_MEM_GRANULE \<noteq> 0
          then Some (err EINVAL, [], s)
          else reserve_each M tries m (the arg) rs 0 s)"

section \<open>Giving part of the memory back\<close>

text \<open>
  Pages are given back from the start of a chunk; the result is how much was
  taken. The remaining size is unsigned: \<open>None\<close> when it would wrap around.
\<close>

function shrink_loop :: "pages \<Rightarrow> nat \<Rightarrow> nat \<Rightarrow> nat \<Rightarrow> (nat \<times> nat) list \<Rightarrow> (nat \<times> (nat \<times> nat) list) option" where
  "shrink_loop P va size_left size_taken freed =
     (case P (page_of va) of
        None \<Rightarrow>
          if size_left < PAGE_SIZE then None
          else if size_left = PAGE_SIZE then Some (size_taken + PAGE_SIZE, (va, PAGE_SIZE) # freed)
          else shrink_loop P (va + PAGE_SIZE) (size_left - PAGE_SIZE) (size_taken + PAGE_SIZE) ((va, PAGE_SIZE) # freed)
      | Some (head, order_size) \<Rightarrow>
          if head \<noteq> page_of va then Some (size_taken, freed)
          else if size_left < order_size then Some (size_taken, freed)
          else if size_left < IHK_RESERVE_MEM_GRANULE \<and> va mod IHK_RESERVE_MEM_GRANULE = 0 then Some (size_taken, freed)
          else if size_left = order_size then Some (size_taken + order_size, (va, order_size) # freed)
          else if order_size = 0 then None
          else shrink_loop P (va + order_size) (size_left - order_size) (size_taken + order_size) ((va, order_size) # freed))"
  by pat_completeness auto

termination
  by (relation "measure (\<lambda>(P, va, size_left, size_taken, freed). size_left)") (auto simp: PAGE_SIZE_def)

declare shrink_loop.simps [simp del]

text \<open>The smallest chunk of a node among those in the tree; from here on only the order in the tree matters.\<close>

fun min_scan :: "heads \<Rightarrow> int \<Rightarrow> nat list \<Rightarrow> nat \<times> nat option \<Rightarrow> nat \<times> nat option" where
  "min_scan m numa_id [] acc = acc"
| "min_scan m numa_id (i # is) acc =
     min_scan m numa_id is
       (if ch_numa_id (m i) \<noteq> numa_id then acc
        else if ch_size (m i) < fst acc then (ch_size (m i), Some i) else acc)"

lemma min_scan_in: "min_scan m numa_id is (b, acc) = (mn, Some p) \<Longrightarrow> p \<in> set is \<or> acc = Some p"
  by (induction m numa_id "is" "(b, acc)" arbitrary: b acc rule: min_scan.induct) (auto split: if_splits)

text \<open>A header moves to a new place, and in the list to the place of its address.\<close>

definition move_chunk_header :: "nat \<Rightarrow> nat \<Rightarrow> heads \<times> nat list \<Rightarrow> heads \<times> nat list" where
  "move_chunk_header old new = (\<lambda>(m, ps).
     let m = m(new := m old) in (m, insert_before (\<lambda>p. ch_addr (m p)) new (remove1 old ps)))"

function partial_rounds ::
  "pages \<Rightarrow> int \<Rightarrow> nat \<Rightarrow> nat list \<Rightarrow> heads \<times> nat list \<Rightarrow> (nat \<times> nat) list \<Rightarrow>
     (int \<times> (heads \<times> nat list) \<times> (nat \<times> nat) list) option" where
  "partial_rounds P numa_id size_left is mps freed =
     (case min_scan (fst mps) numa_id is (2 ^ 64 - 1, None) of
        (_, None) \<Rightarrow> Some (-1, mps, freed)
      | (_, Some p) \<Rightarrow>
          let c = fst mps p in
          if ch_size c \<le> size_left then do {
            freed \<leftarrow> free_pages_loop P (ch_addr c) (ch_size c) freed;
            let mps = (fst mps, remove1 p (snd mps));
            let size_left = size_left - ch_size c;
            if size_left = 0 then Some (0, mps, freed)
            else partial_rounds P numa_id size_left (remove1 p is) mps freed
          }
          else do {
            (size_taken, freed) \<leftarrow> shrink_loop P (ch_addr c) size_left 0 freed;
            let (p', m, ps) = (if size_taken > 0 then (p + size_taken, move_chunk_header p (p + size_taken) mps) else (p, mps));
            Some (0, (m(p' := (m p')\<lparr>ch_addr := ch_addr (m p') + size_taken, ch_size := ch_size (m p') - size_taken\<rparr>), ps), freed)
          })"
  by pat_completeness auto

termination
  by (relation "measure (\<lambda>(P, numa_id, size_left, is, mps, freed). length is)")
    (auto simp: length_remove1 dest!: min_scan_in [OF sym] dest: length_pos_if_in_set)

declare partial_rounds.simps [simp del]

text \<open>The headers of the free chunks, each at the start of its chunk.\<close>

definition free_heads :: "heads \<Rightarrow> chunk list \<Rightarrow> heads" where
  "free_heads m cs = fold (\<lambda>c m. m(ch_addr c := c)) cs m"

definition ihk_smp_release_mem_partially ::
  "lnx_mem \<Rightarrow> heads \<Rightarrow> nat \<Rightarrow> int \<Rightarrow> 'a smp_mem_scheme \<Rightarrow> (int \<times> 'a smp_mem_scheme) option" where
  "ihk_smp_release_mem_partially M m ihk_mem numa_id s =
     (let ps = map ch_addr (ihk_mem_free_chunks s);
          (m, t) = fold (mem_chunk_insert (rb M)) ps (free_heads m (ihk_mem_free_chunks s), \<langle>\<rangle>)
      in do {
        (ret, (m, ps), freed) \<leftarrow> partial_rounds (comp_pages M) numa_id ihk_mem (inorder t) (m, ps) (pages_freed s);
        Some (ret, s\<lparr>ihk_mem_free_chunks := map m ps, pages_freed := freed\<rparr>)
      })"

fun partially_each :: "lnx_mem \<Rightarrow> heads \<Rightarrow> (nat \<times> int) list \<Rightarrow> 'a smp_mem_scheme \<Rightarrow> (int \<times> 'a smp_mem_scheme) option" where
  "partially_each M m [] s = Some (0, s)"
| "partially_each M m ((sz, numa_id) # rs) s =
     (if sz > 0 then do {
        (ret, s) \<leftarrow> ihk_smp_release_mem_partially M m sz numa_id s;
        if ret \<noteq> 0 then Some (err EINVAL, s) else partially_each M m rs s
      }
      else partially_each M m rs s)"

text \<open>Unlike the other requests this one does not treat a request without chunks apart.\<close>

definition smp_ihk_release_mem_partially ::
  "lnx \<Rightarrow> lnx_mem \<Rightarrow> heads \<Rightarrow> ihk_mem_req option \<Rightarrow> 'a smp_mem_scheme \<Rightarrow> (int \<times> 'a smp_mem_scheme) option" where
  "smp_ihk_release_mem_partially L M m arg s =
     (case arg of
        None \<Rightarrow> Some (err EFAULT, s)
      | Some req \<Rightarrow>
          let n = nat (req_num_chunks req) in
          if validate_mem_req req \<noteq> 0 then Some (err EINVAL, s)
          else if \<not> kmalloc_ok L 0 \<or> \<not> kmalloc_ok L 1 then Some (err ENOMEM, s)
          else if n = 0 then Some (0, s)
          else
            (case copy_from_user (the (req_sizes req)) n of
               None \<Rightarrow> Some (err EFAULT, s)
             | Some sizes \<Rightarrow>
                 (case copy_from_user (the (req_numa_ids req)) n of
                    None \<Rightarrow> Some (err EFAULT, s)
                  | Some numa_ids \<Rightarrow> partially_each M m (zip sizes numa_ids) s)))"

section \<open>Runs\<close>

text \<open>
  The contract of the tree: in order, its chunks are runs with a gap between any two, and a new chunk is joined with
  the runs that it touches.
\<close>

definition gap :: "range \<Rightarrow> range \<Rightarrow> bool" where
  "gap r q \<longleftrightarrow> fst r + snd r < fst q"

definition runs :: "range list \<Rightarrow> bool" where
  "runs rs \<longleftrightarrow> sorted_wrt gap rs \<and> (\<forall>r \<in> set rs. 0 < snd r)"

fun insert_run :: "range \<Rightarrow> range list \<Rightarrow> range list" where
  "insert_run r [] = [r]"
| "insert_run (a, n) ((b, k) # rs) =
     (if b + k < a then (b, k) # insert_run (a, n) rs
      else if b + k = a then
        (case rs of
           (b', k') # rs' \<Rightarrow> if a + n = b' then (b, k + n + k') # rs' else (b, k + n) # rs
         | [] \<Rightarrow> [(b, k + n)])
      else if a + n = b then (a, n + k) # rs
      else (a, n) # (b, k) # rs)"

lemma runs_append:
  "runs (xs @ ys) \<longleftrightarrow> runs xs \<and> runs ys \<and> (\<forall>x \<in> set xs. \<forall>y \<in> set ys. gap x y)"
  by (auto simp: runs_def sorted_wrt_append)

lemma runs_Cons: "runs (x # ys) \<longleftrightarrow> 0 < snd x \<and> runs ys \<and> (\<forall>y \<in> set ys. gap x y)"
  by (auto simp: runs_def)

lemma gap_trans: "gap r q \<Longrightarrow> 0 < snd q \<Longrightarrow> gap q x \<Longrightarrow> gap r x"
  by (simp add: gap_def)

lemma gap_apart: "gap r q \<Longrightarrow> apart r q"
  by (cases r; cases q) (simp add: gap_def)

lemma runs_apart: "runs rs \<Longrightarrow> apart_list rs"
  by (induction rs) (auto simp: runs_Cons gap_apart)

lemma insert_run_skip: "\<forall>u \<in> set us. gap u r \<Longrightarrow> insert_run r (us @ rs) = us @ insert_run r rs"
  by (induction us) (cases r; auto simp: gap_def)+

lemma insert_run_front: "0 < snd r \<Longrightarrow> \<forall>q \<in> set rs. gap r q \<and> 0 < snd q \<Longrightarrow> insert_run r rs = r # rs"
  by (cases r; cases rs) (auto simp: gap_def)

lemma insert_run_ok:
  "ok_ranges (r # rs @ xs) \<Longrightarrow> ok_ranges (insert_run r rs @ xs)"
proof (induction r rs arbitrary: xs rule: insert_run.induct)
  case (2 a n b k rs)
  have swap: "ok_ranges ((b, k) # (a, n) # rs @ xs)"
    using 2(2) ok_ranges_mset [of "(b, k) # (a, n) # rs @ xs" "(a, n) # ((b, k) # rs) @ xs"] by simp
  consider (skip) "b + k < a" | (right) "b + k = a" | (left) "\<not> b + k < a" "b + k \<noteq> a" "a + n = b"
    | (front) "\<not> b + k < a" "b + k \<noteq> a" "a + n \<noteq> b" by blast
  then show ?case
  proof cases
    case skip
    have "ok_ranges ((a, n) # rs @ (b, k) # xs)"
      using swap ok_ranges_mset [of "(b, k) # (a, n) # rs @ xs" "(a, n) # rs @ (b, k) # xs"] by simp
    from 2(1) [OF skip this] show ?thesis
      using skip ok_ranges_mset [of "insert_run (a, n) rs @ (b, k) # xs" "(b, k) # insert_run (a, n) rs @ xs"] by simp
  next
    case right
    with swap have joined: "ok_ranges ((b, k + n) # rs @ xs)"
      using ok_ranges_join [of b k n] by simp
    show ?thesis
    proof (cases rs)
      case Nil
      with right joined show ?thesis by simp
    next
      case (Cons q rs')
      then show ?thesis
        using right joined ok_ranges_join [of b "k + n" "snd q" "rs' @ xs"] by (cases q) (auto simp: add.assoc)
    qed
  next
    case left
    with 2(2) show ?thesis
      using ok_ranges_join [of a n k "rs @ xs"] by simp
  next
    case front
    with 2(2) show ?thesis by simp
  qed
qed simp

lemma bytes_of_0 [simp]: "bytes_of (a, 0) = {}"
  by (simp add: bytes_of_def)

lemma insert_run_covered: "covered (insert_run r rs) = bytes_of r \<union> covered rs"
proof (induction r rs rule: insert_run.induct)
  case (2 a n b k rs)
  have j: "b + k = a \<Longrightarrow> bytes_of (b, k + n) = bytes_of (a, n) \<union> bytes_of (b, k)"
    "a + n = b \<Longrightarrow> bytes_of (a, n + k) = bytes_of (a, n) \<union> bytes_of (b, k)"
    by (auto simp: bytes_of_def)
  have j3: "bytes_of (b, k + n + k') = bytes_of (b, k + n) \<union> bytes_of (b + k + n, k')" for k'
    by (auto simp: bytes_of_def)
  show ?case
    using 2 j j3 by (cases rs) (auto split: if_splits)
qed simp

lemma insert_run_fst: "q \<in> set (insert_run r rs) \<Longrightarrow> fst q = fst r \<or> fst q \<in> fst ` set rs"
proof (induction r rs rule: insert_run.induct)
  case (2 a n b k rs)
  then show ?case
    by (cases rs) (auto split: if_splits)
qed simp

lemma insert_run_runs:
  assumes "runs rs" and "\<forall>q \<in> set rs. apart r q" and "0 < snd r"
  shows "runs (insert_run r rs)"
  using assms
proof (induction r rs rule: insert_run.induct)
  case (2 a n b k rs)
  have ap: "a + n \<le> b \<or> b + k \<le> a"
    using 2(3) by simp
  have aps: "a + n \<le> fst q \<or> fst q + snd q \<le> a" if "q \<in> set rs" for q
    using 2(3) that by (cases q) fastforce
  have gaps: "\<forall>q \<in> set rs. b + k < fst q" and rs: "runs rs" "0 < k"
    using 2(2) by (auto simp: runs_Cons gap_def)
  consider (skip) "b + k < a" | (right) "b + k = a" | (left) "\<not> b + k < a" "b + k \<noteq> a" "a + n = b"
    | (front) "\<not> b + k < a" "b + k \<noteq> a" "a + n \<noteq> b" by blast
  then show ?case
  proof cases
    case skip
    have "runs (insert_run (a, n) rs)"
      using 2(1) [OF skip rs(1)] 2(3,4) by simp
    moreover have "gap (b, k) q" if "q \<in> set (insert_run (a, n) rs)" for q
      using insert_run_fst [OF that] skip gaps by (auto simp: gap_def)
    ultimately show ?thesis
      using skip rs(2) by (simp add: runs_Cons)
  next
    case right
    then have reach: "a + n \<le> fst q" if "q \<in> set rs" for q
      using aps [OF that] gaps that by fastforce
    show ?thesis
    proof (cases rs)
      case Nil
      with right rs(2) show ?thesis by (simp add: runs_Cons runs_def)
    next
      case (Cons q rs')
      obtain b' k' where q: "q = (b', k')" by fastforce
      have "\<forall>x \<in> set rs'. b' + k' < fst x" "runs rs'" "0 < k'"
        using rs(1) by (auto simp: Cons q runs_Cons gap_def)
      moreover have "a + n \<le> b'"
        using reach [of q] by (simp add: Cons q)
      ultimately show ?thesis
        using right rs by (auto simp: Cons q runs_Cons gap_def)
    qed
  next
    case left
    with gaps rs 2(4) show ?thesis
      by (auto simp: runs_Cons gap_def)
  next
    case front
    with ap gaps rs 2(2,4) show ?thesis
      by (auto simp: runs_Cons gap_def)
  qed
qed (simp add: runs_def)

text \<open>Descending in the tree.\<close>

definition node_runs :: "heads \<Rightarrow> nat list \<Rightarrow> range list" where
  "node_runs m is = map (\<lambda>i. frange (m i)) is"

lemma node_runs_simps [simp]:
  "node_runs m [] = []" "node_runs m (i # is) = frange (m i) # node_runs m is" "node_runs m (is @ js) = node_runs m is @ node_runs m js"
  "set (node_runs m is) = (\<lambda>i. frange (m i)) ` set is"
  by (simp_all add: node_runs_def)

lemma node_runs_upd [simp]: "i \<notin> set is \<Longrightarrow> node_runs (m(i := c)) is = node_runs m is"
  by (auto simp: node_runs_def)

lemma find_spot_cases:
  assumes "runs (node_runs m (inorder t))" and "\<forall>i \<in> set (inorder t). apart (frange (m p)) (frange (m i))" and "0 < ch_size (m p)"
  shows "case find_spot m p t of
      Right_of i \<Rightarrow> i \<in> set (inorder t) \<and> chunk_end (m i) = ch_addr (m p)
    | Left_of i \<Rightarrow> i \<in> set (inorder t) \<and> chunk_end (m p) = ch_addr (m i)
    | Link t' \<Rightarrow> \<exists>us vs. inorder t = us @ vs \<and> inorder t' = us @ p # vs \<and>
        (\<forall>u \<in> set us. gap (frange (m u)) (frange (m p))) \<and> (\<forall>v \<in> set vs. gap (frange (m p)) (frange (m v)))"
  using assms(1,2)
proof (induction t)
  case Leaf
  show ?case by simp
next
  case (Node l i r)
  have parts: "runs (node_runs m (inorder l))" "runs (node_runs m (inorder r))" "0 < ch_size (m i)"
    "\<forall>u \<in> set (inorder l). gap (frange (m u)) (frange (m i))" "\<forall>v \<in> set (inorder r). gap (frange (m i)) (frange (m v))"
    using Node.prems(1) by (auto simp: runs_append runs_Cons frange_def)
  have ap: "apart (frange (m p)) (frange (m i))"
    using Node.prems(2) by simp
  consider (right) "chunk_end (m i) = ch_addr (m p)" | (left) "chunk_end (m i) \<noteq> ch_addr (m p)" "chunk_end (m p) = ch_addr (m i)"
    | (down_left) "chunk_end (m i) \<noteq> ch_addr (m p)" "chunk_end (m p) \<noteq> ch_addr (m i)" "ch_addr (m p) < ch_addr (m i)"
    | (down_right) "chunk_end (m i) \<noteq> ch_addr (m p)" "chunk_end (m p) \<noteq> ch_addr (m i)" "\<not> ch_addr (m p) < ch_addr (m i)" by blast
  then show ?case
  proof cases
    case down_left
    then have g: "gap (frange (m p)) (frange (m i))"
      using ap by (auto simp: gap_def frange_def chunk_end_def)
    have rest: "\<forall>v \<in> set (i # inorder r). gap (frange (m p)) (frange (m v))"
      using g parts(3,5) gap_trans [OF g] by (auto simp: frange_def)
    have IH: "case find_spot m p l of
        Right_of i \<Rightarrow> i \<in> set (inorder l) \<and> chunk_end (m i) = ch_addr (m p)
      | Left_of i \<Rightarrow> i \<in> set (inorder l) \<and> chunk_end (m p) = ch_addr (m i)
      | Link t' \<Rightarrow> \<exists>us vs. inorder l = us @ vs \<and> inorder t' = us @ p # vs \<and>
          (\<forall>u \<in> set us. gap (frange (m u)) (frange (m p))) \<and> (\<forall>v \<in> set vs. gap (frange (m p)) (frange (m v)))"
      using Node.IH(1) parts(1) Node.prems(2) by simp
    show ?thesis
    proof (cases "find_spot m p l")
      case (Link l')
      with IH obtain us vs where "inorder l = us @ vs" "inorder l' = us @ p # vs"
        "\<forall>u \<in> set us. gap (frange (m u)) (frange (m p))" "\<forall>v \<in> set vs. gap (frange (m p)) (frange (m v))" by auto
      with down_left Link rest show ?thesis
        by simp (rule exI [of _ us], rule exI [of _ "vs @ i # inorder r"], auto)
    qed (use IH down_left in auto)
  next
    case down_right
    then have g: "gap (frange (m i)) (frange (m p))"
      using ap assms(3) parts(3) by (auto simp: gap_def frange_def chunk_end_def)
    have rest: "\<forall>u \<in> set (inorder l @ [i]). gap (frange (m u)) (frange (m p))"
      using g parts(3,4) gap_trans [OF _ _ g] by (auto simp: frange_def)
    have IH: "case find_spot m p r of
        Right_of i \<Rightarrow> i \<in> set (inorder r) \<and> chunk_end (m i) = ch_addr (m p)
      | Left_of i \<Rightarrow> i \<in> set (inorder r) \<and> chunk_end (m p) = ch_addr (m i)
      | Link t' \<Rightarrow> \<exists>us vs. inorder r = us @ vs \<and> inorder t' = us @ p # vs \<and>
          (\<forall>u \<in> set us. gap (frange (m u)) (frange (m p))) \<and> (\<forall>v \<in> set vs. gap (frange (m p)) (frange (m v)))"
      using Node.IH(2) parts(2) Node.prems(2) by simp
    show ?thesis
    proof (cases "find_spot m p r")
      case (Link r')
      with IH obtain us vs where "inorder r = us @ vs" "inorder r' = us @ p # vs"
        "\<forall>u \<in> set us. gap (frange (m u)) (frange (m p))" "\<forall>v \<in> set vs. gap (frange (m p)) (frange (m v))" by auto
      with down_right Link rest show ?thesis
        by simp (rule exI [of _ "inorder l @ i # us"], rule exI [of _ vs], auto)
    qed (use IH down_right in auto)
  qed simp_all
qed

lemma next_of_split: "distinct (us @ i # vs) \<Longrightarrow> next_of i (us @ i # vs) = (case vs of [] \<Rightarrow> None | v # _ \<Rightarrow> Some v)"
proof (induction us)
  case Nil
  then show ?case by (cases vs) auto
next
  case (Cons u us)
  then show ?case by (cases us) auto
qed

lemma runs_distinct: "runs (node_runs m is) \<Longrightarrow> distinct is"
  by (induction "is") (auto simp: runs_Cons gap_def)

text \<open>Inserting a chunk is inserting its range into the runs; only headers of the tree change, and no node number does.\<close>

lemma mem_chunk_insert_spec:
  assumes "rb_ok B" and "runs (node_runs m (inorder t))" and "p \<notin> set (inorder t)" and "0 < ch_size (m p)"
    and "\<forall>i \<in> set (inorder t). apart (frange (m p)) (frange (m i))"
    and "mem_chunk_insert B p (m, t) = (m', t')"
  shows "node_runs m' (inorder t') = insert_run (frange (m p)) (node_runs m (inorder t)) \<and>
    set (inorder t') \<subseteq> insert p (set (inorder t)) \<and> (\<forall>j. j \<notin> set (inorder t) \<longrightarrow> m' j = m j) \<and>
    (\<forall>j. ch_numa_id (m' j) = ch_numa_id (m j)) \<and> (\<forall>j. bytes_of (frange (m j)) \<subseteq> bytes_of (frange (m' j)))"
proof -
  note [simp del] = set_inorder
  note dist = runs_distinct [OF assms(2)]
  note ins = assms(6) [unfolded mem_chunk_insert_def, simplified]
  have erase: "inorder (rb_erase B j t) = remove1 j (inorder t)" and bal: "inorder (rb_insert_color B u) = inorder u" for j u
    using assms(1) by (simp_all add: rb_ok_def)
  show ?thesis
  proof (cases "find_spot m p t")
    case (Link u)
    with find_spot_cases [OF assms(2,5,4)] obtain us vs where t: "inorder t = us @ vs" "inorder u = us @ p # vs"
      "\<forall>u \<in> set us. gap (frange (m u)) (frange (m p))" "\<forall>v \<in> set vs. gap (frange (m p)) (frange (m v))" by auto
    have "insert_run (frange (m p)) (node_runs m us @ node_runs m vs) = node_runs m us @ frange (m p) # node_runs m vs"
      using t(3,4) assms(2,4) by (subst insert_run_skip) (auto simp: insert_run_front runs_append runs_def t(1) frange_def)
    moreover have "m' = m" "inorder t' = us @ p # vs"
      using ins Link bal t(2) by auto
    ultimately show ?thesis
      using t(1) by auto
  next
    case (Right_of i)
    with find_spot_cases [OF assms(2,5,4)] have i: "i \<in> set (inorder t)" "chunk_end (m i) = ch_addr (m p)" by (auto simp del: set_inorder)
    from split_list [OF i(1)] obtain us vs where t: "inorder t = us @ i # vs" by blast
    with assms(3) i have ne: "p \<noteq> i" "i \<notin> set us" "i \<notin> set vs" using dist by auto
    have skip: "\<forall>u \<in> set (node_runs m us). gap u (frange (m p))"
      using assms(2) i(2) by (auto simp: t runs_append gap_def frange_def chunk_end_def)
    have run: "insert_run (frange (m p)) (node_runs m (inorder t)) = node_runs m us @ insert_run (frange (m p)) (frange (m i) # node_runs m vs)"
      using insert_run_skip [OF skip] by (simp add: t)
    show ?thesis
    proof (cases vs)
      case Nil
      then have "rb_next i t = None"
        using next_of_split [of us i vs] dist by (simp add: rb_next_def t)
      with ins Right_of have res: "m' = m(i := (m i)\<lparr>ch_size := ch_size (m i) + ch_size (m p)\<rparr>)" "t' = t"
        by (auto simp: Let_def)
      have "node_runs m' (inorder t') = insert_run (frange (m p)) (node_runs m (inorder t))"
        unfolding run unfolding res t using i ne by (simp add: Nil frange_def chunk_end_def)
      then show ?thesis
        unfolding res t Nil by (auto simp: frange_def bytes_of_def)
    next
      case (Cons v vs')
      then have nx: "rb_next i t = Some v"
        using next_of_split [of us i vs] dist by (simp add: rb_next_def t)
      have v: "v \<noteq> i" "v \<notin> set us" "v \<notin> set vs'" using dist by (auto simp: t Cons)
      then have rem: "remove1 v (inorder t) = us @ i # vs'"
        by (simp add: t Cons remove1_append)
      show ?thesis
      proof (cases "chunk_end (m i) + ch_size (m p) = ch_addr (m v)")
        case True
        with ins Right_of nx v(1) have res: "m' = m(i := (m i)\<lparr>ch_size := ch_size (m i) + ch_size (m p) + ch_size (m v)\<rparr>)"
          "inorder t' = us @ i # vs'"
          using erase [of v] rem by (auto simp: Let_def chunk_end_def)
        have "node_runs m' (inorder t') = insert_run (frange (m p)) (node_runs m (inorder t))"
          unfolding run res using i ne True by (simp add: Cons frange_def chunk_end_def)
        then show ?thesis
          unfolding res t Cons by (auto simp: frange_def bytes_of_def)
      next
        case False
        with ins Right_of nx v(1) have res: "m' = m(i := (m i)\<lparr>ch_size := ch_size (m i) + ch_size (m p)\<rparr>)" "t' = t"
          by (auto simp: Let_def chunk_end_def)
        have "node_runs m' (inorder t') = insert_run (frange (m p)) (node_runs m (inorder t))"
          unfolding run unfolding res t using i ne False by (simp add: Cons frange_def chunk_end_def)
        then show ?thesis
          unfolding res t Cons by (auto simp: frange_def bytes_of_def)
      qed
    qed
  next
    case (Left_of i)
    with find_spot_cases [OF assms(2,5,4)] have i: "i \<in> set (inorder t)" "chunk_end (m p) = ch_addr (m i)" by (auto simp del: set_inorder)
    from split_list [OF i(1)] obtain us vs where t: "inorder t = us @ i # vs" by blast
    with assms(3) i have ne: "p \<noteq> i" "i \<notin> set us" "i \<notin> set vs" using dist by auto
    show ?thesis
    proof (cases us rule: rev_cases)
      case Nil
      then have "rb_prev i t = None"
        using next_of_split [of "rev vs" i "[]"] dist by (simp add: rb_prev_def t)
      with ins Left_of have res: "m' = m(i := (m i)\<lparr>ch_addr := ch_addr (m i) - ch_size (m p), ch_size := ch_size (m i) + ch_size (m p)\<rparr>)"
        "t' = t"
        by (auto simp: Let_def)
      have "node_runs m' (inorder t') = insert_run (frange (m p)) (node_runs m (inorder t))"
        unfolding res t using i ne assms(4) by (auto simp: Nil frange_def chunk_end_def)
      then show ?thesis
        unfolding res t Nil using i(2) by (auto simp: frange_def bytes_of_def chunk_end_def)
    next
      case (snoc us' u)
      then have pv: "rb_prev i t = Some u"
        using next_of_split [of "rev vs" i "rev us"] dist by (simp add: rb_prev_def t) blast
      have u: "u \<noteq> i" "u \<notin> set us'" "u \<notin> set vs" "u \<noteq> p" "0 < ch_size (m u)" "chunk_end (m u) < ch_addr (m i)"
        using dist assms(2,3) by (auto simp: t snoc runs_append runs_Cons gap_def frange_def chunk_end_def)
      then have rem: "remove1 u (inorder t) = us' @ i # vs"
        by (simp add: t snoc remove1_append)
      have ap: "apart (frange (m p)) (frange (m u))"
        using assms(5) by (simp add: t snoc)
      then have ulp: "chunk_end (m u) \<le> ch_addr (m p)"
        using u(5,6) i(2) assms(4) by (auto simp: frange_def chunk_end_def)
      have "\<forall>x \<in> set (node_runs m us'). gap x (frange (m u))"
        using assms(2) by (auto simp: t snoc runs_append runs_Cons)
      with ulp u(5) have skip: "\<forall>x \<in> set (node_runs m us'). gap x (frange (m p))"
        by (fastforce simp: gap_def frange_def chunk_end_def)
      have run: "insert_run (frange (m p)) (node_runs m (inorder t)) =
          node_runs m us' @ insert_run (frange (m p)) (frange (m u) # frange (m i) # node_runs m vs)"
        using insert_run_skip [OF skip] by (simp add: t snoc)
      have shift: "ch_addr (m i) - ch_size (m p) = ch_addr (m p)"
        using i(2) by (simp add: chunk_end_def)
      show ?thesis
      proof (cases "chunk_end (m u) = ch_addr (m p)")
        case True
        with ins Left_of pv u(1) shift have res: "m' = m(i := (m i)\<lparr>ch_addr := ch_addr (m p) - ch_size (m u),
            ch_size := ch_size (m i) + ch_size (m p) + ch_size (m u)\<rparr>)"
          "inorder t' = us' @ i # vs"
          using erase [of u] rem by (auto simp: Let_def chunk_end_def)
        have "ch_addr (m p) - ch_size (m u) = ch_addr (m u)"
          using True by (simp add: chunk_end_def)
        then have "node_runs m' (inorder t') = insert_run (frange (m p)) (node_runs m (inorder t))"
          unfolding run res using i ne True by (simp add: snoc frange_def chunk_end_def)
        then show ?thesis
          unfolding res t snoc using i(2) True by (auto simp: frange_def bytes_of_def chunk_end_def)
      next
        case False
        with ins Left_of pv u(1) shift have res: "m' = m(i := (m i)\<lparr>ch_addr := ch_addr (m p), ch_size := ch_size (m i) + ch_size (m p)\<rparr>)"
          "t' = t"
          by (auto simp: Let_def chunk_end_def)
        have "node_runs m' (inorder t') = insert_run (frange (m p)) (node_runs m (inorder t))"
          unfolding run unfolding res t using i ne u ulp False assms(4) by (auto simp: snoc frange_def chunk_end_def)
        then show ?thesis
          unfolding res t snoc using i(2) by (auto simp: frange_def bytes_of_def chunk_end_def)
      qed
    qed
  qed
qed

section \<open>Reserving\<close>

lemma disjoint_apart: "bytes_of r \<inter> bytes_of q = {} \<Longrightarrow> 0 < snd r \<Longrightarrow> 0 < snd q \<Longrightarrow> apart r q"
proof (cases r; cases q)
  fix a n b k
  assume "bytes_of r \<inter> bytes_of q = {}" "0 < snd r" "0 < snd q" "r = (a, n)" "q = (b, k)"
  moreover from this have "max a b \<notin> bytes_of r \<inter> bytes_of q" by simp
  ultimately show "apart r q"
    by (auto simp: bytes_of_def max_def split: if_splits)
qed

text \<open>Ranges may be replaced by others that cover no more.\<close>

lemma ok_ranges_refine:
  assumes "ok_ranges (xs @ ys)" and "ok_ranges zs" and "covered zs \<subseteq> covered ys"
  shows "ok_ranges (xs @ zs)"
proof -
  have "apart x z" if "x \<in> set xs" "z \<in> set zs" for x z
  proof (rule disjoint_apart)
    have "bytes_of x \<inter> covered ys = {}"
      using covered_apart [of xs ys] assms(1) that(1) by (auto simp: ok_ranges_def covered_def)
    moreover have "bytes_of z \<subseteq> covered ys"
      using assms(3) that(2) by (auto simp: covered_def)
    ultimately show "bytes_of x \<inter> bytes_of z = {}" by blast
  qed (use assms(1,2) that in \<open>auto simp: ok_ranges_def paged_def\<close>)
  with assms(1,2) show ?thesis
    by (auto simp: ok_ranges_def apart_list_append)
qed

lemma ok_ranges_append_comm: "ok_ranges (xs @ ys) = ok_ranges (ys @ xs)"
  by (rule ok_ranges_mset) simp

text \<open>The temporary tree: its chunks are runs, and each header lies in its chunk.\<close>

definition tree_ok :: "heads \<times> nat tree \<Rightarrow> bool" where
  "tree_ok mt \<longleftrightarrow> runs (node_runs (fst mt) (inorder (snd mt))) \<and>
     (\<forall>i \<in> set (inorder (snd mt)). i \<in> bytes_of (frange (fst mt i)))"

abbreviation tree_runs :: "heads \<times> nat tree \<Rightarrow> range list" where
  "tree_runs mt \<equiv> node_runs (fst mt) (inorder (snd mt))"

lemma tree_insert:
  assumes "rb_ok B" and "tree_ok (m, t)" and "p \<in> bytes_of (frange (m p))"
    and "ok_ranges (frange (m p) # node_runs m (inorder t) @ xs)"
    and "p \<notin> set (inorder t)" and "mem_chunk_insert B p (m, t) = mt"
  shows "tree_ok mt \<and> ok_ranges (tree_runs mt @ xs) \<and>
    covered (tree_runs mt) = bytes_of (frange (m p)) \<union> covered (node_runs m (inorder t)) \<and>
    set (inorder (snd mt)) \<subseteq> insert p (set (inorder t)) \<and> (\<forall>j. ch_numa_id (fst mt j) = ch_numa_id (m j))"
proof -
  obtain m' t' where mt: "mt = (m', t')" by fastforce
  have ap: "\<forall>i \<in> set (inorder t). apart (frange (m p)) (frange (m i))"
    using assms(4) by (simp add: ok_ranges_def)
  have pos: "0 < ch_size (m p)"
    using assms(4) by (simp add: ok_ranges_def paged_def frange_def)
  have rs: "runs (node_runs m (inorder t))"
    using assms(2) by (simp add: tree_ok_def)
  note spec = mem_chunk_insert_spec [OF assms(1) rs assms(5) pos ap assms(6) [unfolded mt]]
  have "runs (node_runs m' (inorder t'))"
    using spec insert_run_runs [OF rs, of "frange (m p)"] ap pos by (simp add: frange_def)
  moreover have "i \<in> bytes_of (frange (m' i))" if "i \<in> set (inorder t')" for i
    using spec assms(2,3) that unfolding tree_ok_def fst_conv snd_conv by blast
  ultimately show ?thesis
    using spec insert_run_ok [OF assms(4)] by (simp add: mt tree_ok_def insert_run_covered)
qed

definition tmp_inv :: "range list \<Rightarrow> reserve_arg \<Rightarrow> reserve_state \<Rightarrow> bool" where
  "tmp_inv xs A st \<longleftrightarrow> tree_ok (rs_tmp st) \<and> ok_ranges (tree_runs (rs_tmp st) @ xs) \<and>
     covered (tree_runs (rs_tmp st)) = covered (rs_got st) \<and>
     (\<forall>i \<in> set (inorder (snd (rs_tmp st))). ch_numa_id (fst (rs_tmp st) i) = ra_numa A) \<and>
     rs_allocated st = sum_list (map snd (rs_got st))"

lemma add_block_inv:
  assumes "rb_ok (rb M)" and "tmp_inv xs A st" and "ok_ranges (rs_got (add_block M A a st) @ xs)"
  shows "tmp_inv xs A (add_block M A a st)"
proof -
  obtain m t where mt: "rs_tmp st = (m, t)" by fastforce
  let ?sz = "PAGE_SIZE * 2 ^ rs_order st"
  let ?m = "m(a := \<lparr>ch_addr = a, ch_size = ?sz, ch_numa_id = ra_numa A\<rparr>)"
  have new: "frange (?m a) = (a, ?sz)"
    by (simp add: frange_def)
  have inv: "tree_ok (m, t)" "ok_ranges (node_runs m (inorder t) @ xs)" "covered (node_runs m (inorder t)) = covered (rs_got st)"
    "\<forall>i \<in> set (inorder t). ch_numa_id (m i) = ra_numa A" "rs_allocated st = sum_list (map snd (rs_got st))"
    using assms(2) by (auto simp: tmp_inv_def mt)
  have "ok_ranges ([(a, ?sz)] @ rs_got st @ xs)"
    using assms(3) by (simp add: add_block_def Let_def mt)
  from ok_ranges_refine [OF this inv(2)] have ok: "ok_ranges ((a, ?sz) # node_runs m (inorder t) @ xs)"
    using inv(3) by simp
  have a: "a \<in> bytes_of (a, ?sz)"
    by (simp add: bytes_of_def PAGE_SIZE_def)
  have fresh: "a \<notin> set (inorder t)"
  proof
    assume "a \<in> set (inorder t)"
    with inv(1) have "a \<in> covered (node_runs m (inorder t))"
      unfolding tree_ok_def covered_def by auto
    moreover have "bytes_of (a, ?sz) \<inter> covered (node_runs m (inorder t)) = {}"
      using ok covered_apart [of "[(a, ?sz)]" "node_runs m (inorder t)"] by (auto simp: ok_ranges_def apart_list_append)
    ultimately show False using a by blast
  qed
  then have same: "node_runs ?m (inorder t) = node_runs m (inorder t)" by (rule node_runs_upd)
  have tree: "tree_ok (?m, t)"
    using inv(1) fresh unfolding tree_ok_def fst_conv snd_conv same by auto
  note ins = tree_insert [OF assms(1) tree _ _ fresh refl, of xs, unfolded same new, OF a ok]
  have old: "\<forall>i \<in> insert a (set (inorder t)). ch_numa_id (?m i) = ra_numa A"
    using inv(4) by simp
  have numa: "\<forall>i \<in> set (inorder (snd (mem_chunk_insert (rb M) a (?m, t)))).
      ch_numa_id (fst (mem_chunk_insert (rb M) a (?m, t)) i) = ra_numa A"
  proof
    fix i
    assume "i \<in> set (inorder (snd (mem_chunk_insert (rb M) a (?m, t))))"
    with ins have "i \<in> insert a (set (inorder t))" by (meson subsetD)
    with old have "ch_numa_id (?m i) = ra_numa A" by (rule bspec)
    moreover have "ch_numa_id (fst (mem_chunk_insert (rb M) a (?m, t)) i) = ch_numa_id (?m i)"
      using ins by meson
    ultimately show "ch_numa_id (fst (mem_chunk_insert (rb M) a (?m, t)) i) = ra_numa A" by simp
  qed
  have "rs_tmp (add_block M A a st) = mem_chunk_insert (rb M) a (?m, t)" "rs_got (add_block M A a st) = (a, ?sz) # rs_got st"
    "rs_allocated (add_block M A a st) = rs_allocated st + ?sz"
    by (simp_all add: add_block_def Let_def mt)
  with ins numa inv(3,5) show ?thesis
    unfolding tmp_inv_def by (simp del: set_inorder)
qed

lemma tmp_inv_fields [simp]:
  "tmp_inv xs A (st\<lparr>rs_order := k\<rparr>) = tmp_inv xs A st" "tmp_inv xs A (st\<lparr>rs_failed := k\<rparr>) = tmp_inv xs A st"
  "tmp_inv xs A (st\<lparr>rs_secs := k\<rparr>) = tmp_inv xs A st"
  by (simp_all add: tmp_inv_def)

lemma alloc_rounds_cases:
  assumes "alloc_rounds M A (t # tries) st = Some (r, st')"
  obtains (stop) "r = 0" "st' = st" "max_size_mem_chunk (rs_tmp st) \<ge> ra_want A"
  | (out) "(r, st') = pre_out A st"
  | (late) "(r, st') = pre_out A (st\<lparr>rs_order := rs_order st - 1, rs_failed := 0\<rparr>)"
  | (block) a where "alloc_rounds M A tries (add_block M A a st) = Some (r, st')"
  | (room) k n where "alloc_rounds M A tries (st\<lparr>rs_secs := k, rs_failed := n\<rparr>) = Some (r, st')"
  | (smaller) "alloc_rounds M A tries (st\<lparr>rs_order := rs_order st - 1, rs_failed := 0\<rparr>) = Some (r, st')"
proof -
  note simps = alloc_rounds.simps [of M A "t # tries" st]
  show thesis
  proof (cases "max_size_mem_chunk (rs_tmp st) < ra_want A")
    case False
    with assms have "r = 0" "st' = st" by (simp_all add: simps)
    with False show thesis by (intro stop) auto
  next
    case less: True
    show thesis
    proof (cases "grabbed_enough M A (rs_allocated st)")
      case True
      with less assms have "(r, st') = pre_out A st" by (simp add: simps)
      then show thesis by (rule out)
    next
      case False
      note go = less False
      show thesis
      proof (cases "at_page t")
        case (Some a)
        with go assms have "alloc_rounds M A tries (add_block M A a st) = Some (r, st')" by (simp add: simps)
        then show thesis by (rule block)
      next
        case None
        show thesis
        proof (cases "may_try_to_free M A st")
          case True
          with go None assms show thesis by (intro room) (simp add: simps)
        next
          case False
          note go = go None False
          show thesis
          proof (cases "rs_order st > ra_limit A")
            case True
            with go assms late smaller show thesis
              by (cases "int (at_now t) < ra_timeout A \<or> ra_timeout A < 0") (simp_all add: simps Let_def)
          next
            case False
            with go assms have "(r, st') = pre_out A st" by (simp add: simps)
            then show thesis by (rule out)
          qed
        qed
      qed
    qed
  qed
qed

lemma pre_out_cases:
  "(r, st') = pre_out A st \<Longrightarrow> st' = st \<and> (r = 0 \<and> (rs_allocated st \<ge> ra_want A \<or> ra_want A = IHK_SMP_MEM_ALL) \<or> r = err ENOMEM)"
  by (simp add: pre_out_def)

lemma alloc_rounds_spec:
  assumes "alloc_rounds M A tries st = Some (r, st')" and "rb_ok (rb M)"
  shows "(\<exists>new. rs_got st' = new @ rs_got st) \<and>
    (tmp_inv xs A st \<longrightarrow> ok_ranges (rs_got st' @ xs) \<longrightarrow> tmp_inv xs A st') \<and>
    (r = 0 \<and> (max_size_mem_chunk (rs_tmp st') \<ge> ra_want A \<or> rs_allocated st' \<ge> ra_want A \<or> ra_want A = IHK_SMP_MEM_ALL) \<or>
     r = err ENOMEM)"
  using assms(1)
proof (induction tries arbitrary: st)
  case Nil
  then show ?case
    by (auto simp: alloc_rounds.simps [of M A "[]"] pre_out_def split: if_splits)
next
  case (Cons t tries)
  from Cons.prems show ?case
  proof (cases rule: alloc_rounds_cases)
    case out
    with pre_out_cases [OF out] show ?thesis by auto
  next
    case late
    with pre_out_cases [OF late] show ?thesis by auto
  next
    case (block a)
    note IH = Cons.IH [OF block]
    from IH obtain new where new: "rs_got st' = new @ rs_got (add_block M A a st)" by blast
    have got: "rs_got (add_block M A a st) = (a, PAGE_SIZE * 2 ^ rs_order st) # rs_got st"
      by (simp add: add_block_def Let_def split: prod.splits)
    have "tmp_inv xs A (add_block M A a st)" if "tmp_inv xs A st" "ok_ranges (rs_got st' @ xs)"
    proof (rule add_block_inv [OF assms(2) that(1)])
      show "ok_ranges (rs_got (add_block M A a st) @ xs)"
        using that(2) unfolding new by (auto simp: ok_ranges_def apart_list_append)
    qed
    with IH new got show ?thesis by simp
  next
    case (room k n)
    from Cons.IH [OF room] show ?thesis by simp
  next
    case smaller
    from Cons.IH [OF smaller] show ?thesis by simp
  qed simp
qed

text \<open>The loop ends: once Linux has refused more often than there are orders to try.\<close>

lemma alloc_rounds_ends:
  assumes "\<not> (num_online_nodes M > 1 \<and> ra_numa A > 0 \<and> has_try_to_free M)"
    and "length (filter (\<lambda>t. at_page t = None) tries) > rs_order st - ra_limit A"
  shows "alloc_rounds M A tries st \<noteq> None"
  using assms(2)
proof (induction tries arbitrary: st)
  case (Cons t tries)
  have no: "\<not> may_try_to_free M A st"
    using assms(1) by (auto simp: may_try_to_free_def)
  have same: "rs_order (add_block M A a st) = rs_order st" for a
    by (simp add: add_block_def Let_def split: prod.splits)
  show ?case
  proof (cases "at_page t")
    case None
    with Cons.prems no Cons.IH [of "st\<lparr>rs_order := rs_order st - 1, rs_failed := 0\<rparr>"] show ?thesis
      by (subst alloc_rounds.simps) (auto simp: Let_def)
  next
    case (Some a)
    with Cons.prems Cons.IH [of "add_block M A a st"] same show ?thesis
      by (subst alloc_rounds.simps) auto
  qed
qed simp

text \<open>Taking a chunk out of the tree; its header is moved to its start.\<close>

lemma tree_take:
  assumes "rb_ok B" and "tree_ok (m, t)" and "p \<in> set (inorder t)"
    and "c = m p" and "m' = m(ch_addr c := c)" and "t' = rb_erase B p t"
  shows "tree_ok (m', t')" "mset (node_runs m (inorder t)) = mset (frange c # node_runs m' (inorder t'))"
    "\<And>q. q \<in> bytes_of (frange c) \<Longrightarrow> q \<notin> set (inorder t')" "set (inorder t') \<subseteq> set (inorder t)"
    "\<And>i. i \<in> set (inorder t') \<Longrightarrow> m' i = m i"
proof -
  note [simp del] = set_inorder
  from split_list [OF assms(3)] obtain us vs where t: "inorder t = us @ p # vs" by blast
  have rs: "runs (node_runs m (inorder t))" and hd: "\<And>i. i \<in> set (inorder t) \<Longrightarrow> i \<in> bytes_of (frange (m i))"
    using assms(2) by (auto simp: tree_ok_def)
  have "distinct (inorder t)" by (rule runs_distinct [OF rs])
  then have t': "inorder t' = us @ vs"
    using assms(1) by (simp add: rb_ok_def assms(6) t remove1_append)
  have sep: "apart (frange c) (frange (m i))" if "i \<in> set (us @ vs)" for i
  proof -
    have "gap (frange (m i)) (frange c) \<or> gap (frange c) (frange (m i))"
      using rs that by (auto simp: t runs_append runs_Cons assms(4))
    then show ?thesis
      using gap_apart apart_sym by blast
  qed
  show out: "q \<notin> set (inorder t')" if "q \<in> bytes_of (frange c)" for q
  proof
    assume q: "q \<in> set (inorder t')"
    then have "q \<in> bytes_of (frange (m q))" "apart (frange c) (frange (m q))"
      using hd [of q] sep [of q] by (auto simp: t t')
    with apart_bytes that show False by blast
  qed
  have "0 < ch_size c"
    using rs by (simp add: t runs_append runs_Cons assms(4) frange_def)
  then have "ch_addr c \<in> bytes_of (frange c)"
    by (simp add: bytes_of_def frange_def)
  from out [OF this] have fresh: "ch_addr c \<notin> set (us @ vs)" by (simp add: t')
  then show same: "m' i = m i" if "i \<in> set (inorder t')" for i
    using that by (auto simp: assms(5) t')
  have runs': "node_runs m' (us @ vs) = node_runs m (us @ vs)"
    using fresh by (simp add: assms(5))
  show "set (inorder t') \<subseteq> set (inorder t)"
    by (auto simp: t t')
  then show "tree_ok (m', t')"
    using rs hd same unfolding tree_ok_def fst_conv snd_conv t' runs' by (auto simp: t t' runs_append runs_Cons)
  show "mset (node_runs m (inorder t)) = mset (frange c # node_runs m' (inorder t'))"
    unfolding t t' runs' by (simp add: assms(4))
qed

lemma max_scan_none: "max_scan m is (b, acc) = (mx, None) \<Longrightarrow> acc = None \<and> mx = b \<and> (\<forall>i \<in> set is. ch_size (m i) \<le> b)"
  by (induction m "is" "(b, acc)" arbitrary: b acc rule: max_scan.induct) (fastforce split: if_splits)+

lemma move_rounds_done: "\<not> allocated < want \<Longrightarrow> move_rounds B P want allocated mt free = Some (mt, free)"
  by (subst move_rounds.simps) simp

lemma move_rounds_split:
  assumes "allocated < want" and "max_scan m (inorder t) (0, None) = (mx, Some p)"
    and "leftover_addr P (ch_addr (m p) + (want - allocated)) = a"
    and "want < allocated + mx" and "a < ch_addr (m p) + mx" and "ch_addr (m p) < a"
  shows "move_rounds B P want allocated (m, t) free =
    move_rounds B P want (allocated + (a - ch_addr (m p)))
      (mem_chunk_insert B a ((m(ch_addr (m p) := m p))(a := (m p)\<lparr>ch_addr := a, ch_size := ch_addr (m p) + mx - a\<rparr>), rb_erase B p t))
      (insert_before ch_addr ((m p)\<lparr>ch_size := a - ch_addr (m p)\<rparr>) free)"
  using assms by (subst move_rounds.simps) (simp add: Let_def)

lemma move_rounds_whole:
  assumes "allocated < want" and "max_scan m (inorder t) (0, None) = (mx, Some p)"
    and "\<not> (want < allocated + mx \<and> leftover_addr P (ch_addr (m p) + (want - allocated)) < ch_addr (m p) + mx)"
  shows "move_rounds B P want allocated (m, t) free =
    move_rounds B P want (allocated + mx) (m(ch_addr (m p) := m p), rb_erase B p t) (insert_before ch_addr (m p) free)"
  using assms by (subst move_rounds.simps) (auto simp: Let_def)

lemma move_rounds_empty:
  "max_scan m (inorder t) (0, None) = (mx, None) \<Longrightarrow> move_rounds B P want allocated (m, t) free = Some ((m, t), free)"
  by (subst move_rounds.simps) simp

lemma leftover_addr_ok:
  assumes "pages_ok P" and "PAGE_SIZE dvd a"
  shows "PAGE_SIZE dvd leftover_addr P a \<and> a \<le> leftover_addr P a"
proof (cases "P a")
  case None
  with assms(2) show ?thesis by (simp add: leftover_addr_def)
next
  case (Some hn)
  obtain h n where hn: "hn = (h, n)" by fastforce
  with assms(1) Some have "a < h + n" "PAGE_SIZE dvd h" "PAGE_SIZE dvd n"
    by (auto simp: pages_ok_def paged_def)
  with assms(2) Some hn show ?thesis by (simp add: leftover_addr_def)
qed

text \<open>
  Chunks move from the tree to the free list: nothing is lost, the free chunks stay, and as much as wanted
  becomes free, or all there is.
\<close>

definition moved :: "int \<Rightarrow> heads \<times> nat tree \<Rightarrow> chunk list \<Rightarrow> heads \<times> nat tree \<Rightarrow> chunk list \<Rightarrow> bool" where
  "moved n mt free mt' free' \<longleftrightarrow>
     (\<forall>xs. ok_ranges (map frange free @ tree_runs mt @ xs) \<longrightarrow> ok_ranges (map frange free' @ tree_runs mt' @ xs)) \<and>
     covered (map frange free') \<union> covered (tree_runs mt') = covered (map frange free) \<union> covered (tree_runs mt) \<and>
     (sorted (map ch_addr free) \<longrightarrow> sorted (map ch_addr free')) \<and>
     (\<exists>cs. mset free' = mset (cs @ free) \<and> (\<forall>c \<in> set cs. ch_numa_id c = n))"

lemma movedD:
  assumes "moved n mt free mt' free'"
  shows "ok_ranges (map frange free @ tree_runs mt @ xs) \<Longrightarrow> ok_ranges (map frange free' @ tree_runs mt' @ xs)"
    "covered (map frange free') \<union> covered (tree_runs mt') = covered (map frange free) \<union> covered (tree_runs mt)"
    "sorted (map ch_addr free) \<Longrightarrow> sorted (map ch_addr free')"
    "\<exists>cs. mset free' = mset (cs @ free) \<and> (\<forall>c \<in> set cs. ch_numa_id c = n)"
  using assms unfolding moved_def by blast+

lemma moved_refl: "moved n mt free mt free"
  by (auto simp: moved_def intro: exI [of _ "[]"])

lemma moved_trans:
  assumes "moved n mt free mt' free'" and "moved n mt' free' mt'' free''"
  shows "moved n mt free mt'' free''"
proof -
  from movedD(4) [OF assms(1)] movedD(4) [OF assms(2)] obtain cs ds where
    "mset free' = mset (cs @ free)" "\<forall>c \<in> set cs. ch_numa_id c = n" "mset free'' = mset (ds @ free')" "\<forall>c \<in> set ds. ch_numa_id c = n" by blast
  then have "\<exists>es. mset free'' = mset (es @ free) \<and> (\<forall>c \<in> set es. ch_numa_id c = n)"
    by (intro exI [of _ "ds @ cs"]) auto
  then show ?thesis
    unfolding moved_def using movedD(1-3) [OF assms(1)] movedD(1-3) [OF assms(2)] by simp
qed

lemma moved_one:
  assumes "\<And>xs. ok_ranges (map frange free @ tree_runs mt @ xs) \<Longrightarrow> ok_ranges (frange c # map frange free @ tree_runs mt' @ xs)"
    and "bytes_of (frange c) \<union> covered (tree_runs mt') = covered (tree_runs mt)" and "ch_numa_id c = n"
  shows "moved n mt free mt' (insert_before ch_addr c free)"
proof -
  have ms: "mset (map frange (insert_before ch_addr c free) @ ys) = mset (frange c # map frange free @ ys)" for ys
    by simp
  have "ok_ranges (map frange (insert_before ch_addr c free) @ tree_runs mt' @ xs)" if "ok_ranges (map frange free @ tree_runs mt @ xs)" for xs
    using assms(1) [OF that] unfolding ok_ranges_mset [OF ms] by simp
  moreover have "covered (map frange (insert_before ch_addr c free)) = bytes_of (frange c) \<union> covered (map frange free)"
    using covered_mset [OF ms, of "[]"] by simp
  ultimately show ?thesis
    unfolding moved_def using assms(2,3) by (auto simp: sorted_insert_before intro!: exI [of _ "[c]"])
qed

lemma moved_whole:
  assumes "rb_ok B" and "tree_ok (m, t)" and "p \<in> set (inorder t)"
    and "c = m p" and "m' = m(ch_addr c := c)" and "t' = rb_erase B p t" and "ch_numa_id c = n"
  shows "moved n (m, t) free (m', t') (insert_before ch_addr c free)"
proof (rule moved_one)
  note tt = tree_take [OF assms(1-6)]
  fix xs
  have ms: "mset (map frange free @ tree_runs (m, t) @ xs) = mset (frange c # map frange free @ tree_runs (m', t') @ xs)"
    using tt(2) by simp
  assume "ok_ranges (map frange free @ tree_runs (m, t) @ xs)"
  then show "ok_ranges (frange c # map frange free @ tree_runs (m', t') @ xs)"
    unfolding ok_ranges_mset [OF ms] .
next
  show "bytes_of (frange c) \<union> covered (tree_runs (m', t')) = covered (tree_runs (m, t))"
    using covered_mset [OF tree_take(2) [OF assms(1-6)]] by simp
qed (rule assms(7))

text \<open>When the chunk is split, its rest goes back into the tree.\<close>

lemma ok_ranges_split:
  assumes "ok_ranges ((a, n) # xs)" and "0 < k" and "k < n" and "PAGE_SIZE dvd k"
  shows "ok_ranges ((a, k) # (a + k, n - k) # xs)"
proof -
  have "ok_ranges ([(a, k), (a + k, n - k)] @ xs)"
  proof (rule ok_ranges_shrink [OF assms(1)])
    show "ok_ranges [(a, k), (a + k, n - k)]"
      using assms by (auto simp: ok_ranges_def paged_def dvd_diff_nat)
  qed (use assms(3) in auto)
  then show ?thesis by simp
qed

lemma moved_split:
  assumes "rb_ok B" and "tree_ok (m, t)" and "p \<in> set (inorder t)"
    and "c = m p" and "m' = m(ch_addr c := c)" and "t' = rb_erase B p t" and "\<forall>i \<in> set (inorder t). ch_numa_id (m i) = n"
    and "ch_addr c < a" and "a < chunk_end c" and "PAGE_SIZE dvd a"
    and "mt = mem_chunk_insert B a (m'(a := c\<lparr>ch_addr := a, ch_size := chunk_end c - a\<rparr>), t')"
    and "ok_ranges (tree_runs (m, t))"
  shows "moved n (m, t) free mt (insert_before ch_addr (c\<lparr>ch_size := a - ch_addr c\<rparr>) free)"
    "tree_ok mt" "\<forall>i \<in> set (inorder (snd mt)). ch_numa_id (fst mt i) = n"
proof -
  note tt = tree_take [OF assms(1-6)]
  let ?l = "c\<lparr>ch_addr := a, ch_size := chunk_end c - a\<rparr>" and ?c = "c\<lparr>ch_size := a - ch_addr c\<rparr>"
  let ?m = "m'(a := ?l)"
  have "a \<in> bytes_of (frange c)"
    using assms(8,9) by (simp add: bytes_of_def frange_def chunk_end_def)
  from tt(3) [OF this] have fresh: "a \<notin> set (inorder t')" .
  then have same: "node_runs ?m (inorder t') = node_runs m' (inorder t')"
    by (rule node_runs_upd)
  have new: "frange (?m a) = (a, chunk_end c - a)"
    by (simp add: frange_def)
  have a: "a \<in> bytes_of (a, chunk_end c - a)"
    using assms(9) by (simp add: bytes_of_def)
  have tree: "tree_ok (?m, t')"
    using tt(1) fresh unfolding tree_ok_def fst_conv snd_conv same by auto
  have split: "ok_ranges (frange ?c # (a, chunk_end c - a) # ys)" if "ok_ranges (frange c # ys)" for ys
  proof -
    have "ok_ranges ((ch_addr c, a - ch_addr c) # (ch_addr c + (a - ch_addr c), ch_size c - (a - ch_addr c)) # ys)"
    proof (rule ok_ranges_split)
      show "PAGE_SIZE dvd a - ch_addr c"
        using that assms(10) by (simp add: ok_ranges_def paged_def frange_def dvd_diff_nat)
    qed (use that assms(8,9) in \<open>auto simp: frange_def chunk_end_def\<close>)
    then show ?thesis
      using assms(8) by (simp add: frange_def chunk_end_def add.commute)
  qed
  have ok0: "ok_ranges (frange c # node_runs m' (inorder t') @ xs)" if "ok_ranges (tree_runs (m, t) @ xs)" for xs
    using that tt(2) ok_ranges_mset [of "tree_runs (m, t) @ xs" "frange c # node_runs m' (inorder t') @ xs"] by simp
  have ok1: "ok_ranges ((a, chunk_end c - a) # node_runs m' (inorder t') @ frange ?c # xs)" if "ok_ranges (tree_runs (m, t) @ xs)" for xs
    using split [OF ok0 [OF that]]
      ok_ranges_mset [of "frange ?c # (a, chunk_end c - a) # node_runs m' (inorder t') @ xs"
        "(a, chunk_end c - a) # node_runs m' (inorder t') @ frange ?c # xs"] by simp
  have ok2: "ok_ranges ((a, chunk_end c - a) # node_runs m' (inorder t') @ [])"
    using ok1 [of "[]"] assms(12) by (auto simp: ok_ranges_def apart_list_append)
  note ins = tree_insert [OF assms(1) tree _ _ fresh assms(11) [symmetric], unfolded same new, OF a]
  show "tree_ok mt" using ins [OF ok2] by simp
  show "\<forall>i \<in> set (inorder (snd mt)). ch_numa_id (fst mt i) = n"
  proof
    fix i
    assume "i \<in> set (inorder (snd mt))"
    with ins [OF ok2] have i: "i \<in> insert a (set (inorder t'))" by (meson subsetD)
    have "ch_numa_id (fst mt i) = ch_numa_id (?m i)"
      using ins [OF ok2] by meson
    also have "\<dots> = n"
    proof (cases "i = a")
      case True
      with assms(3,4,7) show ?thesis by simp
    next
      case False
      with i have "i \<in> set (inorder t')" by simp
      with False tt(4,5) assms(7) show ?thesis by (auto simp del: set_inorder)
    qed
    finally show "ch_numa_id (fst mt i) = n" .
  qed
  show "moved n (m, t) free mt (insert_before ch_addr ?c free)"
  proof (rule moved_one)
    fix xs
    assume "ok_ranges (map frange free @ tree_runs (m, t) @ xs)"
    then have "ok_ranges (tree_runs (m, t) @ map frange free @ xs)"
      using ok_ranges_mset [of "map frange free @ tree_runs (m, t) @ xs" "tree_runs (m, t) @ map frange free @ xs"] by simp
    from ins [OF ok1 [OF this]] have "ok_ranges (tree_runs mt @ frange ?c # map frange free @ xs)" by blast
    then show "ok_ranges (frange ?c # map frange free @ tree_runs mt @ xs)"
      using ok_ranges_mset [of "tree_runs mt @ frange ?c # map frange free @ xs" "frange ?c # map frange free @ tree_runs mt @ xs"] by simp
  next
    have "bytes_of (frange c) = bytes_of (frange ?c) \<union> bytes_of (a, chunk_end c - a)"
      using assms(8,9) bytes_of_join [of "ch_addr c" "a - ch_addr c" "chunk_end c - a"] by (simp add: frange_def chunk_end_def)
    with ins [OF ok2] covered_mset [OF tt(2)] show "bytes_of (frange ?c) \<union> covered (tree_runs mt) = covered (tree_runs (m, t))"
      by auto
  next
    show "ch_numa_id ?c = n"
      using assms(3,4,7) by simp
  qed
qed

abbreviation total :: "chunk list \<Rightarrow> nat" where
  "total cs \<equiv> sum_list (map ch_size cs)"

abbreviation tree_total :: "heads \<times> nat tree \<Rightarrow> nat" where
  "tree_total mt \<equiv> sum_list (map snd (tree_runs mt))"

lemma total_insert_before: "total (insert_before ch_addr c free) = ch_size c + total free"
  by (induction free) auto

lemma move_rounds_spec:
  assumes "rb_ok B" and "pages_ok P" and "tree_ok mt" and "ok_ranges (tree_runs mt)"
    and "\<forall>i \<in> set (inorder (snd mt)). ch_numa_id (fst mt i) = n"
    and "PAGE_SIZE dvd want - allocated \<or> allocated + tree_total mt \<le> want"
  shows "\<exists>mt' free'. move_rounds B P want allocated mt free = Some (mt', free') \<and> moved n mt free mt' free' \<and>
    total free + min (want - allocated) (tree_total mt) \<le> total free'"
  using assms(3-6)
proof (induction "want - allocated" arbitrary: allocated mt free rule: less_induct)
  case less
  note [simp del] = set_inorder
  obtain m t where mt: "mt = (m, t)" by fastforce
  note ok = less.prems [unfolded mt fst_conv snd_conv]
  have ok2: "ok_ranges (tree_runs (m, t))"
    using ok(2) by simp
  show ?case
  proof (cases "allocated < want")
    case False
    then have "min (want - allocated) (tree_total mt) = 0" by simp
    with move_rounds_done [OF False, of B P mt free] moved_refl [of n mt free] show ?thesis by auto
  next
    case want: True
    show ?thesis
    proof (cases "max_scan m (inorder t) (0, None)")
      case (Pair mx pp)
      show ?thesis
      proof (cases pp)
        case None
        with max_scan_none Pair have "\<forall>i \<in> set (inorder t). ch_size (m i) = 0" by fastforce
        then have zero: "tree_total mt = 0"
          by (induction "inorder t") (auto simp: mt node_runs_def frange_def)
        have "move_rounds B P want allocated mt free = Some (mt, free)"
          unfolding mt using Pair None by (intro move_rounds_empty) simp
        moreover have "total free + min (want - allocated) (tree_total mt) \<le> total free"
          using zero by linarith
        ultimately show ?thesis
          using moved_refl [of n mt free] by meson
      next
        case (Some p)
        with max_scan_some [of m "inorder t" 0 None mx p] Pair have p: "p \<in> set (inorder t)" "mx = ch_size (m p)" "0 < mx" by auto
        define c where "c = m p"
        define m' where "m' = m(ch_addr c := c)"
        define t' where "t' = rb_erase B p t"
        define a where "a = leftover_addr P (ch_addr c + (want - allocated))"
        note tt = tree_take [OF assms(1) ok(1) p(1) c_def m'_def t'_def]
        have tot: "tree_total (m, t) = mx + tree_total (m', t')"
        proof -
          have "tree_total (m, t) = sum_mset (image_mset snd (mset (node_runs m (inorder t))))"
            by (simp flip: sum_mset_sum_list)
          also have "\<dots> = mx + tree_total (m', t')"
            unfolding tt(2) using p(2) by (simp add: frange_def c_def flip: sum_mset_sum_list)
          finally show ?thesis .
        qed
        have pg: "paged (frange c)"
          using ok(2) p(1) by (auto simp: ok_ranges_def c_def)
        have numa: "ch_numa_id c = n"
          using ok(3) p(1) by (simp add: c_def)
        show ?thesis
        proof (cases "allocated + mx > want \<and> a < ch_addr c + mx")
          case True
          then have al: "PAGE_SIZE dvd ch_addr c + (want - allocated)"
            using ok(4) tot pg by (auto simp: paged_def frange_def)
          from leftover_addr_ok [OF assms(2) al] have a: "PAGE_SIZE dvd a" "ch_addr c + (want - allocated) \<le> a"
            by (simp_all add: a_def)
          then have lt: "ch_addr c < a" "a < chunk_end c"
            using want True p(2) by (simp_all add: chunk_end_def c_def)
          define mt' where "mt' = mem_chunk_insert B a (m'(a := c\<lparr>ch_addr := a, ch_size := chunk_end c - a\<rparr>), t')"
          let ?free' = "insert_before ch_addr (c\<lparr>ch_size := a - ch_addr c\<rparr>) free"
          have "move_rounds B P want allocated mt free = move_rounds B P want (allocated + (a - ch_addr c)) mt' ?free'"
            using move_rounds_split [OF want Pair [unfolded Some], of P a B free] True lt(1) p(2)
            unfolding mt mt'_def t'_def m'_def a_def chunk_end_def c_def by simp
          also have "\<dots> = Some (mt', ?free')"
            using a(2) by (intro move_rounds_done) simp
          finally have res: "move_rounds B P want allocated mt free = Some (mt', ?free')" .
          have "moved n mt free mt' ?free'"
            unfolding mt by (rule moved_split [OF assms(1) ok(1) p(1) c_def m'_def t'_def ok(3) lt a(1) mt'_def ok2])
          with res a(2) show ?thesis
            by (intro exI conjI) (auto simp: total_insert_before)
        next
          case False
          let ?free' = "insert_before ch_addr c free"
          have res: "move_rounds B P want allocated mt free = move_rounds B P want (allocated + mx) (m', t') ?free'"
            using move_rounds_whole [OF want Pair [unfolded Some], of P B free] False
            unfolding mt t'_def m'_def a_def c_def by blast
          have moved: "moved n mt free (m', t') ?free'"
            unfolding mt by (rule moved_whole [OF assms(1) ok(1) p(1) c_def m'_def t'_def numa])
          have ok': "ok_ranges (tree_runs (m', t'))"
            using ok(2) ok_ranges_mset [OF tt(2)] by (auto simp: ok_ranges_def)
          have numa': "\<forall>i \<in> set (inorder (snd (m', t'))). ch_numa_id (fst (m', t') i) = n"
            using tt(4,5) ok(3) by auto
          have al: "PAGE_SIZE dvd want - (allocated + mx) \<or> allocated + mx + tree_total (m', t') \<le> want"
          proof (rule disjE [OF ok(4)])
            assume "PAGE_SIZE dvd want - allocated"
            moreover have "PAGE_SIZE dvd mx"
              using pg p(2) by (simp add: paged_def frange_def c_def)
            ultimately have "PAGE_SIZE dvd want - allocated - mx" by (rule dvd_diff_nat)
            then show ?thesis by simp
          next
            assume "allocated + sum_list (map snd (node_runs m (inorder t))) \<le> want"
            with tot show ?thesis by simp
          qed
          have "want - (allocated + mx) < want - allocated"
            using want p(3) by simp
          from less.hyps [OF this tt(1) ok' numa' al] obtain mt'' free'' where
            "move_rounds B P want (allocated + mx) (m', t') ?free' = Some (mt'', free'')" "moved n (m', t') ?free' mt'' free''"
            "total ?free' + min (want - (allocated + mx)) (tree_total (m', t')) \<le> total free''" by meson
          with res moved_trans [OF moved this(2)] tot p(2) show ?thesis
            by (intro exI [of _ mt''] exI [of _ free'']) (simp add: total_insert_before c_def mt)
        qed
      qed
    qed
  qed
qed

lemma free_chunks_ends:
  "pages_ok P \<Longrightarrow> \<forall>c \<in> set cs. PAGE_SIZE dvd ch_size c \<Longrightarrow> \<exists>fr. free_chunks P cs s = Some (s\<lparr>pages_freed := fr\<rparr>)"
proof (induction P cs s rule: free_chunks.induct)
  case (1 P s)
  show ?case by (intro exI [of _ "pages_freed s"]) simp
next
  case (2 P c cs s)
  from free_pages_loop_ends [OF 2(2), of "ch_size c" "ch_addr c" "pages_freed s"] 2(3) obtain bs where
    bs: "free_pages_loop P (ch_addr c) (ch_size c) (pages_freed s) = Some (bs @ pages_freed s)" by auto
  have "ihk_smp_release_chunk P c s = Some (s\<lparr>pages_freed := bs @ pages_freed s\<rparr>)"
    by (simp add: ihk_smp_release_chunk_def bs)
  with 2(1) [of "s\<lparr>pages_freed := bs @ pages_freed s\<rparr>"] 2(2,3) show ?case by simp
qed

lemma max_scan_bound: "fst (max_scan m is (b, acc)) \<le> b + sum_list (map snd (node_runs m is))"
proof (induction m "is" "(b, acc)" arbitrary: b acc rule: max_scan.induct)
  case (2 m i "is")
  show ?case
    using 2 [of "ch_size (m i)" "Some i"] 2 [of b acc] by (fastforce simp: frange_def)
qed simp

lemma base_order: "PAGE_SIZE dvd round_to_base n"
  unfolding round_to_base_def Let_def by simp

lemma total_covered:
  "ok_ranges (tree_runs mt) \<Longrightarrow> ok_ranges got \<Longrightarrow> covered (tree_runs mt) = covered got \<Longrightarrow> tree_total mt = sum_list (map snd got)"
  using card_covered [of "tree_runs mt"] card_covered [of got] by (simp add: ok_ranges_def)

text \<open>
  A reservation: the blocks that Linux hands out are apart from each other and from the memory of the
  driver. Then the free chunks become more, on the right node; what is added was handed out; on success it is
  at least what was asked for, and on failure it is nothing.
\<close>

definition reserved :: "int \<Rightarrow> nat \<Rightarrow> int \<Rightarrow> (nat \<times> nat) list \<Rightarrow> 'a smp_mem_scheme \<Rightarrow> 'a smp_mem_scheme \<Rightarrow> bool" where
  "reserved numa_id want r got s s' \<longleftrightarrow>
     mem_wf s' \<and> ihk_mem_used_chunks s' = ihk_mem_used_chunks s \<and>
     (\<exists>cs. mset (ihk_mem_free_chunks s') = mset (cs @ ihk_mem_free_chunks s) \<and> (\<forall>c \<in> set cs. ch_numa_id c = numa_id) \<and>
        covered (map frange cs) \<subseteq> covered got \<and>
        (if r = 0 then want = IHK_SMP_MEM_ALL \<or> want \<le> total cs else cs = []))"

lemma reserve_mem_reserved:
  assumes "ihk_smp_reserve_mem M tries m ihk_mem numa_id mcs ratio timeout s = Some (r, got, s')"
    and "rb_ok (rb M)" and "pages_ok (comp_pages M)" and "mem_wf s"
    and "ok_ranges (got @ ranges s)" and "covered got \<subseteq> {..<IHK_SMP_MEM_ALL}"
    and "want = (if ihk_mem = IHK_SMP_MEM_ALL then ihk_mem else round_to_base ihk_mem)"
  shows "reserved numa_id want r got s s'"
proof (cases "get_order (nat mcs) > MAX_ORDER M \<or> \<not> node_online M numa_id")
  case True
  with assms(1) have "s' = s" "r = err EINVAL" by (auto simp: ihk_smp_reserve_mem_def Let_def split: if_splits)
  with assms(4) show ?thesis
    unfolding reserved_def by (intro conjI exI [of _ "[]"]) simp_all
next
  case False
  define A where "A = \<lparr>ra_want = want, ra_numa = numa_id, ra_ratio = nat ratio, ra_limit = get_order (nat mcs), ra_timeout = timeout\<rparr>"
  define st0 where "st0 = \<lparr>rs_order = get_order IHK_SMP_CHUNK_BASE_SIZE, rs_allocated = 0, rs_failed = 0, rs_secs = 0,
    rs_tmp = (m, \<langle>\<rangle>), rs_got = []\<rparr>"
  have A: "ra_want A = want" "ra_numa A = numa_id" by (simp_all add: A_def)
  from False assms(1) obtain st mt free where loop: "alloc_rounds M A tries st0 = Some (r, st)"
    and move: "(if r \<noteq> 0 then Some (rs_tmp st, ihk_mem_free_chunks s)
      else move_rounds (rb M) (comp_pages M) want 0 (rs_tmp st) (ihk_mem_free_chunks s)) = Some (mt, free)"
    and fin: "smp_ihk_free_mem_from_rbtree (comp_pages M) mt (s\<lparr>ihk_mem_free_chunks := free\<rparr>) = Some s'" and got: "got = rs_got st"
    unfolding ihk_smp_reserve_mem_def Let_def assms(7) [symmetric] A_def [symmetric] st0_def [symmetric]
    by (auto split: if_splits bind_splits) (metis prod.exhaust)
  have "tmp_inv (ranges s) A st0"
    using assms(4) by (simp add: tmp_inv_def st0_def tree_ok_def runs_def mem_wf_def)
  with alloc_rounds_spec [OF loop assms(2), of "ranges s"] assms(5) have inv: "tmp_inv (ranges s) A st"
    and r: "r = 0 \<and> (max_size_mem_chunk (rs_tmp st) \<ge> want \<or> rs_allocated st \<ge> want \<or> want = IHK_SMP_MEM_ALL) \<or> r = err ENOMEM"
    by (auto simp: got A)
  then have tree: "tree_ok (rs_tmp st)" "ok_ranges (tree_runs (rs_tmp st) @ ranges s)" "covered (tree_runs (rs_tmp st)) = covered got"
    "\<forall>i \<in> set (inorder (snd (rs_tmp st))). ch_numa_id (fst (rs_tmp st) i) = numa_id" "rs_allocated st = sum_list (map snd got)"
    by (auto simp: tmp_inv_def got A)
  have okt: "ok_ranges (tree_runs (rs_tmp st))" "ok_ranges got"
    using tree(2) assms(5) by (auto simp: ok_ranges_def apart_list_append)
  have tot: "tree_total (rs_tmp st) = sum_list (map snd got)"
    by (rule total_covered [OF okt tree(3)])
  have enough: "want \<le> tree_total (rs_tmp st) \<or> want = IHK_SMP_MEM_ALL" if "r = 0"
    using r that tot tree(5) max_scan_bound [of "fst (rs_tmp st)" "inorder (snd (rs_tmp st))" 0 None]
    by (auto simp: max_size_mem_chunk_def)
  have al: "PAGE_SIZE dvd want - 0 \<or> 0 + tree_total (rs_tmp st) \<le> want"
  proof (cases "ihk_mem = IHK_SMP_MEM_ALL")
    case True
    have "card (covered got) \<le> IHK_SMP_MEM_ALL"
      using card_mono [OF _ assms(6)] by simp
    with True tot card_covered [of got] okt(2) show ?thesis by (simp add: assms(7) ok_ranges_def)
  qed (simp add: assms(7) base_order)
  have moved: "moved numa_id (rs_tmp st) (ihk_mem_free_chunks s) mt free"
    and sum: "if r = 0 then total (ihk_mem_free_chunks s) + min want (tree_total (rs_tmp st)) \<le> total free else free = ihk_mem_free_chunks s"
  proof -
    from move_rounds_spec [OF assms(2,3) tree(1) okt(1) tree(4) al, of "ihk_mem_free_chunks s"] move
    have "moved numa_id (rs_tmp st) (ihk_mem_free_chunks s) mt free \<and>
      (if r = 0 then total (ihk_mem_free_chunks s) + min want (tree_total (rs_tmp st)) \<le> total free else free = ihk_mem_free_chunks s)"
      by (cases "r = 0") (auto simp: moved_refl)
    then show "moved numa_id (rs_tmp st) (ihk_mem_free_chunks s) mt free"
      "if r = 0 then total (ihk_mem_free_chunks s) + min want (tree_total (rs_tmp st)) \<le> total free else free = ihk_mem_free_chunks s" by blast+
  qed
  have ok': "ok_ranges (map frange free @ tree_runs mt @ map orange (ihk_mem_used_chunks s))"
  proof (rule movedD(1) [OF moved])
    show "ok_ranges (map frange (ihk_mem_free_chunks s) @ tree_runs (rs_tmp st) @ map orange (ihk_mem_used_chunks s))"
      using tree(2) ok_ranges_mset [of "tree_runs (rs_tmp st) @ ranges s"
          "map frange (ihk_mem_free_chunks s) @ tree_runs (rs_tmp st) @ map orange (ihk_mem_used_chunks s)"] by (simp add: ranges_def)
  qed
  have "\<forall>c \<in> set (map (fst mt) (inorder (snd mt))). PAGE_SIZE dvd ch_size c"
  proof
    fix c
    assume "c \<in> set (map (fst mt) (inorder (snd mt)))"
    then have "paged (frange c)"
      using ok' by (auto simp: ok_ranges_def)
    then show "PAGE_SIZE dvd ch_size c"
      by (simp add: paged_def frange_def)
  qed
  from free_chunks_ends [OF assms(3) this, of "s\<lparr>ihk_mem_free_chunks := free\<rparr>"] fin obtain fr where
    s': "s' = s\<lparr>ihk_mem_free_chunks := free, pages_freed := fr\<rparr>"
    by (auto simp: smp_ihk_free_mem_from_rbtree_def)
  have okr: "ok_ranges (ranges s')"
    using ok' by (auto simp: s' ranges_def ok_ranges_def apart_list_append)
  from movedD(4) [OF moved] obtain cs where cs: "mset free = mset (cs @ ihk_mem_free_chunks s)" "\<forall>c \<in> set cs. ch_numa_id c = numa_id" by blast
  have fc: "covered (map frange free) = covered (map frange cs) \<union> covered (map frange (ihk_mem_free_chunks s))"
    using covered_mset [of "map frange free" "map frange (cs @ ihk_mem_free_chunks s)"] cs(1) by (simp del: mset_append add: image_mset_union mset_append)
  have disj: "covered (map frange cs) \<inter> covered (map frange (ihk_mem_free_chunks s)) = {}"
  proof -
    have "mset (map frange free) = mset (map frange cs @ map frange (ihk_mem_free_chunks s))"
      using cs(1) by simp
    moreover have "apart_list (map frange free)"
      using ok' by (simp add: ok_ranges_def apart_list_append)
    ultimately show ?thesis
      using apart_list_mset covered_apart by blast
  qed
  have new: "covered (map frange cs) \<subseteq> covered got"
    using movedD(2) [OF moved] fc disj tree(3) by auto
  have "covered (ranges s') \<subseteq> {..<IHK_SMP_MEM_ALL}"
    using new fc assms(4,6) by (auto simp: s' ranges_def mem_wf_def)
  with okr movedD(3) [OF moved] assms(4) have wf: "mem_wf s'"
    by (simp add: mem_wf_def s')
  have "total free = total cs + total (ihk_mem_free_chunks s)"
    using arg_cong [OF cs(1), of "\<lambda>M. sum_mset (image_mset ch_size M)"] by (simp flip: sum_mset_sum_list)
  then have "if r = 0 then want = IHK_SMP_MEM_ALL \<or> want \<le> total cs else cs = []"
    using sum enough cs(1) by (auto split: if_splits)
  with wf cs new show ?thesis
    unfolding reserved_def by (auto simp: s')
qed

section \<open>What reserving memory promises\<close>

text \<open>Trees that are rebuilt as a list: an instance of what Linux provides.\<close>

definition list_rb :: rb_ops where
  "list_rb = \<lparr>rb_insert_color = (\<lambda>t. t), rb_erase = (\<lambda>p t. foldr (\<lambda>x t. \<langle>\<langle>\<rangle>, x, t\<rangle>) (remove1 p (inorder t)) \<langle>\<rangle>)\<rparr>"

lemma list_rb_ok: "rb_ok list_rb"
proof -
  have "inorder (foldr (\<lambda>x t. \<langle>\<langle>\<rangle>, x, t\<rangle>) xs \<langle>\<rangle>) = xs" for xs :: "nat list"
    by (induction xs) auto
  then show ?thesis
    by (simp add: rb_ok_def list_rb_def)
qed

definition demo_mem :: lnx_mem where
  "demo_mem = \<lparr>rb = list_rb, comp_pages = (\<lambda>_. None), node_online = (\<lambda>n. n = 0 \<or> n = 1), num_online_nodes = 1,
     node_free_mem = (\<lambda>_. 2 ^ 30), has_try_to_free = False, MAX_ORDER = 11\<rparr>"

definition no_heads :: heads where
  "no_heads = (\<lambda>_. \<lparr>ch_addr = 0, ch_size = 0, ch_numa_id = 0\<rparr>)"

text \<open>
  Property C6. The temporary tree of chunks, however Linux balances it: inserting a chunk that is apart from those in the tree has the
  effect of inserting its range into a list of runs. The runs stay in order with a gap between any two, so that the
  largest contiguous area is always one node.
\<close>

theorem mem_chunk_insert_refines:
  assumes "rb_ok B" and "runs (node_runs m (inorder t))" and "p \<notin> set (inorder t)" and "0 < ch_size (m p)"
    and "\<forall>i \<in> set (inorder t). apart (frange (m p)) (frange (m i))"
    and "mem_chunk_insert B p (m, t) = (m', t')"
  shows "node_runs m' (inorder t') = insert_run (frange (m p)) (node_runs m (inorder t)) \<and> runs (node_runs m' (inorder t'))"
  using mem_chunk_insert_spec [OF assms] insert_run_runs [OF assms(2), of "frange (m p)"] assms(4,5)
  by (simp add: frange_def)

definition demo_heads :: heads where
  "demo_heads = no_heads(16 * PAGE_SIZE := free_chunk 16 1, 17 * PAGE_SIZE := free_chunk 17 1, 18 * PAGE_SIZE := free_chunk 18 2)"

lemma demo_heads_simps [simp]:
  "demo_heads (16 * PAGE_SIZE) = free_chunk 16 1" "demo_heads (17 * PAGE_SIZE) = free_chunk 17 1" "demo_heads (18 * PAGE_SIZE) = free_chunk 18 2"
  by (simp_all add: demo_heads_def PAGE_SIZE_def)

theorem mem_chunk_insert_refines_witness:
  "\<exists>m' t'. mem_chunk_insert list_rb (17 * PAGE_SIZE) (demo_heads, \<langle>\<langle>\<rangle>, 16 * PAGE_SIZE, \<langle>\<langle>\<rangle>, 18 * PAGE_SIZE, \<langle>\<rangle>\<rangle>\<rangle>) = (m', t') \<and>
     node_runs m' (inorder t') = [(16 * PAGE_SIZE, 4 * PAGE_SIZE)]"
proof -
  let ?t = "\<langle>\<langle>\<rangle>, 16 * PAGE_SIZE, \<langle>\<langle>\<rangle>, 18 * PAGE_SIZE, \<langle>\<rangle>\<rangle>\<rangle>"
  obtain m' t' where ins: "mem_chunk_insert list_rb (17 * PAGE_SIZE) (demo_heads, ?t) = (m', t')" by fastforce
  have "runs (node_runs demo_heads (inorder ?t))" "17 * PAGE_SIZE \<notin> set (inorder ?t)" "0 < ch_size (demo_heads (17 * PAGE_SIZE))"
    "\<forall>i \<in> set (inorder ?t). apart (frange (demo_heads (17 * PAGE_SIZE))) (frange (demo_heads i))"
    by (simp_all add: runs_def gap_def frange_def free_chunk_def) (simp_all add: PAGE_SIZE_def)
  from mem_chunk_insert_refines [OF list_rb_ok this ins] have "node_runs m' (inorder t') = [(16 * PAGE_SIZE, 4 * PAGE_SIZE)]"
    by (simp add: frange_def free_chunk_def)
  with ins show ?thesis by blast
qed

text \<open>
  Property C5. Reserving memory, when Linux hands out blocks that are apart from each other and from the driver's memory: the invariant is
  kept and the chunks given to instances are untouched; the chunks that were free stay, and those that are added lie in blocks
  handed out and are on the node asked for. A successful call adds at least the size asked for, rounded up to the base size
  (or whatever can be had, if everything was asked for); a failing call adds nothing.
\<close>

theorem reserve_mem_spec:
  assumes "ihk_smp_reserve_mem M tries m ihk_mem numa_id min_chunk_size ratio timeout s = Some (r, got, s')"
    and "rb_ok (rb M)" and "pages_ok (comp_pages M)" and "mem_wf s"
    and "ok_ranges (got @ ranges s)" and "covered got \<subseteq> {..<IHK_SMP_MEM_ALL}"
  shows "mem_wf s' \<and> ihk_mem_used_chunks s' = ihk_mem_used_chunks s \<and>
    (\<exists>cs. mset (ihk_mem_free_chunks s') = mset (cs @ ihk_mem_free_chunks s) \<and> (\<forall>c \<in> set cs. ch_numa_id c = numa_id) \<and>
      covered (map frange cs) \<subseteq> covered got \<and>
      (if r = 0 then ihk_mem = IHK_SMP_MEM_ALL \<or> round_to_base ihk_mem \<le> total cs else cs = []))"
proof -
  have "round_to_base n \<noteq> IHK_SMP_MEM_ALL" for n
    using base_order [of n] by (auto simp: PAGE_SIZE_def IHK_SMP_MEM_ALL_def)
  with reserve_mem_reserved [OF assms refl] show ?thesis
    unfolding reserved_def by (cases "ihk_mem = IHK_SMP_MEM_ALL") auto
qed

definition refusal :: alloc_try where
  "refusal = \<lparr>at_page = None, at_freed = 0, at_free_secs = 0, at_now = 0\<rparr>"

definition demo_tries :: "alloc_try list" where
  "demo_tries = [refusal\<lparr>at_page := Some (1024 * PAGE_SIZE)\<rparr>]"

lemma demo_orders: "get_order IHK_SMP_CHUNK_BASE_SIZE = 10" "get_order 4096 = 0" "round_to_base 4194304 = 4194304"
proof -
  show ten: "get_order IHK_SMP_CHUNK_BASE_SIZE = 10"
    by (simp add: get_order_def IHK_SMP_CHUNK_BASE_SIZE_def PAGE_SIZE_def fls.simps)
  show "get_order 4096 = 0"
    by (simp add: get_order_def PAGE_SIZE_def)
  show "round_to_base 4194304 = 4194304"
    by (simp add: round_to_base_def ten PAGE_SIZE_def)
qed

lemma demo_reserve_mem:
  "\<exists>s'. ihk_smp_reserve_mem demo_mem demo_tries no_heads 4194304 1 4096 98 30 (mem_state [] []) = Some (0, [(1024 * PAGE_SIZE, 4194304)], s') \<and>
     ihk_mem_free_chunks s' = [\<lparr>ch_addr = 1024 * PAGE_SIZE, ch_size = 4194304, ch_numa_id = 1\<rparr>]"
  unfolding ihk_smp_reserve_mem_def
  by (simp add: demo_orders Let_def demo_mem_def demo_tries_def refusal_def alloc_rounds.simps grabbed_enough_def IHK_SMP_MEM_ALL_def
        max_size_mem_chunk_def add_block_def mem_chunk_insert_def list_rb_def move_rounds.simps leftover_addr_def smp_ihk_free_mem_from_rbtree_def PAGE_SIZE_def)

theorem reserve_mem_spec_witness:
  "\<exists>s'. ihk_smp_reserve_mem demo_mem demo_tries no_heads 4194304 1 4096 98 30 (mem_state [] []) = Some (0, [(1024 * PAGE_SIZE, 4194304)], s') \<and>
     mem_wf s' \<and> ihk_mem_used_chunks s' = []"
proof -
  obtain s' where res: "ihk_smp_reserve_mem demo_mem demo_tries no_heads 4194304 1 4096 98 30 (mem_state [] []) =
      Some (0, [(1024 * PAGE_SIZE, 4194304)], s')"
    using demo_reserve_mem by blast
  have "rb_ok (rb demo_mem)" "pages_ok (comp_pages demo_mem)" "mem_wf (mem_state [] [])"
    "ok_ranges ([(1024 * PAGE_SIZE, 4194304)] @ ranges (mem_state [] []))" "covered [(1024 * PAGE_SIZE, 4194304)] \<subseteq> {..<IHK_SMP_MEM_ALL}"
    by (auto simp: demo_mem_def list_rb_ok pages_ok_def demo_mem_defs)
  from reserve_mem_spec [OF res this] res show ?thesis by auto
qed



end
