(* ===== verification/Mem_Isolation.thy ===== *)
theory Mem_Isolation
  imports Smp_Reserve
begin

text \<open>
  The memory operations of the SMP driver as a partition of physical memory: the locale \<open>partition\<close> is
  interpreted on the requests of \<open>Smp_Mem\<close> and \<open>Smp_Reserve\<close>, with the bytes of memory as the resources. The one
  request left out is the partial release, which breaks the invariant; the last section shows how.
\<close>

section \<open>Where a byte is\<close>

definition place_mem :: "'a smp_mem_scheme \<Rightarrow> nat \<Rightarrow> place" where
  "place_mem s b =
     (case find (\<lambda>c. oc_addr c \<le> b \<and> b < oc_addr c + oc_size c) (ihk_mem_used_chunks s) of
        Some c \<Rightarrow> Os (oc_os c)
      | None \<Rightarrow> if list_ex (\<lambda>c. ch_addr c \<le> b \<and> b < ch_addr c + ch_size c) (ihk_mem_free_chunks s) then Pool else Outside)"

lemma used_apart:
  assumes "apart_list (map orange cs)" and "c \<in> set cs" and "d \<in> set cs" and "b \<in> bytes_of (orange c)" and "b \<in> bytes_of (orange d)"
  shows "c = d"
  using assms
proof (induction cs)
  case (Cons x cs)
  have "b \<notin> bytes_of (orange d)" if "d \<in> set cs" "b \<in> bytes_of (orange x)" for d
    using Cons.prems(1) that apart_bytes [of "orange x" "orange d"] by auto
  with Cons show ?case by auto
qed simp

lemma place_mem_Os:
  assumes "mem_wf s"
  shows "place_mem s b = Os h \<longleftrightarrow> b \<in> os_bytes s h"
proof -
  have ap: "apart_list (map orange (ihk_mem_used_chunks s))"
    using assms by (simp add: mem_wf_def ok_ranges_def ranges_def apart_list_append)
  show ?thesis
  proof (cases "find (\<lambda>c. oc_addr c \<le> b \<and> b < oc_addr c + oc_size c) (ihk_mem_used_chunks s)")
    case None
    then have "place_mem s b \<noteq> Os h"
      by (simp add: place_mem_def)
    moreover from None have "\<forall>c \<in> set (ihk_mem_used_chunks s). b \<notin> bytes_of (orange c)"
      by (simp add: find_None_iff bytes_of_def orange_def)
    ultimately show ?thesis
      by (auto simp: os_bytes_def covered_def)
  next
    case (Some c)
    then have c: "c \<in> set (ihk_mem_used_chunks s)" "b \<in> bytes_of (orange c)"
      by (auto simp: find_Some_iff bytes_of_def orange_def)
    have "b \<in> os_bytes s h \<longleftrightarrow> (\<exists>d \<in> set (ihk_mem_used_chunks s). oc_os d = h \<and> b \<in> bytes_of (orange d))"
      by (auto simp: os_bytes_def covered_def)
    also have "\<dots> \<longleftrightarrow> oc_os c = h"
      using used_apart [OF ap c(1) _ c(2)] c by blast
    finally show ?thesis
      using Some by (simp add: place_mem_def)
  qed
qed

lemma place_mem_Outside:
  "place_mem s b = Outside \<longleftrightarrow> b \<notin> free_bytes s \<and> (\<forall>h. b \<notin> os_bytes s h)"
proof (cases "find (\<lambda>c. oc_addr c \<le> b \<and> b < oc_addr c + oc_size c) (ihk_mem_used_chunks s)")
  case None
  then have "place_mem s b = Outside \<longleftrightarrow> b \<notin> free_bytes s"
    by (simp add: place_mem_def bytes_of_def free_bytes_def covered_def frange_def list_ex_iff)
  moreover from None have "\<forall>c \<in> set (ihk_mem_used_chunks s). b \<notin> bytes_of (orange c)"
    by (simp add: find_None_iff bytes_of_def orange_def)
  ultimately show ?thesis
    by (auto simp: os_bytes_def covered_def)
next
  case (Some c)
  then have "c \<in> set (ihk_mem_used_chunks s)" "b \<in> bytes_of (orange c)"
    by (auto simp: find_Some_iff bytes_of_def orange_def)
  with Some show ?thesis
    by (auto simp: place_mem_def os_bytes_def covered_def)
qed

section \<open>The operations\<close>

lemma reserved_wf: "reserved numa_id want r got s s' \<Longrightarrow> mem_wf s'"
  by (simp add: reserved_def)

lemma reserved_bytes:
  assumes "reserved numa_id want r got s s'"
  shows "free_bytes s \<subseteq> free_bytes s'" "free_bytes s' \<subseteq> free_bytes s \<union> covered got"
proof -
  from assms obtain cs where cs: "mset (ihk_mem_free_chunks s') = mset (cs @ ihk_mem_free_chunks s)" "covered (map frange cs) \<subseteq> covered got"
    unfolding reserved_def by blast
  have "mset (map frange (ihk_mem_free_chunks s')) = mset (map frange cs @ map frange (ihk_mem_free_chunks s))"
    using cs(1) by simp
  from covered_mset [OF this] have "free_bytes s' = covered (map frange cs) \<union> free_bytes s"
    by (simp add: free_bytes_def)
  with cs(2) show "free_bytes s \<subseteq> free_bytes s'" "free_bytes s' \<subseteq> free_bytes s \<union> covered got"
    by blast+
qed

lemma reserve_each_spec:
  assumes "reserve_each M tries m req rs i s = Some (r, got, s')"
    and "rb_ok (rb M)" and "pages_ok (comp_pages M)" and "mem_wf s"
    and "ok_ranges (got @ ranges s)" and "covered got \<subseteq> {..<IHK_SMP_MEM_ALL}"
  shows "mem_wf s' \<and> ihk_mem_used_chunks s' = ihk_mem_used_chunks s \<and>
    free_bytes s \<subseteq> free_bytes s' \<and> free_bytes s' \<subseteq> free_bytes s \<union> covered got"
  using assms(1,4-6)
proof (induction rs arbitrary: i s got)
  case (Cons q rs)
  obtain sz numa_id where q: "q = (sz, numa_id)" by fastforce
  with Cons.prems(1) obtain ret got1 s1 where one: "ihk_smp_reserve_mem M (tries i) m sz numa_id
      (req_min_chunk_size req) (req_max_size_ratio_all req) (req_timeout req) s = Some (ret, got1, s1)"
    and rest: "ret \<noteq> 0 \<and> got = got1 \<and> s' = s1 \<or>
      ret = 0 \<and> (\<exists>got2. reserve_each M tries m req rs (i + 1) s1 = Some (r, got2, s') \<and> got = got2 @ got1)"
    by (auto split: bind_splits if_splits)
  have got1: "ok_ranges (got1 @ ranges s)" "covered got1 \<subseteq> {..<IHK_SMP_MEM_ALL}"
    using rest Cons.prems(3,4) by (auto simp: ok_ranges_def apart_list_append)
  note res = reserve_mem_reserved [OF one assms(2,3) Cons.prems(2) got1 refl]
  note b1 = reserved_bytes [OF res]
  have used: "ihk_mem_used_chunks s1 = ihk_mem_used_chunks s"
    using res by (simp add: reserved_def)
  from rest show ?case
  proof
    assume "ret \<noteq> 0 \<and> got = got1 \<and> s' = s1"
    with reserved_wf [OF res] used b1 show ?thesis by simp
  next
    assume "ret = 0 \<and> (\<exists>got2. reserve_each M tries m req rs (i + 1) s1 = Some (r, got2, s') \<and> got = got2 @ got1)"
    then obtain got2 where got2: "reserve_each M tries m req rs (i + 1) s1 = Some (r, got2, s')" "got = got2 @ got1" by blast
    have "covered (ranges s1) \<subseteq> covered (got1 @ ranges s)"
      using b1 used by (auto simp: ranges_def free_bytes_def)
    moreover have "ok_ranges (ranges s1)"
      using reserved_wf [OF res] by (simp add: mem_wf_def)
    moreover have "ok_ranges (got2 @ (got1 @ ranges s))"
      using Cons.prems(3) by (simp add: got2(2))
    ultimately have "ok_ranges (got2 @ ranges s1)"
      using ok_ranges_refine by blast
    from Cons.IH [OF got2(1) reserved_wf [OF res] this] Cons.prems(4) b1 used show ?thesis
      by (auto simp: got2(2))
  qed
qed (simp add: free_bytes_def)

lemma smp_ihk_reserve_mem_moves:
  assumes "smp_ihk_reserve_mem L M tries m arg s = Some (r, got, s')"
    and "rb_ok (rb M)" and "pages_ok (comp_pages M)"
    and "ok_ranges (got @ ranges s)" and "covered got \<subseteq> {..<IHK_SMP_MEM_ALL}"
  shows "mem_wf s \<Longrightarrow> mem_wf s' \<and> ihk_mem_used_chunks s' = ihk_mem_used_chunks s"
  using assms reserve_each_spec [OF _ assms(2,3) _ assms(4,5)]
  by (fastforce simp: smp_ihk_reserve_mem_def split: sum.splits if_splits)

text \<open>
  The requests, with who makes them. Linux keeps its promises about trees and pages and hands out memory that is not in use;
  the sizes an instance asks for consist of pages.
\<close>

type_synonym mem_sys = "smp_mem \<times> (ihk_os \<Rightarrow> smp_os_data)"

inductive mem_step :: "actor \<Rightarrow> mem_sys \<Rightarrow> mem_sys \<Rightarrow> bool" where
  mem_reserve: "smp_ihk_reserve_mem L M tries m arg s = Some (r, got, s') \<Longrightarrow> rb_ok (rb M) \<Longrightarrow> pages_ok (comp_pages M) \<Longrightarrow>
    ok_ranges (got @ ranges s) \<Longrightarrow> covered got \<subseteq> {..<IHK_SMP_MEM_ALL} \<Longrightarrow> mem_step Host (s, D) (s', D)"
| mem_release: "smp_ihk_release_mem L P arg s = Some (r, s') \<Longrightarrow> mem_step Host (s, D) (s', D)"
| mem_os_assign: "smp_ihk_os_assign_mem L km P behind h arg (s, D h) = Some (r, s', d') \<Longrightarrow> pages_ok P \<Longrightarrow>
    page_sizes (req_list arg) \<Longrightarrow> mem_step (Inst h) (s, D) (s', D(h := d'))"
| mem_os_release: "smp_ihk_os_release_mem L uncopied h arg (s, D h) = (r, s') \<Longrightarrow> mem_step (Inst h) (s, D) (s', D)"
| mem_os_shutdown: "s' = drop_os_chunks h (ihk_mem_used_chunks s) s \<Longrightarrow> mem_step (Inst h) (s, D) (s', D)"

lemma mem_step_effect:
  assumes "mem_step a (s, D) (s', D')" and "mem_wf s"
  shows "case a of Host \<Rightarrow> mem_wf s' \<and> ihk_mem_used_chunks s' = ihk_mem_used_chunks s | Inst h \<Rightarrow> mem_moves h s s'"
  using assms(1)
proof (cases rule: mem_step.cases)
  case (mem_reserve L M tries m arg r got)
  from smp_ihk_reserve_mem_moves [OF mem_reserve(3-7) assms(2)] mem_reserve(1) show ?thesis by simp
next
  case (mem_release L P arg r)
  from smp_ihk_release_mem_moves [OF mem_release(3)] mem_release(1) assms(2) show ?thesis by (simp add: host_moves_def)
next
  case (mem_os_assign L km P behind h arg r d')
  from smp_ihk_os_assign_mem_moves [OF mem_os_assign(3) assms(2) mem_os_assign(4,5)] mem_os_assign(1) show ?thesis by simp
next
  case (mem_os_release L uncopied h arg r)
  from smp_ihk_os_release_mem_moves [of h s L uncopied arg "D h"] mem_os_release(1,3) show ?thesis by simp
next
  case (mem_os_shutdown h)
  from drop_os_chunks_spec [of s "[]" "ihk_mem_used_chunks s" h] mem_os_shutdown(1,3) show ?thesis by simp
qed

definition mem_place :: "mem_sys \<Rightarrow> nat \<Rightarrow> place" where
  "mem_place S = place_mem (fst S)"

interpretation mem: partition "\<lambda>S. mem_wf (fst S)" mem_place mem_step
proof unfold_locales
  fix S a S'
  assume wf: "mem_wf (fst S)" and step: "mem_step a S S'"
  obtain s D s' D' where S: "S = (s, D)" "S' = (s', D')" by fastforce
  from wf have wf1: "mem_wf s" by (simp add: S)
  from step have step': "mem_step a (s, D) (s', D')" by (simp add: S)
  note effect = mem_step_effect [OF step' wf1]
  then show wf': "mem_wf (fst S')"
    using mem_moves_wf [OF _ wf1] by (auto simp: S split: actor.splits)
  then have wf2: "mem_wf s'" by (simp add: S)
  fix b
  assume moved: "mem_place S' b \<noteq> mem_place S b"
  show "may_move a (mem_place S b) (mem_place S' b)"
  proof (cases a)
    case Host
    with effect have "os_bytes s' h = os_bytes s h" for h
      by (simp add: os_bytes_def)
    then have same: "place_mem s' b = Os h \<longleftrightarrow> place_mem s b = Os h" for h
      by (simp add: place_mem_Os wf1 wf2)
    with moved show ?thesis
      by (auto simp: Host mem_place_def S)
  next
    case (Inst h)
    with effect have inst: "mem_moves h s s'" by simp
    then have others: "place_mem s' b = Os h' \<longleftrightarrow> place_mem s b = Os h'" if "h' \<noteq> h" for h'
      using that by (simp add: place_mem_Os wf1 wf2 mem_moves_def)
    have "place_mem s' b = Outside" if out: "place_mem s b = Outside"
    proof -
      from out have "b \<notin> free_bytes s" "\<And>k. b \<notin> os_bytes s k" by (auto simp: place_mem_Outside)
      then have "b \<notin> free_bytes s'" "b \<notin> os_bytes s' k" for k
        using inst by (cases "k = h"; auto simp: mem_moves_def)+
      then show ?thesis by (simp add: place_mem_Outside)
    qed
    with moved others show ?thesis
      by (auto simp: Inst mem_place_def S)
  qed
qed

section \<open>What the partition promises\<close>

text \<open>
  Property C1. Memory of one kernel instance is out of reach of the others and of the host's own requests: through any sequence of
  reservations, releases, assignments and shutdowns that are not asked for by an instance, the bytes given to it stay the same.
\<close>

theorem mem_isolation:
  assumes "mem.run S as S'" and "mem_wf (fst S)" and "Inst h \<notin> set as"
  shows "os_bytes (fst S') h = os_bytes (fst S) h"
proof -
  have "mem_wf (fst S')"
    using mem.run_inv [OF assms(1)] assms(2) by simp
  then show ?thesis
    using mem.run_isolation [OF assms] place_mem_Os [OF assms(2)] by (auto simp: mem_place_def place_mem_Os)
qed

definition demo_owned_mem :: smp_mem where
  "demo_owned_mem = mem_state [free_chunk 16 1] [os_chunk 1 32 3, os_chunk 2 64 1]"

lemma demo_owned_mem_wf: "mem_wf demo_owned_mem"
  by (simp add: demo_owned_mem_def demo_mem_defs) auto

theorem mem_isolation_witness:
  "\<exists>S'. mem.run (demo_owned_mem, \<lambda>_. new_os_data) [Inst 2] S' \<and> ihk_mem_used_chunks (fst S') = [os_chunk 1 32 3] \<and>
     os_bytes (fst S') 1 = os_bytes demo_owned_mem 1"
proof -
  let ?s' = "drop_os_chunks 2 (ihk_mem_used_chunks demo_owned_mem) demo_owned_mem"
  have "mem_step (Inst 2) (demo_owned_mem, \<lambda>_. new_os_data) (?s', \<lambda>_. new_os_data)"
    by (rule mem_os_shutdown) simp
  then have run: "mem.run (demo_owned_mem, \<lambda>_. new_os_data) [Inst 2] (?s', \<lambda>_. new_os_data)"
    by (auto intro: mem.run.intros)
  have "ihk_mem_used_chunks ?s' = [os_chunk 1 32 3]"
    by (simp add: demo_owned_mem_def os_chunk_def add_free_mem_chunk_def)
  with run mem_isolation [OF run, of 1] demo_owned_mem_wf show ?thesis
    by (intro exI [of _ "(?s', \<lambda>_. new_os_data)"]) simp
qed

text \<open>The driver starts with empty lists.\<close>

definition smp_ihk_init_mem :: "smp \<Rightarrow> smp_mem" where
  "smp_ihk_init_mem s = smp.extend s (smp_mem.fields [] [] [])"



section \<open>The partial release\<close>

text \<open>
  Property C37. A partial release inserts the headers of all free chunks into a tree, which joins neighbouring chunks by
  enlarging one header, but leaves the other in the free list. Afterwards the free list has overlapping chunks, and the same
  page can be given to two instances: with two neighbouring free pages of node 0 and a page of node 1, giving back the page of node
  1 is enough.
\<close>

theorem partial_release_shares_memory:
  "\<exists>s1 s2 s3 d1 d2. mem_wf (mem_state [free_chunk 16 1, free_chunk 17 1, (free_chunk 64 1)\<lparr>ch_numa_id := 1\<rparr>] []) \<and>
    ihk_smp_release_mem_partially demo_mem no_heads PAGE_SIZE 1
      (mem_state [free_chunk 16 1, free_chunk 17 1, (free_chunk 64 1)\<lparr>ch_numa_id := 1\<rparr>] []) = Some (0, s1) \<and>
    os_assign_mem (\<lambda>_. True) (\<lambda>_. None) far 1 (2 * PAGE_SIZE) 0 (s1, new_os_data) = Some (0, s2, d1) \<and>
    os_assign_mem (\<lambda>_. True) (\<lambda>_. None) far 2 PAGE_SIZE 0 (s2, new_os_data) = Some (0, s3, d2) \<and>
    17 * PAGE_SIZE \<in> os_bytes s3 1 \<and> 17 * PAGE_SIZE \<in> os_bytes s3 2"
proof -
  let ?s = "mem_state [free_chunk 16 1, free_chunk 17 1, (free_chunk 64 1)\<lparr>ch_numa_id := 1\<rparr>] []"
  define s1 where "s1 = (mem_state [free_chunk 16 2, free_chunk 17 1] [])\<lparr>pages_freed := [(64 * PAGE_SIZE, PAGE_SIZE)]\<rparr>"
  define s3 where "s3 = (mem_state [] [os_chunk 1 16 2, os_chunk 2 17 1])\<lparr>pages_freed := [(64 * PAGE_SIZE, PAGE_SIZE)]\<rparr>"
  have "mem_wf ?s"
    by (simp add: demo_mem_defs) auto
  moreover have "ihk_smp_release_mem_partially demo_mem no_heads PAGE_SIZE 1 ?s = Some (0, s1)"
    by (simp add: ihk_smp_release_mem_partially_def s1_def demo_mem_def free_heads_def free_chunk_def mem_chunk_insert_def chunk_end_def
        rb_next_def list_rb_def no_heads_def partial_rounds.simps free_pages_loop.simps PAGE_SIZE_def mem_state_def smp.defs smp_mem.defs Let_def)
  moreover have "\<exists>s2 d1. os_assign_mem (\<lambda>_. True) (\<lambda>_. None) far 1 (2 * PAGE_SIZE) 0 (s1, new_os_data) = Some (0, s2, d1) \<and>
      (\<exists>d2. os_assign_mem (\<lambda>_. True) (\<lambda>_. None) far 2 PAGE_SIZE 0 (s2, new_os_data) = Some (0, s3, d2))"
    by (simp add: os_assign_mem_def assign_loop.simps s1_def s3_def free_chunk_def os_chunk_def PAGE_SIZE_def mem_state_def smp.defs smp_mem.defs)
  moreover have "17 * PAGE_SIZE \<in> os_bytes s3 1" "17 * PAGE_SIZE \<in> os_bytes s3 2"
    by (simp_all add: s3_def os_bytes_def os_chunk_def orange_def bytes_of_def PAGE_SIZE_def)
  ultimately show ?thesis by blast
qed

end
