(* ===== verification/Smp_Load.thy ===== *)
theory Smp_Load
  imports Mem_Isolation Ikc_Packet
begin

text \<open>
  Loading a kernel image into the memory of an instance, \<^verbatim>\<open>linux/driver/smp/smp-driver.c\<close>
  (\<open>smp_ihk_os_load_file\<close>, \<open>smp_ihk_os_load_mem\<close>) and the start-up page that
  \<open>smp_ihk_os_setup_startup\<close> of \<^verbatim>\<open>linux/driver/smp/arch/x86_64/smp-arch-driver.c\<close> writes. Physical memory
  is a function from addresses to bytes, addresses are natural numbers below \<open>2 ^ 64\<close> with the
  wrap-around of \<open>unsigned long\<close> written out. What \<open>kernel_read\<close> returns is a parameter. The
  variable \<open>maxoffset\<close> is left out: it is computed and never used.
\<close>

section \<open>Data\<close>

record smp_boot = smp_os_data +
  bootstrap_mem_start :: nat
  bootstrap_mem_end :: nat
  bootstrap_numa_id :: int
  boot_rip :: nat

text \<open>
  A read of at most \<open>n\<close> bytes from position \<open>pos\<close> gives the result of \<open>kernel_read\<close> and the bytes it
  stores.
\<close>

type_synonym kfile = "nat \<Rightarrow> nat \<Rightarrow> int \<times> bytes"

text \<open>
  What the start-up page depends on: the physical address of the boot page table if it could be
  built, the start-up code, and the address of the trampoline.
\<close>

record startup_env =
  se_boot_pt :: "nat option"
  startup_data :: "byte list"
  trampoline_phys :: nat

definition w64 :: "nat \<Rightarrow> nat" where
  "w64 n = n mod 2 ^ 64"

definition sub64 :: "nat \<Rightarrow> nat \<Rightarrow> nat" where
  "sub64 a b = w64 (a + (2 ^ 64 - b))"

definition IHK_SMP_LARGE_PAGE :: nat where
  "IHK_SMP_LARGE_PAGE = 2 ^ 21"

definition IHK_SMP_MAP_KERNEL_START :: nat where
  "IHK_SMP_MAP_KERNEL_START = 0xFFFFFFFFFE800000"

definition round_page :: "nat \<Rightarrow> nat" where
  "round_page n = (let y = w64 (n + PAGE_SIZE - 1) in y - y mod PAGE_SIZE)"

definition image_base :: "nat \<Rightarrow> nat" where
  "image_base start =
     (let y = w64 (start + 2 * IHK_SMP_LARGE_PAGE - 1) in y - y mod IHK_SMP_LARGE_PAGE)"

definition copy_in :: "nat \<Rightarrow> nat \<Rightarrow> bytes \<Rightarrow> bytes \<Rightarrow> bytes" where
  "copy_in buf n src m = (\<lambda>a. if buf \<le> a \<and> a < buf + n then src (a - buf) else m a)"

section \<open>ELF headers in memory\<close>

definition e_magic :: "nat \<Rightarrow> bytes \<Rightarrow> bool" where
  "e_magic p m \<longleftrightarrow> m p = 0x7f \<and> m (p + 1) = 0x45 \<and> m (p + 2) = 0x4c \<and> m (p + 3) = 0x46"

definition e_entry :: "nat \<Rightarrow> bytes \<Rightarrow> nat" where
  "e_entry p m = unat (get64 (p + 24) m)"

definition e_phoff :: "nat \<Rightarrow> bytes \<Rightarrow> nat" where
  "e_phoff p m = unat (get64 (p + 32) m)"

definition e_phnum :: "nat \<Rightarrow> bytes \<Rightarrow> nat" where
  "e_phnum p m = unat (m (p + 56)) + 256 * unat (m (p + 57))"

definition sizeof_phdr :: nat where
  "sizeof_phdr = 56"

record phdr =
  p_type :: nat
  p_offset :: nat
  p_vaddr :: nat
  p_filesz :: nat
  p_memsz :: nat

definition phdr_of_mem :: "nat \<Rightarrow> bytes \<Rightarrow> phdr" where
  "phdr_of_mem p m = \<lparr>p_type = unat (get32 p m), p_offset = unat (get64 (p + 8) m), p_vaddr = unat (get64 (p + 16) m),
     p_filesz = unat (get64 (p + 32) m), p_memsz = unat (get64 (p + 40) m)\<rparr>"

definition PT_LOAD :: nat where
  "PT_LOAD = 1"

section \<open>Loading a file\<close>

text \<open>The pages of a segment that are read from the file.\<close>

function load_pages ::
  "'a smp_mem_scheme \<Rightarrow> kfile \<Rightarrow> nat \<Rightarrow> nat \<Rightarrow> nat \<Rightarrow> nat \<Rightarrow> bytes \<Rightarrow> (int \<times> bytes) + (nat \<times> bytes)" where
  "load_pages s kr mem_end fin pos offset m =
     (if \<not> pos < fin then Inr (offset, m)
      else if mem_end < w64 (offset + PAGE_SIZE) then Inl (err E2BIG, m)
      else case ihk_smp_map_virtual offset PAGE_SIZE s of
        None \<Rightarrow> Inl (err EFAULT, m)
      | Some buf \<Rightarrow>
          (case kr pos (min (fin - pos) PAGE_SIZE) of
             (r, src) \<Rightarrow>
               if r \<le> 0 then Inl (r, m)
               else load_pages s kr mem_end fin (pos + nat r) (w64 (offset + PAGE_SIZE))
                      (copy_in (buf + nat r) (PAGE_SIZE - nat r) (\<lambda>_. 0) (copy_in buf (nat r) src m))))"
  by pat_completeness auto
termination
  by (relation "measure (\<lambda>(s, kr, mem_end, fin, pos, offset, m). fin - pos)") auto

declare load_pages.simps [simp del]

text \<open>The pages behind them, cleared. The mapping is not checked, a page that cannot be mapped is written through NULL.\<close>

function load_zero ::
  "'a smp_mem_scheme \<Rightarrow> nat \<Rightarrow> nat \<Rightarrow> nat \<Rightarrow> nat \<Rightarrow> bytes \<Rightarrow> ((int \<times> bytes) + bytes) option" where
  "load_zero s mem_end sz psize offset m =
     (if \<not> sz < psize then Some (Inr m)
      else if mem_end < w64 (offset + PAGE_SIZE) then Some (Inl (err E2BIG, m))
      else case ihk_smp_map_virtual offset PAGE_SIZE s of
        None \<Rightarrow> None
      | Some buf \<Rightarrow>
          load_zero s mem_end (sz + PAGE_SIZE) psize (w64 (offset + PAGE_SIZE)) (copy_in buf PAGE_SIZE (\<lambda>_. 0) m))"
  by pat_completeness auto
termination
  by (relation "measure (\<lambda>(s, mem_end, sz, psize, offset, m). psize - sz)") (auto simp: PAGE_SIZE_def)

declare load_zero.simps [simp del]

definition load_segment ::
  "'a smp_mem_scheme \<Rightarrow> kfile \<Rightarrow> nat \<Rightarrow> nat \<Rightarrow> phdr \<Rightarrow> bytes \<Rightarrow> ((int \<times> bytes) + bytes) option" where
  "load_segment s kr mem_end phys ph m =
     (case load_pages s kr mem_end (w64 (p_offset ph + p_filesz ph)) (p_offset ph)
             (sub64 (p_vaddr ph) (sub64 IHK_SMP_MAP_KERNEL_START phys)) m of
        Inl e \<Rightarrow> Some (Inl e)
      | Inr (offset, m') \<Rightarrow> load_zero s mem_end (round_page (p_filesz ph)) (round_page (p_memsz ph)) offset m')"

text \<open>
  The loop over the program headers, read from the page that holds the ELF header. The number of headers is read in every
  round.
\<close>

lemma unat_byte_less: "unat (b :: byte) < 256"
  by (rule order_less_le_trans [OF unsigned_less]) simp

lemma e_phnum_less: "e_phnum p m < 65536"
  using unat_byte_less [of "m (p + 56)"] unat_byte_less [of "m (p + 57)"] by (simp add: e_phnum_def)

lemma e_phnum_measure: "i < e_phnum p m \<Longrightarrow> 65536 - Suc i < 65536 - i"
  using e_phnum_less [of p m] by simp

function load_segments ::
  "'a smp_mem_scheme \<Rightarrow> kfile \<Rightarrow> nat \<Rightarrow> nat \<Rightarrow> nat \<Rightarrow> nat \<Rightarrow> nat \<Rightarrow> bytes \<Rightarrow> ((int \<times> bytes) + bytes) option" where
  "load_segments s kr mem_end phys elf64 elf64p i m =
     (if \<not> i < e_phnum elf64 m then Some (Inr m)
      else let ph = phdr_of_mem (elf64p + i * sizeof_phdr) m in
        if p_type ph \<noteq> PT_LOAD \<or> p_vaddr ph = 0 then load_segments s kr mem_end phys elf64 elf64p (i + 1) m
        else case load_segment s kr mem_end phys ph m of
          None \<Rightarrow> None
        | Some (Inl e) \<Rightarrow> Some (Inl e)
        | Some (Inr m') \<Rightarrow> load_segments s kr mem_end phys elf64 elf64p (i + 1) m')"
  by pat_completeness auto
termination
  by (relation "measure (\<lambda>(s, kr, mem_end, phys, elf64, elf64p, i, m). 65536 - i)")
    (auto dest: e_phnum_measure)

declare load_segments.simps [simp del]

text \<open>The NUMA node of the image: the lowest node of any chunk in use.\<close>

fun min_numa_id :: "int \<Rightarrow> ihk_os_mem_chunk list \<Rightarrow> int" where
  "min_numa_id n [] = n"
| "min_numa_id n (c # cs) = (if n \<noteq> -1 \<and> n \<le> oc_numa_id c then min_numa_id n cs else min_numa_id (oc_numa_id c) cs)"

text \<open>The largest chunk of the instance on that node; the flag tells whether there is one.\<close>

fun bootstrap_chunk :: "ihk_os \<Rightarrow> int \<Rightarrow> ihk_os_mem_chunk list \<Rightarrow> bool \<times> nat \<times> nat \<Rightarrow> bool \<times> nat \<times> nat" where
  "bootstrap_chunk h numa [] st = st"
| "bootstrap_chunk h numa (c # cs) (found, start, fin) =
     (if oc_os c \<noteq> h \<or> oc_numa_id c \<noteq> numa then bootstrap_chunk h numa cs (found, start, fin)
      else if fin - start < oc_size c then bootstrap_chunk h numa cs (True, oc_addr c, oc_addr c + oc_size c)
      else bootstrap_chunk h numa cs (found, start, fin))"

definition find_bootstrap :: "ihk_os \<Rightarrow> 'a smp_mem_scheme \<Rightarrow> 'b smp_boot_scheme \<Rightarrow> bool \<times> 'b smp_boot_scheme" where
  "find_bootstrap h s d =
     (let numa = (if bootstrap_numa_id d = -1 then min_numa_id (-1) (ihk_mem_used_chunks s) else bootstrap_numa_id d)
      in case bootstrap_chunk h numa (ihk_mem_used_chunks s) (False, 0, 0) of
        (found, start, fin) \<Rightarrow>
          (found, d\<lparr>bootstrap_mem_start := start, bootstrap_mem_end := fin, bootstrap_numa_id := numa\<rparr>))"

text \<open>The start-up page, below the last two large pages of the chunk.\<close>

definition startup_addr :: "nat \<Rightarrow> nat" where
  "startup_addr mem_end = sub64 (mem_end - mem_end mod IHK_SMP_LARGE_PAGE) (2 * 2 ^ 21)"

definition startup_page :: "startup_env \<Rightarrow> nat \<Rightarrow> nat \<Rightarrow> nat \<Rightarrow> nat \<Rightarrow> nat \<Rightarrow> bytes \<Rightarrow> bytes" where
  "startup_page E pt mem_end phys entry p m =
     put64 (p + 48) (of_nat entry) (put64 (p + 40) (of_nat (trampoline_phys E)) (put64 (p + 32) (of_nat phys)
       (put64 (p + 24) (of_nat (sub64 mem_end PAGE_SIZE)) (put64 (p + 16) (of_nat pt)
         (copy_in p (length (startup_data E)) (\<lambda>k. startup_data E ! k) m)))))"

definition smp_ihk_os_setup_startup ::
  "startup_env \<Rightarrow> 'a smp_mem_scheme \<Rightarrow> nat \<Rightarrow> nat \<Rightarrow> 'b smp_boot_scheme \<times> bytes \<Rightarrow>
     (int \<times> 'b smp_boot_scheme \<times> bytes) option" where
  "smp_ihk_os_setup_startup E s phys entry dm =
     (case dm of (d, m) \<Rightarrow>
       case se_boot_pt E of
         None \<Rightarrow> Some (err ENOMEM, d, m)
       | Some pt \<Rightarrow>
           (case ihk_smp_map_virtual (startup_addr (bootstrap_mem_end d)) PAGE_SIZE s of
              None \<Rightarrow> None
            | Some p \<Rightarrow>
                Some (0, d\<lparr>boot_rip := startup_addr (bootstrap_mem_end d)\<rparr>,
                      startup_page E pt (bootstrap_mem_end d) phys entry p m)))"

definition smp_ihk_adjust_entry :: "nat \<Rightarrow> nat \<Rightarrow> nat" where
  "smp_ihk_adjust_entry entry phys = entry"

text \<open>
  The image, once the file is open. The ELF header is read into the last page of the chunk and stays there while the segments
  are loaded.
\<close>

definition load_image ::
  "startup_env \<Rightarrow> kfile \<Rightarrow> 'a smp_mem_scheme \<Rightarrow> 'b smp_boot_scheme \<times> bytes \<Rightarrow> (int \<times> 'b smp_boot_scheme \<times> bytes) option" where
  "load_image E kr s dm =
     (case dm of (d, m) \<Rightarrow>
       case ihk_smp_map_virtual (sub64 (bootstrap_mem_end d) PAGE_SIZE) PAGE_SIZE s of
         None \<Rightarrow> Some (err EINVAL, d, m)
       | Some elf64 \<Rightarrow>
           (case kr 0 PAGE_SIZE of (r, src) \<Rightarrow>
             if r \<le> 0 then Some (r, d, m)
             else let m1 = copy_in elf64 (nat r) src m in
               if \<not> e_magic elf64 m1 \<or> PAGE_SIZE < w64 (e_phoff elf64 m1 + sizeof_phdr * e_phnum elf64 m1)
               then Some (err EINVAL, d, m1)
               else let phys = image_base (bootstrap_mem_start d);
                        entry = smp_ihk_adjust_entry (e_entry elf64 m1) phys
                 in case load_segments s kr (bootstrap_mem_end d) phys elf64 (w64 (elf64 + e_phoff elf64 m1)) 0 m1 of
                      None \<Rightarrow> None
                    | Some (Inl (e, m2)) \<Rightarrow> Some (e, d, m2)
                    | Some (Inr m2) \<Rightarrow> smp_ihk_os_setup_startup E s phys entry (d, m2)))"

text \<open>A file that cannot be opened: \<open>fput\<close> is called on the error pointer.\<close>

definition smp_ihk_os_load_file ::
  "startup_env \<Rightarrow> kfile option \<Rightarrow> ihk_os \<Rightarrow> 'a smp_mem_scheme \<Rightarrow> 'b smp_boot_scheme \<times> bytes \<Rightarrow>
     (int \<times> 'b smp_boot_scheme \<times> bytes) option" where
  "smp_ihk_os_load_file E file h s dm =
     (case dm of (d, m) \<Rightarrow>
       case find_bootstrap h s d of (found, d1) \<Rightarrow>
         if \<not> found then Some (err EINVAL, d1, m)
         else if os_cpu_hw_ids_map d1 = {} \<or> bootstrap_mem_end d1 < bootstrap_mem_start d1 then Some (err EINVAL, d1, m)
         else if os_status d1 \<noteq> BUILTIN_OS_STATUS_INITIAL then Some (err EBUSY, d1, m)
         else case file of
           None \<Rightarrow> None
         | Some kr \<Rightarrow>
             (case load_image E kr s (d1\<lparr>os_status := BUILTIN_OS_STATUS_LOADING\<rparr>, m) of
                None \<Rightarrow> None
              | Some (r, d2, m2) \<Rightarrow> Some (r, d2\<lparr>os_status := BUILTIN_OS_STATUS_INITIAL\<rparr>, m2)))"

section \<open>Loading from memory\<close>

text \<open>
  The pages are copied from \<open>buf + offset\<close> to the start of each page. Reading behind the end of the buffer is the result
  None.
\<close>

definition load_mem_chunk :: "nat \<Rightarrow> nat \<Rightarrow> nat" where
  "load_mem_chunk offset sz =
     (if PAGE_SIZE < w64 (offset mod PAGE_SIZE + sz) then PAGE_SIZE - offset mod PAGE_SIZE else sz)"

lemma load_mem_chunk_pos: "0 < sz \<Longrightarrow> 0 < load_mem_chunk offset sz"
  using mod_less_divisor [of PAGE_SIZE offset] by (simp add: load_mem_chunk_def PAGE_SIZE_def)

function load_mem_loop ::
  "'a smp_mem_scheme \<Rightarrow> byte list \<Rightarrow> nat \<Rightarrow> nat \<Rightarrow> nat \<Rightarrow> bytes \<Rightarrow> (int \<times> bytes) option" where
  "load_mem_loop s buf phys offset sz m =
     (if sz = 0 then Some (0, m)
      else case ihk_smp_map_virtual phys PAGE_SIZE s of
        None \<Rightarrow> Some (err ENOMEM, m)
      | Some virt \<Rightarrow>
          let to_read = load_mem_chunk offset sz in
          if length buf < offset + to_read then None
          else load_mem_loop s buf (w64 (phys + PAGE_SIZE)) (offset + to_read) (sz - to_read)
                 (copy_in virt to_read (\<lambda>k. buf ! (offset + k)) m))"
  by pat_completeness auto
termination
  by (relation "measure (\<lambda>(s, buf, phys, offset, sz, m). sz)") (auto simp: load_mem_chunk_pos)

declare load_mem_loop.simps [simp del]

definition smp_ihk_os_load_mem ::
  "byte list \<Rightarrow> nat \<Rightarrow> int \<Rightarrow> 'a smp_mem_scheme \<Rightarrow> 'b smp_boot_scheme \<times> bytes \<Rightarrow> (int \<times> 'b smp_boot_scheme \<times> bytes) option" where
  "smp_ihk_os_load_mem buf sz offset s dm =
     (case dm of (d, m) \<Rightarrow>
       if os_cpu_hw_ids_map d = {} \<or> os_mem_end d < os_mem_start d then Some (err EINVAL, d, m)
       else if os_mem_end d < w64 (os_mem_start d + sz) then Some (err E2BIG, d, m)
       else if os_status d \<noteq> BUILTIN_OS_STATUS_INITIAL then Some (err EBUSY, d, m)
       else let start = nat ((offset + int (os_mem_start d)) mod 2 ^ 64);
                phys = start - start mod PAGE_SIZE;
                d1 = d\<lparr>os_status := BUILTIN_OS_STATUS_LOADING\<rparr>
         in case load_mem_loop s buf phys (start - phys) sz m of
              None \<Rightarrow> None
            | Some (r, m') \<Rightarrow>
                if r < 0 then Some (r, d1\<lparr>os_status := BUILTIN_OS_STATUS_INITIAL\<rparr>, m')
                else Some (0, d1\<lparr>boot_rip := os_mem_start d, os_status := BUILTIN_OS_STATUS_INITIAL\<rparr>, m'))"

section \<open>Copying\<close>

lemma copy_in_append:
  "copy_in (b + n) k g (copy_in b n f m) = copy_in b (n + k) (\<lambda>i. if i < n then f i else g (i - n)) m"
  by (auto simp: copy_in_def fun_eq_iff)

lemma copy_in_cong: "n = n' \<Longrightarrow> (\<And>i. i < n' \<Longrightarrow> f i = g i) \<Longrightarrow> copy_in b n f m = copy_in b n' g m"
  by (auto simp: copy_in_def fun_eq_iff)

lemma copy_in_0 [simp]: "copy_in b 0 f m = m"
  by (auto simp: copy_in_def fun_eq_iff)

lemma copy_in_outside: "a \<notin> bytes_of (b, n) \<Longrightarrow> copy_in b n f m a = m a"
  by (auto simp: copy_in_def bytes_of_def)

lemma copy_in_at [simp]: "k < n \<Longrightarrow> copy_in b n f m (b + k) = f k"
  by (simp add: copy_in_def)

section \<open>Whole pages\<close>

definition up :: "nat \<Rightarrow> nat" where
  "up n = (n + (PAGE_SIZE - 1)) div PAGE_SIZE * PAGE_SIZE"

lemma up_0 [simp]: "up 0 = 0"
  by (simp add: up_def PAGE_SIZE_def)

lemma up_dvd [simp]: "PAGE_SIZE dvd up n"
  by (simp add: up_def)

lemma up_ge: "n \<le> up n"
  by (simp add: up_def PAGE_SIZE_def)

lemma up_mono: "a \<le> b \<Longrightarrow> up a \<le> up b"
  by (simp add: up_def div_le_mono)

lemma up_less: "up n < n + PAGE_SIZE"
  by (simp add: up_def PAGE_SIZE_def)

lemma up_small: "0 < n \<Longrightarrow> n \<le> PAGE_SIZE \<Longrightarrow> up n = PAGE_SIZE"
  by (simp add: up_def PAGE_SIZE_def)

lemma up_step:
  assumes "0 < n"
  shows "up n = PAGE_SIZE + up (n - min n PAGE_SIZE)"
proof (cases "n \<le> PAGE_SIZE")
  case True
  with assms show ?thesis by (simp add: up_small)
next
  case False
  then obtain k where "n = PAGE_SIZE + k"
    by (metis le_add_diff_inverse nat_le_linear)
  moreover have "(PAGE_SIZE + k + (PAGE_SIZE - 1)) div PAGE_SIZE = Suc ((k + (PAGE_SIZE - 1)) div PAGE_SIZE)"
    using div_add_self1 [of PAGE_SIZE "k + (PAGE_SIZE - 1)"] by (simp add: PAGE_SIZE_def add.assoc)
  ultimately show ?thesis by (simp add: up_def)
qed

lemma round_page_up:
  assumes "n + PAGE_SIZE \<le> 2 ^ 64"
  shows "round_page n = up n"
proof -
  have "w64 (n + PAGE_SIZE - 1) = n + (PAGE_SIZE - 1)"
    using assms by (simp add: w64_def PAGE_SIZE_def)
  then show ?thesis
    by (simp add: round_page_def up_def Let_def minus_mod_eq_div_mult)
qed

section \<open>Loading segments\<close>

text \<open>What \<open>kernel_read\<close> promises of a regular file of the given length and content: only its end shortens a read.\<close>

definition serves :: "kfile \<Rightarrow> nat \<Rightarrow> bytes \<Rightarrow> bool" where
  "serves kr len data \<longleftrightarrow>
     (\<forall>pos n. pos < 2 ^ 63 \<longrightarrow> kr pos n = (int (min n (len - pos)), \<lambda>k. data (pos + k)))"

text \<open>A range that lies in one chunk in use, whoever it belongs to.\<close>

definition in_use :: "'a smp_mem_scheme \<Rightarrow> nat \<Rightarrow> nat \<Rightarrow> bool" where
  "in_use s a n \<longleftrightarrow> (\<exists>c \<in> set (ihk_mem_used_chunks s). inside (a, n) (orange c))"

lemma in_use_part: "in_use s a n \<Longrightarrow> a \<le> b \<Longrightarrow> b + k \<le> a + n \<Longrightarrow> in_use s b k"
  unfolding in_use_def orange_def inside.simps by (meson le_trans)

lemma map_in_use: "in_use s a n \<Longrightarrow> a + n < 2 ^ 64 \<Longrightarrow> ihk_smp_map_virtual a n s = Some a"
  by (simp add: map_virtual_spec in_use_def)

lemma load_pages_spec:
  assumes "serves kr len data" and "pos \<le> fin" and "fin \<le> len" and "fin < 2 ^ 63"
    and "in_use s off (up (fin - pos))" and "off + up (fin - pos) \<le> mem_end" and "mem_end < 2 ^ 64"
  shows "load_pages s kr mem_end fin pos off m =
    Inr (off + up (fin - pos), copy_in off (up (fin - pos)) (\<lambda>k. if k < fin - pos then data (pos + k) else 0) m)"
  using assms
proof (induction "fin - pos" arbitrary: pos off m rule: less_induct)
  case less
  show ?case
  proof (cases "pos < fin")
    case False
    then show ?thesis
      by (subst load_pages.simps) simp
  next
    case True
    let ?n = "fin - pos"
    define l where "l = min (fin - pos) PAGE_SIZE"
    have up: "up ?n = PAGE_SIZE + up (fin - (pos + l))"
      using up_step [of ?n] True by (simp add: l_def)
    have l: "0 < l" "l \<le> PAGE_SIZE" "l \<le> ?n"
      using True by (simp_all add: l_def PAGE_SIZE_def)
    have fits: "off + PAGE_SIZE \<le> mem_end"
      using less.prems(6) up by simp
    then have small: "off + PAGE_SIZE < 2 ^ 64"
      using less.prems(7) by (rule le_less_trans)
    then have w: "w64 (off + PAGE_SIZE) = off + PAGE_SIZE"
      by (simp add: w64_def)
    have mapped: "ihk_smp_map_virtual off PAGE_SIZE s = Some off"
      using in_use_part [OF less.prems(5), of off PAGE_SIZE] up small by (intro map_in_use) auto
    have "kr pos l = (int (min l (len - pos)), \<lambda>k. data (pos + k))"
      using less.prems(1,4) True by (simp add: serves_def)
    moreover have "min l (len - pos) = l"
      using less.prems(3) by (simp add: l_def)
    ultimately have rd: "kr pos l = (int l, \<lambda>k. data (pos + k))"
      by metis
    let ?m = "copy_in (off + l) (PAGE_SIZE - l) (\<lambda>_. 0) (copy_in off l (\<lambda>k. data (pos + k)) m)"
    have step: "load_pages s kr mem_end fin pos off m = load_pages s kr mem_end fin (pos + l) (off + PAGE_SIZE) ?m"
      using True fits l(1) by (subst load_pages.simps) (simp add: w mapped rd flip: l_def)
    have "load_pages s kr mem_end fin (pos + l) (off + PAGE_SIZE) ?m =
      Inr (off + PAGE_SIZE + up (fin - (pos + l)), copy_in (off + PAGE_SIZE) (up (fin - (pos + l)))
        (\<lambda>k. if k < fin - (pos + l) then data (pos + l + k) else 0) ?m)"
    proof (rule less.hyps)
      show "fin - (pos + l) < fin - pos" using l True by linarith
      show "in_use s (off + PAGE_SIZE) (up (fin - (pos + l)))"
        using less.prems(5) by (rule in_use_part) (simp_all add: up)
    qed (use less.prems up l in auto)
    moreover have "?m = copy_in off PAGE_SIZE (\<lambda>k. if k < l then data (pos + k) else 0) m"
      unfolding copy_in_append using l by (intro copy_in_cong) auto
    moreover have "copy_in (off + PAGE_SIZE) (up (fin - (pos + l)))
        (\<lambda>k. if k < fin - (pos + l) then data (pos + l + k) else 0)
        (copy_in off PAGE_SIZE (\<lambda>k. if k < l then data (pos + k) else 0) m) =
      copy_in off (up ?n) (\<lambda>k. if k < ?n then data (pos + k) else 0) m"
      unfolding copy_in_append up [symmetric]
      by (rule copy_in_cong [OF refl], cases "?n \<le> PAGE_SIZE") (auto simp: l_def)
    ultimately show ?thesis
      unfolding step by (simp add: up add.assoc)
  qed
qed

lemma load_zero_spec:
  assumes "sz \<le> psize" and "PAGE_SIZE dvd psize - sz"
    and "in_use s off (psize - sz)" and "off + (psize - sz) \<le> mem_end" and "mem_end < 2 ^ 64"
  shows "load_zero s mem_end sz psize off m = Some (Inr (copy_in off (psize - sz) (\<lambda>_. 0) m))"
  using assms
proof (induction "psize - sz" arbitrary: sz off m rule: less_induct)
  case less
  show ?case
  proof (cases "sz < psize")
    case False
    then show ?thesis by (subst load_zero.simps) simp
  next
    case True
    then have page: "PAGE_SIZE \<le> psize - sz"
      using less.prems(2) by (simp add: dvd_imp_le)
    have fits: "off + PAGE_SIZE \<le> mem_end"
      using less.prems(4) page by simp
    then have small: "off + PAGE_SIZE < 2 ^ 64"
      using less.prems(5) by (rule le_less_trans)
    then have w: "w64 (off + PAGE_SIZE) = off + PAGE_SIZE"
      by (simp add: w64_def)
    have mapped: "ihk_smp_map_virtual off PAGE_SIZE s = Some off"
      using in_use_part [OF less.prems(3), of off PAGE_SIZE] page small by (intro map_in_use) auto
    let ?m = "copy_in off PAGE_SIZE (\<lambda>_. 0) m"
    have step: "load_zero s mem_end sz psize off m = load_zero s mem_end (sz + PAGE_SIZE) psize (off + PAGE_SIZE) ?m"
      using True fits by (subst load_zero.simps) (simp add: w mapped)
    have rest: "psize - (sz + PAGE_SIZE) = psize - sz - PAGE_SIZE"
      by simp
    have "load_zero s mem_end (sz + PAGE_SIZE) psize (off + PAGE_SIZE) ?m =
      Some (Inr (copy_in (off + PAGE_SIZE) (psize - (sz + PAGE_SIZE)) (\<lambda>_. 0) ?m))"
    proof (rule less.hyps)
      show "psize - (sz + PAGE_SIZE) < psize - sz" using True by (simp add: PAGE_SIZE_def)
      show "PAGE_SIZE dvd psize - (sz + PAGE_SIZE)"
        unfolding rest by (intro dvd_diff_nat less.prems(2) dvd_refl)
      show "in_use s (off + PAGE_SIZE) (psize - (sz + PAGE_SIZE))"
        using less.prems(3) by (rule in_use_part) (use page in simp_all)
    qed (use less.prems page in auto)
    moreover have "copy_in (off + PAGE_SIZE) (psize - (sz + PAGE_SIZE)) (\<lambda>_. 0) ?m = copy_in off (psize - sz) (\<lambda>_. 0) m"
      unfolding copy_in_append using page by (intro copy_in_cong) auto
    ultimately show ?thesis
      unfolding step by simp
  qed
qed


text \<open>Where a segment goes, and what memory is when it is there.\<close>

definition dest :: "nat \<Rightarrow> phdr \<Rightarrow> nat" where
  "dest phys ph = phys + (p_vaddr ph - IHK_SMP_MAP_KERNEL_START)"

definition seg_range :: "nat \<Rightarrow> phdr \<Rightarrow> range" where
  "seg_range phys ph = (dest phys ph, up (p_memsz ph))"

definition seg_bytes :: "bytes \<Rightarrow> phdr \<Rightarrow> nat \<Rightarrow> byte" where
  "seg_bytes data ph k = (if k < p_filesz ph then data (p_offset ph + k) else 0)"

definition place_seg :: "nat \<Rightarrow> bytes \<Rightarrow> bytes \<Rightarrow> phdr \<Rightarrow> bytes" where
  "place_seg phys data m ph = copy_in (dest phys ph) (up (p_memsz ph)) (seg_bytes data ph) m"

text \<open>
  A segment a loader can place between \<open>phys\<close> and \<open>lim\<close>: linked at or above the start of the kernel, inside the file, and no
  longer in the file than in memory.
\<close>

definition good_seg :: "nat \<Rightarrow> nat \<Rightarrow> nat \<Rightarrow> phdr \<Rightarrow> bool" where
  "good_seg len phys lim ph \<longleftrightarrow> IHK_SMP_MAP_KERNEL_START \<le> p_vaddr ph \<and> p_vaddr ph < 2 ^ 64 \<and> p_filesz ph \<le> p_memsz ph \<and>
     p_offset ph + p_filesz ph \<le> len \<and> dest phys ph + up (p_memsz ph) \<le> lim"

lemma dest_ge: "phys \<le> dest phys ph"
  unfolding dest_def by (rule le_add1)

lemma sub64_le:
  assumes "b \<le> a" and "a < 2 ^ 64"
  shows "sub64 a b = a - b"
proof -
  have "a + (2 ^ 64 - b) = (a - b) + 2 ^ 64"
    using assms by linarith
  then show ?thesis
    using assms by (simp only: sub64_def w64_def mod_add_self2) simp
qed

lemma segment_offset:
  assumes "IHK_SMP_MAP_KERNEL_START \<le> v" and "v < 2 ^ 64" and "phys \<le> IHK_SMP_MAP_KERNEL_START"
  shows "sub64 v (sub64 IHK_SMP_MAP_KERNEL_START phys) = phys + (v - IHK_SMP_MAP_KERNEL_START)"
proof -
  have "sub64 IHK_SMP_MAP_KERNEL_START phys = IHK_SMP_MAP_KERNEL_START - phys"
    using assms(3) by (rule sub64_le) (simp add: IHK_SMP_MAP_KERNEL_START_def)
  moreover have "sub64 v (IHK_SMP_MAP_KERNEL_START - phys) = v - (IHK_SMP_MAP_KERNEL_START - phys)"
    using assms(1,2) by (intro sub64_le) auto
  ultimately show ?thesis
    using assms(1,3) by simp
qed

lemma load_segment_spec:
  assumes "serves kr len data" and "len < 2 ^ 63" and "good_seg len phys lim ph" and "phys \<le> IHK_SMP_MAP_KERNEL_START"
    and "in_use s phys (lim - phys)" and "lim \<le> mem_end" and "mem_end + PAGE_SIZE < 2 ^ 64"
  shows "load_segment s kr mem_end phys ph m = Some (Inr (place_seg phys data m ph))"
proof -
  note good = assms(3) [unfolded good_seg_def]
  let ?F = "up (p_filesz ph)" and ?M = "up (p_memsz ph)" and ?d = "dest phys ph"
  have FM: "?F \<le> ?M"
    using good by (simp add: up_mono)
  have ends: "?d + ?M \<le> lim" "phys \<le> ?d"
    using good dest_ge by auto
  have lim: "lim < 2 ^ 64"
    using assms(6,7) by linarith
  have "p_filesz ph + PAGE_SIZE \<le> 2 ^ 64" "p_memsz ph + PAGE_SIZE \<le> 2 ^ 64"
    using ends good assms(6,7) up_ge [of "p_memsz ph"] by linarith+
  then have rp: "round_page (p_filesz ph) = ?F" "round_page (p_memsz ph) = ?M"
    by (simp_all add: round_page_up)
  have off: "sub64 (p_vaddr ph) (sub64 IHK_SMP_MAP_KERNEL_START phys) = ?d"
    unfolding dest_def using good assms(4) by (intro segment_offset) auto
  have fin: "w64 (p_offset ph + p_filesz ph) = p_offset ph + p_filesz ph"
    using good assms(2) by (simp add: w64_def)
  have inM: "in_use s ?d ?M"
    using assms(5) by (rule in_use_part) (use ends in auto)
  have pages: "load_pages s kr mem_end (p_offset ph + p_filesz ph) (p_offset ph) ?d m =
      Inr (?d + ?F, copy_in ?d ?F (seg_bytes data ph) m)"
    using load_pages_spec [OF assms(1), of "p_offset ph" "p_offset ph + p_filesz ph" s ?d mem_end m]
      good assms(2,6,7) ends FM in_use_part [OF inM, of ?d ?F]
    by (simp add: seg_bytes_def [abs_def])
  have "load_zero s mem_end ?F ?M (?d + ?F) (copy_in ?d ?F (seg_bytes data ph) m) =
      Some (Inr (copy_in (?d + ?F) (?M - ?F) (\<lambda>_. 0) (copy_in ?d ?F (seg_bytes data ph) m)))"
    using FM ends assms(6,7) in_use_part [OF inM, of "?d + ?F" "?M - ?F"]
    by (intro load_zero_spec) (auto intro: dvd_diff_nat)
  moreover have "copy_in (?d + ?F) (?M - ?F) (\<lambda>_. 0) (copy_in ?d ?F (seg_bytes data ph) m) = place_seg phys data m ph"
    unfolding copy_in_append place_seg_def using FM up_ge [of "p_filesz ph"]
    by (intro copy_in_cong) (auto simp: seg_bytes_def)
  ultimately show ?thesis
    by (simp add: load_segment_def off fin rp pages)
qed

section \<open>Reading headers\<close>

lemma get32_shift:
  assumes "\<And>k. k < 4 \<Longrightarrow> m (p + k) = m' (q + k)"
  shows "get32 p m = get32 q m'"
  using assms [of 0] assms [of 1] assms [of 2] assms [of 3] by (simp add: get32_def)

lemma get64_shift:
  assumes "\<And>k. k < 8 \<Longrightarrow> m (p + k) = m' (q + k)"
  shows "get64 p m = get64 q m'"
proof -
  have "get32 p m = get32 q m'"
    by (rule get32_shift) (use assms in simp)
  moreover have "m (p + 4 + k) = m' (q + 4 + k)" if "k < 4" for k
    using assms [of "4 + k"] that by (simp add: add.assoc)
  then have "get32 (p + 4) m = get32 (q + 4) m'"
    by (rule get32_shift)
  ultimately show ?thesis
    by (simp add: get64_def)
qed

lemma get64_shift_at:
  assumes "\<And>k. k < n \<Longrightarrow> m (p + k) = m' (q + k)" and "j + 8 \<le> n"
  shows "get64 (p + j) m = get64 (q + j) m'"
proof (rule get64_shift)
  show "m (p + j + k) = m' (q + j + k)" if "k < 8" for k
    using assms(1) [of "j + k"] assms(2) that by (simp add: add.assoc)
qed

lemma phdr_shift:
  assumes "\<And>k. k < sizeof_phdr \<Longrightarrow> m (p + k) = m' (q + k)"
  shows "phdr_of_mem p m = phdr_of_mem q m'"
proof -
  have "get32 p m = get32 q m'"
    by (rule get32_shift) (use assms in \<open>simp add: sizeof_phdr_def\<close>)
  then show ?thesis
    using get64_shift_at [of sizeof_phdr m p m' q] assms by (simp add: phdr_of_mem_def sizeof_phdr_def)
qed

lemma ehdr_shift:
  assumes "\<And>k. k < 64 \<Longrightarrow> m (p + k) = m' (q + k)"
  shows "e_magic p m = e_magic q m'" "e_entry p m = e_entry q m'" "e_phoff p m = e_phoff q m'" "e_phnum p m = e_phnum q m'"
  using get64_shift_at [of 64 m p m' q] assms assms [of 0] assms [of 1] assms [of 2] assms [of 3] assms [of 56] assms [of 57]
  by (simp_all add: e_magic_def e_entry_def e_phoff_def e_phnum_def)


section \<open>The whole image\<close>

definition phdrs :: "nat \<Rightarrow> nat \<Rightarrow> bytes \<Rightarrow> phdr list" where
  "phdrs n p m = map (\<lambda>i. phdr_of_mem (p + i * sizeof_phdr) m) [0..<n]"

lemma phdrs_length [simp]: "length (phdrs n p m) = n"
  by (simp add: phdrs_def)

lemma phdrs_nth [simp]: "i < n \<Longrightarrow> phdrs n p m ! i = phdr_of_mem (p + i * sizeof_phdr) m"
  by (simp add: phdrs_def)

definition loadable :: "phdr \<Rightarrow> bool" where
  "loadable ph \<longleftrightarrow> p_type ph = PT_LOAD \<and> p_vaddr ph \<noteq> 0"

lemma place_seg_outside: "a \<notin> bytes_of (seg_range phys ph) \<Longrightarrow> place_seg phys data m ph a = m a"
  by (simp add: place_seg_def copy_in_outside seg_range_def)

lemma place_seg_at: "k < up (p_memsz ph) \<Longrightarrow> place_seg phys data m ph (dest phys ph + k) = seg_bytes data ph k"
  by (simp add: place_seg_def)

lemma fold_outside:
  "\<forall>ph \<in> set phs. a \<notin> bytes_of (seg_range phys ph) \<Longrightarrow> foldl (place_seg phys data) m phs a = m a"
  by (induction phs arbitrary: m) (auto simp: place_seg_outside)

lemma seg_range_bytes: "k < up (p_memsz ph) \<Longrightarrow> dest phys ph + k \<in> bytes_of (seg_range phys ph)"
  by (simp add: bytes_of_def seg_range_def)

lemma fold_content:
  assumes "apart_list (map (seg_range phys) phs)" and "ph \<in> set phs" and "k < up (p_memsz ph)"
  shows "foldl (place_seg phys data) m phs (dest phys ph + k) = seg_bytes data ph k"
  using assms
proof (induction phs arbitrary: m)
  case (Cons q phs)
  show ?case
  proof (cases "ph \<in> set phs")
    case True
    with Cons show ?thesis by simp
  next
    case False
    with Cons.prems(2) have "ph = q" by simp
    with Cons.prems(1) have "\<forall>p \<in> set phs. apart (seg_range phys ph) (seg_range phys p)"
      by simp
    then have "\<forall>p \<in> set phs. dest phys ph + k \<notin> bytes_of (seg_range phys p)"
      using seg_range_bytes [OF Cons.prems(3)] apart_bytes by blast
    then show ?thesis
      using Cons.prems(3) \<open>ph = q\<close> by (simp add: fold_outside place_seg_at)
  qed
qed simp

lemma good_seg_bytes: "good_seg len phys lim ph \<Longrightarrow> bytes_of (seg_range phys ph) \<subseteq> {phys..<lim}"
  using dest_ge [of phys ph] by (auto simp: good_seg_def bytes_of_def seg_range_def)

lemma good_seg_above:
  assumes "good_seg len phys lim ph" and "lim \<le> a"
  shows "place_seg phys data m ph a = m a"
  by (rule place_seg_outside) (use good_seg_bytes [OF assms(1)] assms(2) in auto)

lemma load_segments_spec:
  assumes "serves kr len data" and "len < 2 ^ 63" and "phys \<le> IHK_SMP_MAP_KERNEL_START"
    and "in_use s phys (lim - phys)" and "lim \<le> mem_end" and "mem_end + PAGE_SIZE < 2 ^ 64"
    and "lim \<le> elf64" and "elf64 \<le> elf64p" and "n = e_phnum elf64 hdr"
    and "\<forall>ph \<in> set (filter loadable (phdrs n elf64p hdr)). good_seg len phys lim ph"
    and "\<forall>a. elf64 \<le> a \<longrightarrow> m a = hdr a" and "i \<le> n"
  shows "load_segments s kr mem_end phys elf64 elf64p i m =
    Some (Inr (foldl (place_seg phys data) m (filter loadable (drop i (phdrs n elf64p hdr)))))"
  using assms(11,12)
proof (induction "n - i" arbitrary: i m)
  case 0
  have "e_phnum elf64 m = n"
    unfolding assms(9) using "0.prems"(1) by (intro ehdr_shift) simp
  with 0 show ?case
    by (subst load_segments.simps) (simp add: phdrs_def)
next
  case (Suc j)
  have num: "e_phnum elf64 m = n"
    unfolding assms(9) using Suc.prems(1) by (intro ehdr_shift) simp
  let ?ph = "phdr_of_mem (elf64p + i * sizeof_phdr) hdr"
  have i: "i < n" and j: "j = n - Suc i"
    using Suc.hyps(2) by simp_all
  have ph: "phdr_of_mem (elf64p + i * sizeof_phdr) m = ?ph"
    using Suc.prems(1) assms(8) by (intro phdr_shift) simp
  have drop: "drop i (phdrs n elf64p hdr) = ?ph # drop (Suc i) (phdrs n elf64p hdr)"
    using Cons_nth_drop_Suc [of i "phdrs n elf64p hdr"] i by simp
  show ?case
  proof (cases "loadable ?ph")
    case False
    then have "load_segments s kr mem_end phys elf64 elf64p i m = load_segments s kr mem_end phys elf64 elf64p (Suc i) m"
      using i num by (subst load_segments.simps) (auto simp: ph loadable_def)
    then show ?thesis
      using Suc.hyps(1) [OF j Suc.prems(1)] i False by (simp add: drop)
  next
    case True
    have "?ph \<in> set (phdrs n elf64p hdr)"
      using i by (auto simp: phdrs_def)
    with True assms(10) have good: "good_seg len phys lim ?ph"
      by simp
    have seg: "load_segment s kr mem_end phys ?ph m = Some (Inr (place_seg phys data m ?ph))"
      by (rule load_segment_spec [OF assms(1,2) good assms(3-6)])
    have "\<forall>a. elf64 \<le> a \<longrightarrow> place_seg phys data m ?ph a = hdr a"
      using good_seg_above [OF good] assms(7) Suc.prems(1) by (metis le_trans)
    note rest = Suc.hyps(1) [OF j this]
    have "load_segments s kr mem_end phys elf64 elf64p i m =
        load_segments s kr mem_end phys elf64 elf64p (Suc i) (place_seg phys data m ?ph)"
      using i num True by (subst load_segments.simps) (auto simp: ph loadable_def seg)
    then show ?thesis
      using rest i True by (simp add: drop)
  qed
qed

text \<open>
  An image that fits between \<open>phys\<close> and \<open>lim\<close>: a complete header, its segments loadable there and apart from each other.
\<close>

definition image_segs :: "bytes \<Rightarrow> phdr list" where
  "image_segs data = filter loadable (phdrs (e_phnum 0 data) (e_phoff 0 data) data)"

definition good_image :: "nat \<Rightarrow> bytes \<Rightarrow> nat \<Rightarrow> nat \<Rightarrow> bool" where
  "good_image len data phys lim \<longleftrightarrow> e_magic 0 data \<and> 64 \<le> len \<and>
     e_phoff 0 data + sizeof_phdr * e_phnum 0 data \<le> min len PAGE_SIZE \<and>
     list_all (good_seg len phys lim) (image_segs data) \<and> apart_list (map (seg_range phys) (image_segs data))"

lemma image_base_bounds:
  assumes "start + 2 * IHK_SMP_LARGE_PAGE \<le> 2 ^ 64"
  shows "start \<le> image_base start" "image_base start < start + 2 * IHK_SMP_LARGE_PAGE"
proof -
  let ?y = "start + 2 * IHK_SMP_LARGE_PAGE - 1"
  have "w64 ?y = ?y"
    using assms by (simp add: w64_def IHK_SMP_LARGE_PAGE_def)
  then have base: "image_base start = ?y - ?y mod IHK_SMP_LARGE_PAGE"
    by (simp add: image_base_def Let_def)
  have "?y mod IHK_SMP_LARGE_PAGE < IHK_SMP_LARGE_PAGE"
    by (rule mod_less_divisor) (simp add: IHK_SMP_LARGE_PAGE_def)
  then show "start \<le> image_base start" "image_base start < start + 2 * IHK_SMP_LARGE_PAGE"
    unfolding base by (simp_all add: IHK_SMP_LARGE_PAGE_def)
qed

lemma startup_addr_bounds:
  assumes "3 * IHK_SMP_LARGE_PAGE \<le> fin" and "fin < 2 ^ 64"
  shows "fin - 3 * IHK_SMP_LARGE_PAGE \<le> startup_addr fin" "startup_addr fin + 2 * IHK_SMP_LARGE_PAGE \<le> fin"
proof -
  have md: "fin mod IHK_SMP_LARGE_PAGE < IHK_SMP_LARGE_PAGE"
    by (rule mod_less_divisor) (simp add: IHK_SMP_LARGE_PAGE_def)
  have "startup_addr fin = fin - fin mod IHK_SMP_LARGE_PAGE - 2 * 2 ^ 21"
    unfolding startup_addr_def using assms md by (intro sub64_le) (simp_all add: IHK_SMP_LARGE_PAGE_def)
  then show "fin - 3 * IHK_SMP_LARGE_PAGE \<le> startup_addr fin" "startup_addr fin + 2 * IHK_SMP_LARGE_PAGE \<le> fin"
    using assms(1) md by (simp_all add: IHK_SMP_LARGE_PAGE_def)
qed

lemma startup_page_outside:
  assumes "length (startup_data E) \<le> PAGE_SIZE" and "a \<notin> bytes_of (p, PAGE_SIZE)"
  shows "startup_page E pt fin phys entry p m a = m a"
  using assms by (auto simp: startup_page_def put64_def copy_in_def bytes_of_def PAGE_SIZE_def)

lemma startup_page_fields:
  "get64 (p + 48) (startup_page E pt fin phys entry p m) = of_nat entry"
  "get64 (p + 32) (startup_page E pt fin phys entry p m) = of_nat phys"
  "get64 (p + 24) (startup_page E pt fin phys entry p m) = of_nat (sub64 fin PAGE_SIZE)"
  by (simp_all add: startup_page_def get_put_other)


text \<open>The chunk chosen for the image is one of the instance.\<close>

lemma bootstrap_chunk_own:
  assumes "bootstrap_chunk h numa cs (f, a, b) = (True, start, fin)"
    and "f \<longrightarrow> (\<exists>c \<in> set us. oc_os c = h \<and> a = oc_addr c \<and> b = oc_addr c + oc_size c)" and "set cs \<subseteq> set us"
  shows "\<exists>c \<in> set us. oc_os c = h \<and> start = oc_addr c \<and> fin = oc_addr c + oc_size c"
  using assms
proof (induction cs arbitrary: f a b)
  case (Cons c cs)
  then show ?case
    by (fastforce split: if_splits)
qed auto

lemma find_bootstrap_own:
  assumes "find_bootstrap h s d = (True, d')"
  shows "\<exists>c \<in> set (ihk_mem_used_chunks s). oc_os c = h \<and> bootstrap_mem_start d' = oc_addr c \<and>
    bootstrap_mem_end d' = oc_addr c + oc_size c"
  using assms bootstrap_chunk_own [where us = "ihk_mem_used_chunks s"]
  by (fastforce simp: find_bootstrap_def Let_def split: prod.splits)

lemma find_bootstrap_keeps:
  assumes "find_bootstrap h s d = (f, d')"
  shows "os_status d' = os_status d" "os_cpu_hw_ids_map d' = os_cpu_hw_ids_map d"
  using assms by (auto simp: find_bootstrap_def Let_def split: prod.splits)

text \<open>What is in memory when the image has been loaded into a range given to an instance.\<close>

definition image_placed :: "bytes \<Rightarrow> nat \<Rightarrow> bytes \<Rightarrow> bool" where
  "image_placed data phys m \<longleftrightarrow>
     (\<forall>ph \<in> set (image_segs data). \<forall>k < p_memsz ph.
        m (dest phys ph + k) = (if k < p_filesz ph then data (p_offset ph + k) else 0))"

lemma fold_image:
  assumes "good_image len data phys lim"
  shows "image_placed data phys (foldl (place_seg phys data) m (image_segs data))"
    and "a \<notin> {phys..<lim} \<Longrightarrow> foldl (place_seg phys data) m (image_segs data) a = m a"
proof -
  have ap: "apart_list (map (seg_range phys) (image_segs data))" and good: "\<forall>ph \<in> set (image_segs data). good_seg len phys lim ph"
    using assms by (auto simp: good_image_def list_all_iff)
  show "image_placed data phys (foldl (place_seg phys data) m (image_segs data))"
    unfolding image_placed_def
  proof (intro ballI allI impI)
    fix ph k assume "ph \<in> set (image_segs data)" "k < p_memsz ph"
    then show "foldl (place_seg phys data) m (image_segs data) (dest phys ph + k) =
        (if k < p_filesz ph then data (p_offset ph + k) else 0)"
      using fold_content [OF ap, of ph k data m] up_ge [of "p_memsz ph"] by (simp add: seg_bytes_def)
  qed
  show "foldl (place_seg phys data) m (image_segs data) a = m a" if "a \<notin> {phys..<lim}"
    using good good_seg_bytes that by (intro fold_outside) blast
qed

lemma header_page:
  assumes "serves kr len data" and "good_image len data phys lim" and "m1 = copy_in p (min PAGE_SIZE len) data m"
  shows "kr 0 PAGE_SIZE = (int (min PAGE_SIZE len), data)" "0 < min PAGE_SIZE len"
    "e_magic p m1" "e_entry p m1 = e_entry 0 data" "e_phoff p m1 = e_phoff 0 data" "e_phnum p m1 = e_phnum 0 data"
    "phdrs (e_phnum 0 data) (p + e_phoff 0 data) m1 = phdrs (e_phnum 0 data) (e_phoff 0 data) data"
proof -
  show "kr 0 PAGE_SIZE = (int (min PAGE_SIZE len), data)"
    using assms(1) by (simp add: serves_def)
  have len: "64 \<le> min PAGE_SIZE len" and tab: "e_phoff 0 data + sizeof_phdr * e_phnum 0 data \<le> min PAGE_SIZE len"
    using assms(2) by (simp_all add: good_image_def PAGE_SIZE_def)
  then show "0 < min PAGE_SIZE len" by linarith
  have at: "m1 (p + k) = data (0 + k)" if "k < min PAGE_SIZE len" for k
    using that by (simp add: assms(3))
  then have hd: "m1 (p + k) = data (0 + k)" if "k < 64" for k
    using that len by (meson less_le_trans)
  show "e_magic p m1" "e_entry p m1 = e_entry 0 data" "e_phoff p m1 = e_phoff 0 data" "e_phnum p m1 = e_phnum 0 data"
    using ehdr_shift [of m1 p data 0, OF hd] assms(2) by (simp_all add: good_image_def)
  show "phdrs (e_phnum 0 data) (p + e_phoff 0 data) m1 = phdrs (e_phnum 0 data) (e_phoff 0 data) data"
  proof (rule nth_equalityI)
    fix i assume "i < length (phdrs (e_phnum 0 data) (p + e_phoff 0 data) m1)"
    then have i: "i < e_phnum 0 data" by simp
    then have "sizeof_phdr * Suc i \<le> sizeof_phdr * e_phnum 0 data"
      by (intro mult_le_mono2) simp
    then have "i * sizeof_phdr + sizeof_phdr \<le> sizeof_phdr * e_phnum 0 data"
      by (simp add: mult.commute)
    then have "m1 (p + e_phoff 0 data + i * sizeof_phdr + k) = data (e_phoff 0 data + i * sizeof_phdr + k)"
      if "k < sizeof_phdr" for k
      using at [of "e_phoff 0 data + i * sizeof_phdr + k"] tab that by (simp add: add.assoc)
    then have "phdr_of_mem (p + e_phoff 0 data + i * sizeof_phdr) m1 = phdr_of_mem (e_phoff 0 data + i * sizeof_phdr) data"
      by (rule phdr_shift)
    then show "phdrs (e_phnum 0 data) (p + e_phoff 0 data) m1 ! i = phdrs (e_phnum 0 data) (e_phoff 0 data) data ! i"
      using i by simp
  qed simp
qed


lemma load_image_spec:
  assumes fl: "serves kr len data" "len < 2 ^ 63"
    and chunk: "in_use s start (fin - start)" "start + 4 * IHK_SMP_LARGE_PAGE \<le> fin" "fin \<le> IHK_SMP_MAP_KERNEL_START"
    and d: "bootstrap_mem_start d = start" "bootstrap_mem_end d = fin"
    and image: "good_image len data (image_base start) (startup_addr fin)"
    and E: "se_boot_pt E = Some pt" "length (startup_data E) \<le> PAGE_SIZE"
  shows "\<exists>m'. load_image E kr s (d, m) = Some (0, d\<lparr>boot_rip := startup_addr fin\<rparr>, m') \<and>
    image_placed data (image_base start) m' \<and> get64 (startup_addr fin + 48) m' = of_nat (e_entry 0 data) \<and>
    get64 (startup_addr fin + 32) m' = of_nat (image_base start) \<and> (\<forall>a. a \<notin> {start..<fin} \<longrightarrow> m' a = m a)"
proof -
  let ?phys = "image_base start" and ?lim = "startup_addr fin" and ?p = "fin - PAGE_SIZE"
  let ?m1 = "copy_in ?p (min PAGE_SIZE len) data m"
  note const = IHK_SMP_LARGE_PAGE_def PAGE_SIZE_def IHK_SMP_MAP_KERNEL_START_def
  have fin: "fin + PAGE_SIZE < 2 ^ 64" "PAGE_SIZE \<le> fin" "start \<le> ?p" "start \<le> fin"
    using chunk by (simp_all add: const)
  have phys: "start \<le> ?phys" "?phys < start + 2 * IHK_SMP_LARGE_PAGE"
    using image_base_bounds [of start] chunk by (simp_all add: const)
  have lim: "start \<le> ?lim" "?lim + PAGE_SIZE \<le> ?p"
    using startup_addr_bounds [of fin] chunk by (simp_all add: const)
  have maps: "ihk_smp_map_virtual ?p PAGE_SIZE s = Some ?p" "ihk_smp_map_virtual ?lim PAGE_SIZE s = Some ?lim"
    using in_use_part [OF chunk(1), of ?p PAGE_SIZE] in_use_part [OF chunk(1), of ?lim PAGE_SIZE] fin lim
    by (auto intro!: map_in_use)
  have elf: "sub64 fin PAGE_SIZE = ?p"
    using fin by (intro sub64_le) auto
  note hdr = header_page [OF fl(1) image refl [of ?m1]]
  let ?tab = "?p + e_phoff 0 data"
  have tab: "e_phoff 0 data + sizeof_phdr * e_phnum 0 data \<le> PAGE_SIZE"
    using image by (simp add: good_image_def)
  then have wt: "w64 ?tab = ?tab" "w64 (e_phoff 0 data + sizeof_phdr * e_phnum 0 data) = e_phoff 0 data + sizeof_phdr * e_phnum 0 data"
    using fin by (simp_all add: w64_def PAGE_SIZE_def)
  have segs: "filter loadable (phdrs (e_phnum 0 data) ?tab ?m1) = image_segs data"
    by (simp add: hdr(7) image_segs_def)
  have "load_segments s kr fin ?phys ?p ?tab 0 ?m1 =
      Some (Inr (foldl (place_seg ?phys data) ?m1 (filter loadable (drop 0 (phdrs (e_phnum 0 data) ?tab ?m1)))))"
  proof (rule load_segments_spec [OF fl, where lim = ?lim])
    show "in_use s ?phys (?lim - ?phys)"
      using chunk(1) by (rule in_use_part) (use phys lim fin chunk in \<open>simp_all add: const\<close>)
    show "\<forall>ph \<in> set (filter loadable (phdrs (e_phnum 0 data) ?tab ?m1)). good_seg len ?phys ?lim ph"
      unfolding segs using image by (simp add: good_image_def list_all_iff)
  qed (use hdr(6) fin lim phys chunk in \<open>auto simp: const\<close>)
  then have loaded: "load_segments s kr fin ?phys ?p ?tab 0 ?m1 = Some (Inr (foldl (place_seg ?phys data) ?m1 (image_segs data)))"
    using segs by simp
  let ?m2 = "foldl (place_seg ?phys data) ?m1 (image_segs data)"
  let ?m3 = "startup_page E pt fin ?phys (e_entry 0 data) ?lim ?m2"
  have run: "load_image E kr s (d, m) = Some (0, d\<lparr>boot_rip := ?lim\<rparr>, ?m3)"
    using hdr tab loaded E(1) maps
    by (simp add: load_image_def d elf wt Let_def smp_ihk_adjust_entry_def smp_ihk_os_setup_startup_def) (simp add: min_def)
  show ?thesis
  proof (intro exI conjI)
    show "load_image E kr s (d, m) = Some (0, d\<lparr>boot_rip := ?lim\<rparr>, ?m3)"
      by (rule run)
    have below: "?m3 a = ?m2 a" if "a < ?lim" for a
      using E(2) that by (intro startup_page_outside) (auto simp: bytes_of_def)
    show "image_placed data ?phys ?m3"
    proof -
      have "dest ?phys ph + k < ?lim" if "ph \<in> set (image_segs data)" "k < p_memsz ph" for ph k
        using image that up_ge [of "p_memsz ph"] by (fastforce simp: good_image_def list_all_iff good_seg_def)
      then show ?thesis
        using fold_image(1) [OF image, of ?m1] below by (simp add: image_placed_def)
    qed
    show "\<forall>a. a \<notin> {start..<fin} \<longrightarrow> ?m3 a = m a"
    proof (intro allI impI)
      fix a assume a: "a \<notin> {start..<fin}"
      then have "a \<notin> bytes_of (?lim, PAGE_SIZE)" "a \<notin> {?phys..<?lim}" "a \<notin> bytes_of (?p, min PAGE_SIZE len)"
        using lim phys fin by (auto simp: bytes_of_def)
      then show "?m3 a = m a"
        using fold_image(2) [OF image] E(2) by (simp add: startup_page_outside copy_in_outside)
    qed
  qed (simp_all add: startup_page_fields)
qed



text \<open>An image with one segment: five bytes of the file, and zeros up to 5000 bytes.\<close>

definition demo_elf :: bytes where
  "demo_elf = put32 64 1 (put64 72 120 (put64 80 0xFFFFFFFFFE800000 (put64 96 5 (put64 104 5000
     (put64 32 64 (put64 24 0xFFFFFFFFFE800010 ((\<lambda>_. 7)(0 := 0x7f, 1 := 0x45, 2 := 0x4c, 3 := 0x46, 56 := 1, 57 := 0))))))))"

definition regular_file :: "nat \<Rightarrow> bytes \<Rightarrow> kfile" where
  "regular_file len data pos n = (int (min n (len - pos)), \<lambda>k. data (pos + k))"

definition demo_startup :: startup_env where
  "demo_startup = \<lparr>se_boot_pt = Some 0x1000, startup_data = replicate 56 0x90, trampoline_phys = 0x2000\<rparr>"

definition demo_boot :: smp_boot where
  "demo_boot = smp_os_data.extend (new_os_data\<lparr>os_status := BUILTIN_OS_STATUS_INITIAL, os_cpu_hw_ids_map := {3}\<rparr>) (smp_boot.fields 0 0 (-1) 0)"

lemma demo_boot_simps [simp]:
  "os_status demo_boot = BUILTIN_OS_STATUS_INITIAL" "os_cpu_hw_ids_map demo_boot = {3}" "bootstrap_numa_id demo_boot = -1"
  by (simp_all add: demo_boot_def smp_os_data.defs smp_boot.defs)

lemma regular_file_serves: "serves (regular_file len data) len data"
  by (simp add: serves_def regular_file_def)

lemma demo_elf_ehdr:
  "e_magic 0 demo_elf" "e_entry 0 demo_elf = 0xFFFFFFFFFE800010" "e_phoff 0 demo_elf = 64" "e_phnum 0 demo_elf = 1"
  by (simp_all add: e_magic_def e_entry_def e_phoff_def e_phnum_def demo_elf_def)
     (simp_all add: put32_def put64_def)

lemma demo_elf_segs:
  "image_segs demo_elf = [\<lparr>p_type = 1, p_offset = 120, p_vaddr = 0xFFFFFFFFFE800000, p_filesz = 5, p_memsz = 5000\<rparr>]"
proof -
  have "phdr_of_mem 64 demo_elf = \<lparr>p_type = 1, p_offset = 120, p_vaddr = 0xFFFFFFFFFE800000, p_filesz = 5, p_memsz = 5000\<rparr>"
    by (simp add: phdr_of_mem_def demo_elf_def)
  then show ?thesis
    by (simp add: image_segs_def phdrs_def demo_elf_ehdr loadable_def PT_LOAD_def)
qed

definition demo_loaded :: smp_mem where
  "demo_loaded = mem_state [] [os_chunk 1 4096 2048, os_chunk 2 8192 4096]"

lemma demo_bootstrap:
  "find_bootstrap 2 demo_loaded demo_boot =
     (True, demo_boot\<lparr>bootstrap_mem_start := 8192 * 4096, bootstrap_mem_end := 12288 * 4096, bootstrap_numa_id := 0\<rparr>)"
  by (simp add: find_bootstrap_def demo_loaded_def os_chunk_def PAGE_SIZE_def)

lemma demo_good_image: "good_image 200 demo_elf (image_base (8192 * 4096)) (startup_addr (12288 * 4096))"
  by (simp add: good_image_def demo_elf_ehdr demo_elf_segs sizeof_phdr_def PAGE_SIZE_def good_seg_def seg_range_def dest_def
      up_def IHK_SMP_MAP_KERNEL_START_def image_base_def startup_addr_def IHK_SMP_LARGE_PAGE_def w64_def sub64_def)



section \<open>What loading gets wrong\<close>

text \<open>
  Property C38. Two failures of the file. A file that cannot be opened does not give an error: the error pointer is handed to
  \<open>fput\<close>. A file from which nothing can be read is reported as loaded, with memory unchanged and no entry point set.
\<close>

theorem load_file_failures:
  assumes "os_status d = BUILTIN_OS_STATUS_INITIAL" and "os_cpu_hw_ids_map d \<noteq> {}" and "find_bootstrap h s d = (True, d1)"
    and "PAGE_SIZE \<le> bootstrap_mem_end d1 - bootstrap_mem_start d1" and "bootstrap_mem_end d1 < 2 ^ 64" and "fst (kr 0 PAGE_SIZE) = 0"
  shows "smp_ihk_os_load_file E None h s (d, m) = None \<and> smp_ihk_os_load_file E (Some kr) h s (d, m) = Some (0, d1, m)"
proof -
  note keeps = find_bootstrap_keeps [OF assms(3)]
  let ?p = "bootstrap_mem_end d1 - PAGE_SIZE"
  obtain c where c: "c \<in> set (ihk_mem_used_chunks s)" "bootstrap_mem_start d1 = oc_addr c" "bootstrap_mem_end d1 = oc_addr c + oc_size c"
    using find_bootstrap_own [OF assms(3)] by auto
  then have "in_use s ?p PAGE_SIZE"
    using assms(4) by (auto simp: in_use_def orange_def intro!: bexI [of _ c])
  then have "ihk_smp_map_virtual ?p PAGE_SIZE s = Some ?p"
    using assms(4,5) by (intro map_in_use) auto
  moreover have "sub64 (bootstrap_mem_end d1) PAGE_SIZE = ?p"
    using assms(4,5) by (intro sub64_le) auto
  moreover have "d1\<lparr>os_status := BUILTIN_OS_STATUS_INITIAL\<rparr> = d1"
    using keeps(1) assms(1) by (cases d1) simp
  moreover have "\<not> bootstrap_mem_end d1 < bootstrap_mem_start d1"
    using c by simp
  moreover obtain src where "kr 0 PAGE_SIZE = (0, src)"
    using assms(6) by (metis prod.collapse)
  ultimately show ?thesis
    using assms(1-3) keeps by (simp add: smp_ihk_os_load_file_def load_image_def)
qed

theorem load_file_failures_witness:
  "smp_ihk_os_load_file demo_startup None 2 demo_loaded (demo_boot, \<lambda>_. 1) = None \<and>
   smp_ihk_os_load_file demo_startup (Some (regular_file 0 demo_elf)) 2 demo_loaded (demo_boot, \<lambda>_. 1) =
     Some (0, demo_boot\<lparr>bootstrap_mem_start := 8192 * 4096, bootstrap_mem_end := 12288 * 4096, bootstrap_numa_id := 0\<rparr>, \<lambda>_. 1)"
  using load_file_failures [where d = demo_boot and kr = "regular_file 0 demo_elf" and E = demo_startup and m = "\<lambda>_. 1", OF _ _ demo_bootstrap]
  by (simp add: PAGE_SIZE_def regular_file_def)

text \<open>
  Property C39. The destination of a segment has no lower bound. A segment of one page linked below the start of the kernel
  goes to the corresponding address below the image, and if that is in a chunk of another instance, its memory is overwritten.
\<close>

theorem low_segment_overwrites:
  assumes "serves kr len data" and "len < 2 ^ 63" and "p_vaddr ph + below = IHK_SMP_MAP_KERNEL_START" and "below \<le> phys"
    and "phys \<le> mem_end" and "mem_end < IHK_SMP_MAP_KERNEL_START"
    and "p_filesz ph = PAGE_SIZE" and "p_memsz ph = PAGE_SIZE" and "p_offset ph + PAGE_SIZE \<le> len" and "PAGE_SIZE \<le> below"
    and "c \<in> set (ihk_mem_used_chunks s)" and "inside (phys - below, PAGE_SIZE) (orange c)"
  shows "load_segment s kr mem_end phys ph m = Some (Inr (copy_in (phys - below) PAGE_SIZE (\<lambda>k. data (p_offset ph + k)) m)) \<and>
    bytes_of (phys - below, PAGE_SIZE) \<subseteq> os_bytes s (oc_os c)"
proof -
  let ?K = IHK_SMP_MAP_KERNEL_START and ?d = "phys - below"
  have K: "?K < 2 ^ 64" "?K + PAGE_SIZE < 2 ^ 64"
    by (simp_all add: IHK_SMP_MAP_KERNEL_START_def PAGE_SIZE_def)
  have "sub64 ?K phys = ?K - phys"
    using assms(5,6) K by (intro sub64_le) auto
  moreover have "sub64 (p_vaddr ph) (?K - phys) = p_vaddr ph - (?K - phys)"
    using assms(3,4) K by (intro sub64_le) auto
  ultimately have off: "sub64 (p_vaddr ph) (sub64 ?K phys) = ?d"
    using assms(3-6) by simp
  have use: "in_use s ?d PAGE_SIZE"
    using assms(11,12) by (auto simp: in_use_def)
  have up: "up PAGE_SIZE = PAGE_SIZE"
    by (intro up_small) (simp_all add: PAGE_SIZE_def)
  have rp: "round_page PAGE_SIZE = PAGE_SIZE"
    using round_page_up [of PAGE_SIZE] up by (simp add: PAGE_SIZE_def)
  have fin: "w64 (p_offset ph + PAGE_SIZE) = p_offset ph + PAGE_SIZE"
    using assms(2,9) by (simp add: w64_def)
  have "load_pages s kr mem_end (p_offset ph + PAGE_SIZE) (p_offset ph) ?d m =
      Inr (?d + PAGE_SIZE, copy_in ?d PAGE_SIZE (\<lambda>k. if k < PAGE_SIZE then data (p_offset ph + k) else 0) m)"
    using load_pages_spec [OF assms(1), of "p_offset ph" "p_offset ph + PAGE_SIZE" s ?d mem_end m] assms(2,4,5,6,9,10) use up K by simp
  moreover have "copy_in ?d PAGE_SIZE (\<lambda>k. if k < PAGE_SIZE then data (p_offset ph + k) else 0) m =
      copy_in ?d PAGE_SIZE (\<lambda>k. data (p_offset ph + k)) m"
    by (rule copy_in_cong) simp_all
  ultimately have "load_segment s kr mem_end phys ph m = Some (Inr (copy_in ?d PAGE_SIZE (\<lambda>k. data (p_offset ph + k)) m))"
    unfolding load_segment_def assms(7,8) off fin by (simp add: rp load_zero.simps)
  moreover have "bytes_of (?d, PAGE_SIZE) \<subseteq> os_bytes s (oc_os c)"
    using inside_bytes [OF assms(12)] assms(11) by (auto simp: os_bytes_def covered_def)
  ultimately show ?thesis ..
qed

theorem low_segment_overwrites_witness:
  "\<exists>m'. load_segment demo_loaded (regular_file 8192 demo_elf) (12288 * 4096) (8704 * 4096)
      \<lparr>p_type = 1, p_offset = 4096, p_vaddr = IHK_SMP_MAP_KERNEL_START - 4608 * 4096, p_filesz = 4096, p_memsz = 4096\<rparr> (\<lambda>_. 1) =
    Some (Inr m') \<and> m' (4096 * 4096) = 7 \<and> 4096 * 4096 \<in> os_bytes demo_loaded 1"
proof -
  let ?ph = "\<lparr>p_type = 1, p_offset = 4096, p_vaddr = IHK_SMP_MAP_KERNEL_START - 4608 * 4096, p_filesz = 4096, p_memsz = 4096\<rparr>"
  have "load_segment demo_loaded (regular_file 8192 demo_elf) (12288 * 4096) (8704 * 4096) ?ph (\<lambda>_. 1) =
      Some (Inr (copy_in (4096 * 4096) 4096 (\<lambda>k. demo_elf (4096 + k)) (\<lambda>_. 1))) \<and>
      bytes_of (4096 * 4096, 4096) \<subseteq> os_bytes demo_loaded 1"
    using low_segment_overwrites [OF regular_file_serves, of 8192 ?ph "4608 * 4096" "8704 * 4096" "12288 * 4096"
        "os_chunk 1 4096 2048" demo_loaded demo_elf "\<lambda>_. 1"]
    by (simp add: demo_loaded_def os_chunk_def orange_def PAGE_SIZE_def IHK_SMP_MAP_KERNEL_START_def)
  moreover have "demo_elf 4096 = 7"
    by (simp add: demo_elf_def put32_def put64_def)
  ultimately show ?thesis
    by (auto simp: copy_in_def bytes_of_def)
qed


section \<open>Loading from a buffer\<close>

lemma load_mem_loop_spec:
  assumes "PAGE_SIZE dvd offset" and "offset + sz \<le> length buf" and "phys + up sz < 2 ^ 64"
    and "\<And>i. i * PAGE_SIZE < sz \<Longrightarrow> in_use s (phys + i * PAGE_SIZE) PAGE_SIZE"
  shows "load_mem_loop s buf phys offset sz m = Some (0, copy_in phys sz (\<lambda>k. buf ! (offset + k)) m)"
  using assms
proof (induction sz arbitrary: offset phys m rule: less_induct)
  case (less sz)
  show ?case
  proof (cases "sz = 0")
    case True
    then show ?thesis by (simp add: load_mem_loop.simps)
  next
    case False
    define l where "l = min sz PAGE_SIZE"
    have up: "up sz = PAGE_SIZE + up (sz - l)"
      using up_step [of sz] False by (simp add: l_def)
    have l: "0 < l" "l \<le> sz" "l \<le> PAGE_SIZE"
      using False by (simp_all add: l_def PAGE_SIZE_def)
    have "sz < 2 ^ 64"
      using less.prems(3) up_ge [of sz] by linarith
    then have chunk: "load_mem_chunk offset sz = l"
      using less.prems(1) by (simp add: load_mem_chunk_def l_def w64_def dvd_imp_mod_0)
    have small: "phys + PAGE_SIZE < 2 ^ 64"
      using less.prems(3) up by linarith
    then have w: "w64 (phys + PAGE_SIZE) = phys + PAGE_SIZE"
      by (simp add: w64_def)
    have mapped: "ihk_smp_map_virtual phys PAGE_SIZE s = Some phys"
      using less.prems(4) [of 0] False small by (intro map_in_use) auto
    let ?m = "copy_in phys l (\<lambda>k. buf ! (offset + k)) m"
    have step: "load_mem_loop s buf phys offset sz m = load_mem_loop s buf (phys + PAGE_SIZE) (offset + l) (sz - l) ?m"
      using False less.prems(2) l by (subst load_mem_loop.simps) (simp add: mapped chunk w Let_def)
    show ?thesis
    proof (cases "sz \<le> PAGE_SIZE")
      case True
      then have "l = sz" by (simp add: l_def)
      then show ?thesis
        using step by (simp add: load_mem_loop.simps)
    next
      case False
      then have lP: "l = PAGE_SIZE" by (simp add: l_def)
      have "load_mem_loop s buf (phys + PAGE_SIZE) (offset + l) (sz - l) ?m =
          Some (0, copy_in (phys + PAGE_SIZE) (sz - l) (\<lambda>k. buf ! (offset + l + k)) ?m)"
      proof (rule less.IH)
        show "in_use s (phys + PAGE_SIZE + i * PAGE_SIZE) PAGE_SIZE" if "i * PAGE_SIZE < sz - l" for i
          using less.prems(4) [of "Suc i"] that by (simp add: lP add.assoc)
      qed (use less.prems l lP up in auto)
      moreover have "copy_in (phys + l) (sz - l) (\<lambda>k. buf ! (offset + l + k)) ?m = copy_in phys sz (\<lambda>k. buf ! (offset + k)) m"
        unfolding copy_in_append using l by (intro copy_in_cong) auto
      ultimately show ?thesis
        unfolding step lP by simp
    qed
  qed
qed



end
